(* ===== verification/Prelude.thy ===== *)
theory Prelude
  imports Main "HOL-Library.Word" "HOL-Library.Multiset"
begin

text \<open>
  What every component of the kernel model shares: the machine types, the ways kernel code
  can fail to return normally, the two result types (\<open>res\<close> for straight-line code, an
  option of \<open>res\<close> for code with loops that may run for ever), the macros of
  \<^verbatim>\<open>lib/debug.h\<close> and \<^verbatim>\<open>lib/round.h\<close>, and the generic facts about lists and words the
  component proofs use.
\<close>

unbundle bit_operations_syntax

named_theorems res_simps \<open>unfolding of the result combinators\<close>

section \<open>Machine types\<close>

text \<open>Pintos runs on IA-32: pointers, \<^verbatim>\<open>size_t\<close>, \<^verbatim>\<open>unsigned\<close> and
  \<^verbatim>\<open>unsigned long\<close> are 32 bits wide. The null pointer is address 0.\<close>

type_synonym u8 = "8 word"
type_synonym u16 = "16 word"
type_synonym u32 = "32 word"
type_synonym u64 = "64 word"
type_synonym addr = u32

section \<open>Results\<close>

text \<open>How kernel code leaves the normal path. \<open>Assert_failed\<close> is a failed
  \<^verbatim>\<open>ASSERT\<close>, \<open>Panicked\<close> an explicit \<^verbatim>\<open>PANIC\<close>, \<open>Unreachable\<close> an executed
  \<^verbatim>\<open>NOT_REACHED\<close>. \<open>Null_deref\<close>, \<open>Out_of_bounds\<close> and
  \<open>Uninitialised\<close> are undefined behaviour of C that the code does not guard
  against: a null pointer dereferenced, an array index out of bounds, and a variable read before it
  was written. \<open>Divide_error\<close> is the divide-error exception of the processor.\<close>

datatype kerror =
    Assert_failed
  | Panicked
  | Unreachable
  | Null_deref
  | Out_of_bounds
  | Uninitialised
  | Divide_error

type_synonym 'a res = "kerror + 'a"

definition bnd :: "'a res \<Rightarrow> ('a \<Rightarrow> 'b res) \<Rightarrow> 'b res" where
  "bnd m f = (case m of Inl e \<Rightarrow> Inl e | Inr x \<Rightarrow> f x)"

text \<open>\<^verbatim>\<open>ASSERT (CONDITION)\<close>, with the rest of the function as its continuation. The kernel
  is built without \<^verbatim>\<open>NDEBUG\<close>.\<close>

definition ASSERT :: "bool \<Rightarrow> 'a res \<Rightarrow> 'a res" where
  "ASSERT c k = (if c then k else Inl Assert_failed)"

lemma bnd_Inl [simp]: "bnd (Inl e) f = Inl e"
  and bnd_Inr [simp]: "bnd (Inr x) f = f x"
  by (simp_all add: bnd_def)

lemma bnd_eq_Inr_iff [res_simps]: "bnd m f = Inr y \<longleftrightarrow> (\<exists>x. m = Inr x \<and> f x = Inr y)"
  by (cases m) auto

lemma bnd_assoc: "bnd (bnd m f) g = bnd m (\<lambda>x. bnd (f x) g)"
  by (cases m) auto

lemma bnd_cong [fundef_cong]:
  "m = m' \<Longrightarrow> (\<And>x. m' = Inr x \<Longrightarrow> f x = f' x) \<Longrightarrow> bnd m f = bnd m' f'"
  by (cases m') auto

lemma ASSERT_True [simp]: "ASSERT True k = k"
  and ASSERT_False [simp]: "ASSERT False k = Inl Assert_failed"
  by (simp_all add: ASSERT_def)

lemma ASSERT_eq_Inr_iff [res_simps]: "ASSERT c k = Inr y \<longleftrightarrow> c \<and> k = Inr y"
  by (simp add: ASSERT_def)

lemma ASSERT_cong [fundef_cong]: "c = c' \<Longrightarrow> (c' \<Longrightarrow> k = k') \<Longrightarrow> ASSERT c k = ASSERT c' k'"
  by (simp add: ASSERT_def)

text \<open>Code with a loop over linked structures may run for ever, so it returns an option:
  \<open>None\<close> is non-termination. \<open>andThen\<close> is sequencing and \<open>check\<close> is \<^verbatim>\<open>ASSERT\<close>.\<close>

type_synonym 'a run = "'a res option"

definition andThen :: "'a run \<Rightarrow> ('a \<Rightarrow> 'b run) \<Rightarrow> 'b run" where
  "andThen m f = Option.bind m (\<lambda>r. case r of Inl e \<Rightarrow> Some (Inl e) | Inr x \<Rightarrow> f x)"

definition check :: "bool \<Rightarrow> 'a run \<Rightarrow> 'a run" where
  "check c k = (if c then k else Some (Inl Assert_failed))"

lemma andThen_simps [simp]:
  "andThen None f = None"
  "andThen (Some (Inl e)) f = Some (Inl e)"
  "andThen (Some (Inr x)) f = f x"
  by (simp_all add: andThen_def)

lemma run_cases [case_names diverge fail ok]:
  fixes m :: "'a run"
  obtains "m = None" | e where "m = Some (Inl e)" | x where "m = Some (Inr x)"
  by (metis not_None_eq obj_sumE)

lemma andThen_mono [partial_function_mono]:
  assumes "mono_option B" and "\<And>y. mono_option (\<lambda>f. C y f)"
  shows "mono_option (\<lambda>f. andThen (B f) (\<lambda>y. C y f))"
  unfolding andThen_def
proof (rule bind_mono [OF assms(1)])
  show "mono_option (\<lambda>f. case r of Inl e \<Rightarrow> Some (Inl e) | Inr x \<Rightarrow> C x f)" for r
    by (cases r) (simp_all add: assms(2) option.const_mono)
qed

lemma check_simps [simp]: "check True k = k" "check False k = Some (Inl Assert_failed)"
  by (simp_all add: check_def)

lemma check_mono [partial_function_mono]:
  assumes "mono_option B"
  shows "mono_option (\<lambda>f. check c (B f))"
  using assms by (cases c) (simp_all add: option.const_mono)

lemma andThen_eq_ok_iff [res_simps]:
  "andThen m f = Some (Inr y) \<longleftrightarrow> (\<exists>x. m = Some (Inr x) \<and> f x = Some (Inr y))"
  by (cases m rule: run_cases) simp_all

section \<open>Loop counters\<close>

text \<open>The counter of \<^verbatim>\<open>for (i = 0; i < cnt; i++)\<close> does not wrap around.\<close>

lemma unat_less_size: "unat w < 2 ^ LENGTH('a)" for w :: "'a::len word"
  by (rule unsigned_less)

lemma unat_plus_no_wrap:
  "unat a + unat b < 2 ^ LENGTH('a) \<Longrightarrow> unat (a + b) = unat a + unat b" for a b :: "'a::len word"
  by (rule unat_add_lem [THEN iffD1])

lemma unat_plus_1: "i < n \<Longrightarrow> unat (i + 1) = Suc (unat i)" for i n :: "'a::len word"
  using unat_plus_no_wrap [of i 1] unat_less_size [of n] by (simp add: word_less_nat_alt)

lemma loop_measure [simp]: "i < n \<Longrightarrow> unat n - unat (i + 1) < unat n - unat i" for i n :: "'a::len word"
  by (simp add: unat_plus_1 word_less_nat_alt)

lemma plus_1_le_iff: "i < n \<Longrightarrow> i + 1 \<le> n" for i n :: "'a::len word"
  by (simp add: word_le_nat_alt word_less_nat_alt unat_plus_1)

section \<open>\<^verbatim>\<open>lib/round.h\<close> at \<^verbatim>\<open>size_t\<close>\<close>

definition ROUND_UP :: "u32 \<Rightarrow> u32 \<Rightarrow> u32" where
  "ROUND_UP x step = (x + step - 1) div step * step"

definition DIV_ROUND_UP :: "u32 \<Rightarrow> u32 \<Rightarrow> u32" where
  "DIV_ROUND_UP x step = (x + step - 1) div step"

definition ROUND_DOWN :: "u32 \<Rightarrow> u32 \<Rightarrow> u32" where
  "ROUND_DOWN x step = x div step * step"

text \<open>Both round-up macros are exact as long as \<^verbatim>\<open>X + STEP - 1\<close> does not wrap around.\<close>

lemma unat_round_up_sum:
  fixes x step :: u32
  assumes "unat x + unat step \<le> 2 ^ 32" and "step > 0"
  shows "unat (x + step - 1) = unat x + unat step - 1"
proof -
  have s: "unat (step - 1) = unat step - 1"
    using assms(2) by (simp add: unat_minus_one word_neq_0_conv)
  have "0 < unat step"
    using assms(2) by (simp add: word_less_nat_alt)
  then have "unat (x + (step - 1)) = unat x + unat (step - 1)"
    using assms(1) s unat_plus_no_wrap [of x "step - 1"] by simp
  then show ?thesis
    using s \<open>0 < unat step\<close> by (simp add: add_diff_eq)
qed

lemma unat_DIV_ROUND_UP:
  assumes "unat x + unat step \<le> 2 ^ 32" and "step > 0"
  shows "unat (DIV_ROUND_UP x step) = (unat x + unat step - 1) div unat step"
  using unat_round_up_sum [OF assms] by (simp add: DIV_ROUND_UP_def unat_div)

lemma unat_ROUND_DOWN: "unat (ROUND_DOWN x step) = unat x div unat step * unat step"
proof -
  have "unat x div unat step * unat step \<le> unat x"
    by simp
  then show ?thesis
    unfolding ROUND_DOWN_def
    using le_less_trans [OF _ unat_less_size [of x]] unat_mult_lem [of "x div step" step]
    by (simp add: unat_div)
qed

section \<open>Words as bytes in memory\<close>

text \<open>IA-32 stores words little-endian.\<close>

definition le_bytes :: "u32 \<Rightarrow> u8 list" where
  "le_bytes w = [ucast w, ucast (drop_bit 8 w), ucast (drop_bit 16 w), ucast (drop_bit 24 w)]"

fun words_of_bytes :: "u8 list \<Rightarrow> u32 list" where
  "words_of_bytes (b0 # b1 # b2 # b3 # bs) =
     (ucast b0 OR push_bit 8 (ucast b1) OR push_bit 16 (ucast b2) OR push_bit 24 (ucast b3))
       # words_of_bytes bs"
| "words_of_bytes _ = []"

lemma le_bytes_word:
  "(ucast (ucast w :: u8) :: u32) OR push_bit 8 (ucast (ucast (drop_bit 8 w) :: u8))
     OR push_bit 16 (ucast (ucast (drop_bit 16 w) :: u8))
     OR push_bit 24 (ucast (ucast (drop_bit 24 w) :: u8)) = w" for w :: u32
proof (rule bit_word_eqI)
  fix n assume "n < LENGTH(32)"
  then consider "n < 8" | "8 \<le> n" "n < 16" | "16 \<le> n" "n < 24" | "24 \<le> n" "n < 32"
    by (simp, linarith)
  then show "bit ((ucast (ucast w :: u8) :: u32) OR push_bit 8 (ucast (ucast (drop_bit 8 w) :: u8))
     OR push_bit 16 (ucast (ucast (drop_bit 16 w) :: u8))
     OR push_bit 24 (ucast (ucast (drop_bit 24 w) :: u8))) n = bit w n"
    by cases (auto simp: bit_or_iff bit_push_bit_iff bit_ucast_iff bit_drop_bit_eq)
qed

lemma words_of_bytes_concat [simp]: "words_of_bytes (concat (map le_bytes ws)) = ws"
  by (induction ws) (simp_all add: le_bytes_def le_bytes_word)

lemma length_concat_le_bytes [simp]: "length (concat (map le_bytes ws)) = 4 * length ws"
  by (induction ws) (simp_all add: le_bytes_def)

end
