(* ===== verification/Vaddr.thy ===== *)
theory Vaddr
  imports Prelude
begin

text \<open>
  Virtual addresses and page-table entries: \<^verbatim>\<open>threads/vaddr.h\<close> and \<^verbatim>\<open>threads/pte.h\<close>. The lemmas
  show that page number and offset, and directory index, table index and offset, take an address
  apart and put it together again, and that an entry made for a page leads back to that page.
\<close>

section \<open>\<^verbatim>\<open>threads/vaddr.h\<close>\<close>

definition BITMASK :: "nat \<Rightarrow> nat \<Rightarrow> u32" where
  "BITMASK shift cnt = push_bit shift (push_bit cnt 1 - 1)"

definition PGSIZE :: u32 where
  "PGSIZE = push_bit 12 1"

definition PGMASK :: u32 where
  "PGMASK = BITMASK 0 12"

definition pg_ofs :: "addr \<Rightarrow> u32" where
  "pg_ofs va = va AND PGMASK"

definition pg_no :: "addr \<Rightarrow> u32" where
  "pg_no va = drop_bit 12 va"

definition pg_round_up :: "addr \<Rightarrow> addr" where
  "pg_round_up va = (va + PGSIZE - 1) AND NOT PGMASK"

definition pg_round_down :: "addr \<Rightarrow> addr" where
  "pg_round_down va = va AND NOT PGMASK"

definition PHYS_BASE :: addr where
  "PHYS_BASE = 0xc0000000"

definition is_user_vaddr :: "addr \<Rightarrow> bool" where
  "is_user_vaddr vaddr \<longleftrightarrow> vaddr < PHYS_BASE"

definition is_kernel_vaddr :: "addr \<Rightarrow> bool" where
  "is_kernel_vaddr vaddr \<longleftrightarrow> PHYS_BASE \<le> vaddr"

definition ptov :: "u32 \<Rightarrow> addr res" where
  "ptov paddr = ASSERT (paddr < PHYS_BASE) (Inr (paddr + PHYS_BASE))"

definition vtop :: "addr \<Rightarrow> u32 res" where
  "vtop vaddr = ASSERT (is_kernel_vaddr vaddr) (Inr (vaddr - PHYS_BASE))"

section \<open>\<^verbatim>\<open>threads/pte.h\<close>\<close>

definition PTMASK :: u32 where
  "PTMASK = BITMASK 12 10"

definition pt_no :: "addr \<Rightarrow> u32" where
  "pt_no va = drop_bit 12 (va AND PTMASK)"

definition pd_no :: "addr \<Rightarrow> u32" where
  "pd_no va = drop_bit 22 va"

definition PTE_ADDR :: u32 where
  "PTE_ADDR = 0xfffff000"

definition PTE_FLAGS :: u32 where
  "PTE_FLAGS = 0x00000fff"

definition PTE_P :: u32 where
  "PTE_P = 0x1"

definition PTE_W :: u32 where
  "PTE_W = 0x2"

definition PTE_U :: u32 where
  "PTE_U = 0x4"

definition PTE_A :: u32 where
  "PTE_A = 0x20"

definition PTE_D :: u32 where
  "PTE_D = 0x40"

definition pde_create :: "addr \<Rightarrow> u32 res" where
  "pde_create pt =
     ASSERT (pg_ofs pt = 0) (bnd (vtop pt) (\<lambda>p. Inr (p OR PTE_U OR PTE_P OR PTE_W)))"

definition pde_get_pt :: "u32 \<Rightarrow> addr res" where
  "pde_get_pt pde = ASSERT (pde AND PTE_P \<noteq> 0) (ptov (pde AND PTE_ADDR))"

definition pte_create_kernel :: "addr \<Rightarrow> bool \<Rightarrow> u32 res" where
  "pte_create_kernel page writable =
     ASSERT (pg_ofs page = 0)
       (bnd (vtop page) (\<lambda>p. Inr (p OR PTE_P OR (if writable then PTE_W else 0))))"

definition pte_create_user :: "addr \<Rightarrow> bool \<Rightarrow> u32 res" where
  "pte_create_user page writable = bnd (pte_create_kernel page writable) (\<lambda>e. Inr (e OR PTE_U))"

definition pte_get_page :: "u32 \<Rightarrow> addr res" where
  "pte_get_page pte = ptov (pte AND PTE_ADDR)"

section \<open>Addresses taken apart\<close>

lemma PGSIZE_eq [simp]: "PGSIZE = 4096"
  by (simp add: PGSIZE_def)

lemma PGMASK_mask: "PGMASK = mask 12"
  by (simp add: PGMASK_def BITMASK_def mask_eq_exp_minus_1)

lemma pg_ofs_take_bit: "pg_ofs va = take_bit 12 va"
  by (simp add: pg_ofs_def PGMASK_mask take_bit_eq_mask)

lemma unat_pg_ofs: "unat (pg_ofs va) = unat va mod 4096"
  by (simp add: pg_ofs_take_bit take_bit_eq_mod unat_mod)

lemma unat_pg_no: "unat (pg_no va) = unat va div 4096"
  by (simp add: pg_no_def drop_bit_eq_div unat_div)

lemma pg_no_ofs: "va = PGSIZE * pg_no va + pg_ofs va"
proof -
  have "unat (PGSIZE * pg_no va) = 4096 * (unat va div 4096)"
    using unat_mult_lem [of 4096 "pg_no va"] unat_less_size [of va]
    by (simp add: unat_pg_no div_less_iff_less_mult)
  then have "unat (PGSIZE * pg_no va + pg_ofs va) = unat va"
    using unat_less_size [of va] by (subst unat_plus_no_wrap) (simp_all add: unat_pg_ofs)
  then show ?thesis
    by (simp add: word_unat_eq_iff)
qed

lemma pg_round_down_eq: "pg_round_down va = va - pg_ofs va"
proof -
  have "va - (va AND PGMASK) = va AND NOT (va AND PGMASK)"
    by (rule disjunctive_diff) (simp add: bit_and_iff)
  also have "\<dots> = va AND NOT PGMASK"
    by (rule bit_word_eqI) (auto simp: bit_and_iff bit_or_iff bit_not_iff)
  finally show ?thesis
    by (simp add: pg_round_down_def pg_ofs_def)
qed

lemma unat_pg_round_down: "unat (pg_round_down va) = unat va - unat va mod 4096"
proof -
  have "pg_ofs va \<le> va"
    by (simp add: word_le_nat_alt unat_pg_ofs)
  then show ?thesis
    by (simp add: pg_round_down_eq unat_sub unat_pg_ofs)
qed

lemma pg_ofs_round_down [simp]: "pg_ofs (pg_round_down va) = 0"
  by (simp add: pg_ofs_def pg_round_down_def and.assoc)

lemma pg_ofs_zero_iff: "pg_ofs va = 0 \<longleftrightarrow> unat va mod 4096 = 0"
  by (metis unat_pg_ofs unat_eq_zero)

lemma pg_ofs_add:
  assumes "pg_ofs a = 0" and "pg_ofs b = 0"
  shows "pg_ofs (a + b) = 0"
proof -
  have "4096 dvd unat a + unat b"
    using assms by (intro dvd_add) (simp_all add: pg_ofs_zero_iff mod_eq_0_iff_dvd)
  moreover have "unat (a + b) = (unat a + unat b) mod 2 ^ 32"
    using unat_word_ariths(1) [of a b] by simp
  moreover have "(unat a + unat b) mod 2 ^ 32 mod 4096 = (unat a + unat b) mod 4096"
    by (rule mod_mod_cancel) simp
  ultimately show ?thesis
    by (simp add: pg_ofs_zero_iff mod_eq_0_iff_dvd)
qed

lemma pg_round_up_eq:
  assumes "unat va \<le> 2 ^ 32 - 4096"
  shows "unat (pg_round_up va) = (unat va + 4095) div 4096 * 4096"
proof -
  have "unat (va + 4095) = unat va + 4095"
    using assms unat_plus_no_wrap [of va 4095] by simp
  moreover have eq: "va + PGSIZE - 1 = va + 4095"
    by simp
  ultimately show ?thesis
    using unat_pg_round_down [of "va + 4095"] unfolding pg_round_up_def eq
    by (simp add: pg_round_down_def minus_mod_eq_div_mult)
qed

text \<open>Directory index, table index and offset determine the address.\<close>

lemma unat_pd_no: "unat (pd_no va) = unat va div 2 ^ 22"
  by (simp add: pd_no_def drop_bit_eq_div unat_div)

lemma pt_no_take_bit: "pt_no va = take_bit 10 (drop_bit 12 va)"
proof -
  have "drop_bit 12 PTMASK = mask 10"
    by (simp add: PTMASK_def BITMASK_def mask_eq_exp_minus_1)
  then show ?thesis
    by (simp add: pt_no_def drop_bit_and take_bit_eq_mask)
qed

lemma unat_pt_no: "unat (pt_no va) = unat va div 4096 mod 1024"
  by (simp add: pt_no_take_bit drop_bit_eq_div take_bit_eq_mod unat_div unat_mod)

lemma pd_no_less: "unat (pd_no va) < 1024"
  using unat_less_size [of va] by (simp add: unat_pd_no)

lemma pt_no_less: "unat (pt_no va) < 1024"
  by (simp add: unat_pt_no)

lemma pd_pt_no_page:
  "pd_no va = pd_no vb \<and> pt_no va = pt_no vb \<longleftrightarrow> pg_no va = pg_no vb"
proof -
  have d: "unat va div 2 ^ 22 = unat va div 4096 div 1024" for va :: addr
    by (simp add: div_mult2_eq [symmetric])
  have "unat (pg_no va) = unat (pd_no va) * 1024 + unat (pt_no va)" for va
    unfolding unat_pg_no unat_pd_no unat_pt_no d by (rule div_mult_mod_eq [symmetric])
  moreover have "unat (pd_no va) = unat (pg_no va) div 1024" "unat (pt_no va) = unat (pg_no va) mod 1024" for va
    by (simp_all only: unat_pg_no unat_pd_no unat_pt_no d)
  ultimately show ?thesis
    by (metis word_unat_eq_iff)
qed

section \<open>Physical and kernel virtual addresses\<close>

lemma vtop_ptov:
  assumes "PHYS_BASE \<le> v"
  shows "vtop v = Inr (v - PHYS_BASE)" and "unat (v - PHYS_BASE) = unat v - 0xc0000000"
    and "ptov (v - PHYS_BASE) = Inr v"
proof -
  show "vtop v = Inr (v - PHYS_BASE)"
    using assms by (simp add: vtop_def is_kernel_vaddr_def)
  show u: "unat (v - PHYS_BASE) = unat v - 0xc0000000"
    using assms by (simp add: unat_sub PHYS_BASE_def)
  then have "v - PHYS_BASE < PHYS_BASE"
    using unat_less_size [of v] by (simp add: word_less_nat_alt PHYS_BASE_def)
  then show "ptov (v - PHYS_BASE) = Inr v"
    by (simp add: ptov_def)
qed

lemma vtop_aligned:
  assumes "PHYS_BASE \<le> v" and "pg_ofs v = 0"
  shows "pg_ofs (v - PHYS_BASE) = 0"
proof -
  have "4096 dvd unat v"
    using assms(2) by (simp add: pg_ofs_zero_iff mod_eq_0_iff_dvd)
  then have "4096 dvd unat v - 0xc0000000"
    by (rule dvd_diff_nat) simp
  then show ?thesis
    using vtop_ptov(2) [OF assms(1)] by (simp add: pg_ofs_zero_iff)
qed

section \<open>Entries\<close>

lemma PTE_ADDR_mask: "PTE_ADDR = NOT (mask 12)"
  by (simp add: PTE_ADDR_def mask_eq_exp_minus_1)

lemma entry_parts:
  assumes "pg_ofs p = 0" and "f = take_bit 12 f" and "b = take_bit 12 b"
  shows "(p OR f) AND PTE_ADDR = p" and "(p OR f) AND b = f AND b"
proof -
  have p: "\<not> bit p n" if "n < 12" for n
    using assms(1) that by (metis pg_ofs_take_bit bit_take_bit_iff bit_0_eq bot_apply bot_bool_def)
  have f: "\<not> bit f n" "\<not> bit b n" if "\<not> n < 12" for n
    using assms(2,3) that by (metis bit_take_bit_iff)+
  show "(p OR f) AND PTE_ADDR = p"
    by (rule bit_word_eqI) (use p f in \<open>auto simp: PTE_ADDR_mask bit_simps\<close>)
  show "(p OR f) AND b = f AND b"
    by (rule bit_word_eqI) (use p f in \<open>auto simp: bit_simps\<close>)
qed

lemma pde_roundtrip:
  assumes "PHYS_BASE \<le> pt" and "pg_ofs pt = 0"
  shows "\<exists>e. pde_create pt = Inr e \<and> pde_get_pt e = Inr pt \<and> e \<noteq> 0"
proof -
  let ?p = "pt - PHYS_BASE" and ?f = "7 :: u32"
  have e: "pde_create pt = Inr (?p OR ?f)"
    using assms vtop_ptov(1) [OF assms(1)]
    by (simp add: pde_create_def PTE_U_def PTE_P_def PTE_W_def or.assoc)
  have "(?p OR ?f) AND PTE_ADDR = ?p" "(?p OR ?f) AND 1 = 7 AND 1"
    using entry_parts [OF vtop_aligned [OF assms], of ?f 1] by simp_all
  moreover from this(2) have "?p OR ?f \<noteq> 0"
    by auto
  ultimately show ?thesis
    using e vtop_ptov(3) [OF assms(1)] by (simp add: pde_get_pt_def PTE_P_def)
qed

lemma pte_roundtrip:
  assumes "PHYS_BASE \<le> page" and "pg_ofs page = 0"
  shows "\<exists>e. pte_create_user page w = Inr e \<and> pte_get_page e = Inr page \<and> e AND PTE_P \<noteq> 0
     \<and> e AND PTE_U \<noteq> 0 \<and> (e AND PTE_W \<noteq> 0 \<longleftrightarrow> w) \<and> e AND PTE_A = 0 \<and> e AND PTE_D = 0"
proof -
  let ?p = "page - PHYS_BASE" and ?f = "(if w then 7 else 5) :: u32"
  have e: "pte_create_user page w = Inr (?p OR ?f)"
    using assms vtop_ptov(1) [OF assms(1)]
    by (simp add: pte_create_user_def pte_create_kernel_def PTE_U_def PTE_P_def PTE_W_def or.assoc)
  note parts = entry_parts(2) [OF vtop_aligned [OF assms], where f = ?f]
  have "(?p OR ?f) AND PTE_ADDR = ?p"
    using entry_parts(1) [OF vtop_aligned [OF assms], of ?f 0] by simp
  then show ?thesis
    using e vtop_ptov(3) [OF assms(1)] parts [where b = 1] parts [where b = 2] parts [where b = 4] parts [where b = "0x20"]
      parts [where b = "0x40"]
    by (simp add: pte_get_page_def PTE_P_def PTE_U_def PTE_W_def PTE_A_def PTE_D_def)
qed

section \<open>Properties\<close>

lemma entry_flags:
  assumes "pg_ofs p = 0" and "f = take_bit 12 f"
  shows "(p OR f) AND PTE_FLAGS = f"
proof -
  have m: "PTE_FLAGS = mask 12"
    by (simp add: PTE_FLAGS_def mask_eq_exp_minus_1)
  have "(p OR f) AND PTE_FLAGS = f AND PTE_FLAGS"
    by (rule entry_parts(2) [OF assms]) (simp add: m)
  also have "\<dots> = f"
    using assms(2) by (simp add: m take_bit_eq_mask [symmetric])
  finally show ?thesis .
qed

text \<open>C23: The entries that point to a page-aligned kernel page consist of exactly its physical address and the requested flags. A kernel
  page-table entry has \<^verbatim>\<open>PTE_P\<close>, and \<^verbatim>\<open>PTE_W\<close> when it is writable; a user entry has \<^verbatim>\<open>PTE_U\<close> as well; a directory entry
  has all three; no other flag bit is set. \<^verbatim>\<open>pte_get_page\<close> and \<^verbatim>\<open>pde_get_pt\<close> lead back to the page. An address that is not
  page-aligned, or below \<^verbatim>\<open>PHYS_BASE\<close>, fails an assertion.\<close>

theorem pte_pde_roundtrip:
  "(PHYS_BASE \<le> page \<and> pg_ofs page = 0 \<longrightarrow>
      (\<exists>e. pte_create_kernel page w = Inr e \<and> pte_get_page e = Inr page \<and> e AND PTE_FLAGS = PTE_P OR (if w then PTE_W else 0))
    \<and> (\<exists>e. pte_create_user page w = Inr e \<and> pte_get_page e = Inr page
         \<and> e AND PTE_FLAGS = PTE_P OR PTE_U OR (if w then PTE_W else 0))
    \<and> (\<exists>e. pde_create page = Inr e \<and> pde_get_pt e = Inr page \<and> e AND PTE_FLAGS = PTE_P OR PTE_U OR PTE_W))
   \<and> (\<not> (PHYS_BASE \<le> page \<and> pg_ofs page = 0) \<longrightarrow>
      pte_create_kernel page w = Inl Assert_failed \<and> pte_create_user page w = Inl Assert_failed \<and> pde_create page = Inl Assert_failed)"
proof (intro conjI impI)
  assume a: "PHYS_BASE \<le> page \<and> pg_ofs page = 0"
  let ?p = "page - PHYS_BASE"
  note v = vtop_ptov [of page] and al = vtop_aligned [of page]
  have ad: "(?p OR f) AND PTE_ADDR = ?p" if "f = take_bit 12 f" for f
    using entry_parts(1) [of ?p f 0] al a that by simp
  have fl: "(?p OR f) AND PTE_FLAGS = f" if "f = take_bit 12 f" for f
    using entry_flags [of ?p f] al a that by simp
  have "pte_create_kernel page w = Inr (?p OR (if w then 3 else 1))"
    using a v by (simp add: pte_create_kernel_def PTE_P_def PTE_W_def or.assoc)
  moreover have "pte_create_user page w = Inr (?p OR (if w then 7 else 5))"
    using a v by (simp add: pte_create_user_def pte_create_kernel_def PTE_U_def PTE_P_def PTE_W_def or.assoc)
  ultimately show "\<exists>e. pte_create_kernel page w = Inr e \<and> pte_get_page e = Inr page \<and> e AND PTE_FLAGS = PTE_P OR (if w then PTE_W else 0)"
    and "\<exists>e. pte_create_user page w = Inr e \<and> pte_get_page e = Inr page
         \<and> e AND PTE_FLAGS = PTE_P OR PTE_U OR (if w then PTE_W else 0)"
    using a v ad fl by (simp_all add: pte_get_page_def PTE_P_def PTE_U_def PTE_W_def)
  have "pde_create page = Inr (?p OR 7)"
    using a v by (simp add: pde_create_def PTE_U_def PTE_P_def PTE_W_def or.assoc)
  moreover have "pde_create page = Inr e \<Longrightarrow> pde_get_pt e = Inr page" for e
    using pde_roundtrip [of page] a by auto
  ultimately show "\<exists>e. pde_create page = Inr e \<and> pde_get_pt e = Inr page \<and> e AND PTE_FLAGS = PTE_P OR PTE_U OR PTE_W"
    using fl by (simp add: PTE_P_def PTE_U_def PTE_W_def)
qed (auto simp: pte_create_user_def pte_create_kernel_def pde_create_def vtop_def is_kernel_vaddr_def ASSERT_def)

theorem pte_pde_roundtrip_witness:
  "(\<exists>e. pte_create_user 0xc0123000 False = Inr e \<and> pte_get_page e = Inr 0xc0123000 \<and> e AND PTE_FLAGS = 5)
     \<and> pde_create 0xc0123004 = Inl Assert_failed"
proof -
  have "PHYS_BASE \<le> 0xc0123000 \<and> pg_ofs 0xc0123000 = 0" "pg_ofs 0xc0123004 \<noteq> 0"
    by (simp_all add: PHYS_BASE_def pg_ofs_take_bit)
  then show ?thesis
    using pte_pde_roundtrip [of "0xc0123000" False] pte_pde_roundtrip [of "0xc0123004" False]
    by (auto simp: PTE_P_def PTE_U_def)
qed

end
