(* ===== verification/Memory.thy ===== *)
theory Memory
  imports Vaddr
begin

text \<open>
  Byte-addressed kernel memory: little-endian 32-bit loads and stores, and \<^verbatim>\<open>memset\<close> and
  \<^verbatim>\<open>memcpy\<close> as \<^verbatim>\<open>lib/string.c\<close> implements them, byte by byte.
\<close>

type_synonym memory = "addr \<Rightarrow> u8"

definition load32 :: "memory \<Rightarrow> addr \<Rightarrow> u32" where
  "load32 m a = hd (words_of_bytes [m a, m (a + 1), m (a + 2), m (a + 3)])"

definition store32 :: "memory \<Rightarrow> addr \<Rightarrow> u32 \<Rightarrow> memory" where
  "store32 m a w =
     m(a := ucast w, a + 1 := ucast (drop_bit 8 w), a + 2 := ucast (drop_bit 16 w),
       a + 3 := ucast (drop_bit 24 w))"

text \<open>\<^verbatim>\<open>memset (dst, value, size)\<close>: the loop \<^verbatim>\<open>while (size-- > 0) *dst++ = value\<close>.\<close>

primrec memset :: "memory \<Rightarrow> addr \<Rightarrow> u8 \<Rightarrow> nat \<Rightarrow> memory" where
  "memset m dst val 0 = m"
| "memset m dst val (Suc n) = memset (m(dst := val)) (dst + 1) val n"

text \<open>\<^verbatim>\<open>memcpy (dst, src, size)\<close>: the loop \<^verbatim>\<open>while (size-- > 0) *dst++ = *src++\<close>.\<close>

primrec memcpy :: "memory \<Rightarrow> addr \<Rightarrow> addr \<Rightarrow> nat \<Rightarrow> memory" where
  "memcpy m dst src 0 = m"
| "memcpy m dst src (Suc n) = memcpy (m(dst := m src)) (dst + 1) (src + 1) n"

section \<open>Loads and stores\<close>

lemma word_plus_neq:
  fixes a :: u32
  shows "a + 1 \<noteq> a" "a + 2 \<noteq> a" "a + 3 \<noteq> a" "a + 2 \<noteq> a + 1" "a + 3 \<noteq> a + 1" "a + 3 \<noteq> a + 2"
  by simp_all

lemma load32_store32_same [simp]: "load32 (store32 m a w) a = w"
  using le_bytes_word [of w] word_plus_neq [of a]
  by (simp add: load32_def store32_def)

lemma unat_plus_byte:
  fixes a :: addr
  assumes "unat a mod 4 = 0" and "i < 4"
  shows "unat (a + of_nat i) = unat a + i"
proof -
  have "unat a \<le> 2 ^ 32 - 4"
    using assms(1) unat_less_size [of a] by (simp; presburger)
  then show ?thesis
    using assms(2) unat_plus_no_wrap [of a "of_nat i"] by (simp add: unat_of_nat)
qed

lemma aligned_bytes_apart:
  fixes a b :: addr
  assumes "unat a mod 4 = 0" and "unat b mod 4 = 0" and "a \<noteq> b" and "i < 4" and "j < 4"
  shows "a + of_nat i \<noteq> b + of_nat j"
proof
  assume "a + of_nat i = b + of_nat j"
  then have "unat a + i = unat b + j"
    using assms unat_plus_byte by metis
  then have "(unat a + i) div 4 = (unat b + j) div 4"
    by simp
  then have "unat a div 4 = unat b div 4"
    using assms(1,2,4,5) by (simp add: div_add1_eq)
  then have "unat a = unat b"
    using assms(1,2) by (metis div_mult_mod_eq)
  then show False
    using assms(3) by (simp add: word_unat_eq_iff)
qed

lemma load32_store32_other:
  assumes "unat a mod 4 = 0" and "unat b mod 4 = 0" and "a \<noteq> b"
  shows "load32 (store32 m a w) b = load32 m b"
proof -
  note n = aligned_bytes_apart [OF assms(2,1) assms(3) [symmetric]]
  have "b \<noteq> a" "b \<noteq> a + 1" "b \<noteq> a + 2" "b \<noteq> a + 3" "b + 1 \<noteq> a" "b + 1 \<noteq> a + 1" "b + 1 \<noteq> a + 2"
    "b + 1 \<noteq> a + 3" "b + 2 \<noteq> a" "b + 2 \<noteq> a + 1" "b + 2 \<noteq> a + 2" "b + 2 \<noteq> a + 3" "b + 3 \<noteq> a"
    "b + 3 \<noteq> a + 1" "b + 3 \<noteq> a + 2" "b + 3 \<noteq> a + 3"
    using n [of 0 0] n [of 0 1] n [of 0 2] n [of 0 3] n [of 1 0] n [of 1 1] n [of 1 2] n [of 1 3]
      n [of 2 0] n [of 2 1] n [of 2 2] n [of 2 3] n [of 3 0] n [of 3 1] n [of 3 2] n [of 3 3]
    by simp_all
  then show ?thesis
    by (simp add: load32_def store32_def)
qed

section \<open>\<^verbatim>\<open>memset\<close> and \<^verbatim>\<open>memcpy\<close>\<close>

lemma memset_other: "(\<And>i. i < n \<Longrightarrow> a \<noteq> dst + of_nat i) \<Longrightarrow> memset m dst v n a = m a"
proof (induction n arbitrary: m dst)
  case (Suc n)
  have "a \<noteq> dst"
    using Suc.prems [of 0] by simp
  moreover have "a \<noteq> dst + 1 + of_nat i" if "i < n" for i
    using Suc.prems [of "Suc i"] that by (simp add: ac_simps)
  ultimately show ?case
    using Suc.IH [of "dst + 1" "m(dst := v)"] by simp (simp add: fun_upd_def)
qed simp

lemma memset_in: "i < n \<Longrightarrow> n \<le> 2 ^ 32 \<Longrightarrow> memset m dst v n (dst + of_nat i) = v"
proof (induction n arbitrary: m dst i)
  case (Suc n)
  show ?case
  proof (cases i)
    case 0
    have "dst \<noteq> dst + 1 + of_nat j" if "j < n" for j
    proof -
      have "unat (of_nat (Suc j) :: u32) = Suc j"
        using that Suc.prems(2) by (simp add: unat_of_nat del: of_nat_Suc)
      then have "(of_nat (Suc j) :: u32) \<noteq> 0"
        by (metis unat_0 nat.distinct(1))
      then show ?thesis
        by (simp add: add.assoc)
    qed
    then have "memset (m(dst := v)) (dst + 1) v n dst = v"
      by (subst memset_other) simp_all
    then show ?thesis
      using 0 by simp
  next
    case (Suc k)
    then show ?thesis
      using Suc.IH [of k "m(dst := v)" "dst + 1"] Suc.prems
      by (simp add: ac_simps fun_upd_def)
  qed
qed simp

end
