(* ===== verification/Extents.thy ===== *)
theory Extents
  imports Prelude
begin

text \<open>
  The contract between a resource pool and the code that takes extents (runs of consecutive units)
  from it and gives them back. The pools of the kernel are the page pools of \<^verbatim>\<open>palloc.c\<close> and the
  free map of \<^verbatim>\<open>free-map.c\<close>, both built on \<^verbatim>\<open>bitmap.c\<close>. The contract is the locale
  \<open>extent_allocator\<close>; what a client may conclude from it is proved once, for any sequence of
  allocations and releases.
\<close>

section \<open>Clients\<close>

text \<open>A client holds a list of extents, each the request it was given for and its first unit; \<open>amount\<close> is the
  number of units a request asks for. \<open>Take q\<close> makes the request \<open>q\<close>; \<open>Give k\<close> returns the \<open>k\<close>-th extent
  the client holds.\<close>

datatype 'q request =
    Take 'q
  | Give nat

type_synonym 'q extent = "'q \<times> nat"

definition units :: "('q \<Rightarrow> nat) \<Rightarrow> 'q extent \<Rightarrow> nat set" where
  "units amount e = {snd e..<snd e + amount (fst e)}"

primrec serve ::
  "('q \<Rightarrow> nat) \<Rightarrow> ('s \<Rightarrow> 'q \<Rightarrow> ('s \<times> nat option) run) \<Rightarrow> ('s \<Rightarrow> nat \<Rightarrow> nat \<Rightarrow> 's run) \<Rightarrow>
     's \<Rightarrow> 'q extent list \<Rightarrow> 'q request list \<Rightarrow> ('s \<times> 'q extent list) run" where
  "serve amount alloc release s live [] = Some (Inr (s, live))"
| "serve amount alloc release s live (r # rs) =
     (case r of
        Take q \<Rightarrow>
          andThen (alloc s q) (\<lambda>(s, got).
            case got of
              None \<Rightarrow> serve amount alloc release s live rs
            | Some i \<Rightarrow> serve amount alloc release s (live @ [(q, i)]) rs)
      | Give k \<Rightarrow>
          if k < length live then
            andThen (release s (snd (live ! k)) (amount (fst (live ! k)))) (\<lambda>s.
              serve amount alloc release s (take k live @ drop (Suc k) live) rs)
          else serve amount alloc release s live rs)"

text \<open>The extents are pairwise disjoint, each at a place that \<open>fits\<close> its request, and apart from the units
  \<open>reserved\<close> that others hold; and the used units \<open>u\<close> are exactly the reserved ones and those of the extents.\<close>

definition partitioned :: "('q \<Rightarrow> nat) \<Rightarrow> ('q \<Rightarrow> nat \<Rightarrow> bool) \<Rightarrow> nat set \<Rightarrow> nat set \<Rightarrow> 'q extent list \<Rightarrow> bool" where
  "partitioned amount fits reserved u live \<longleftrightarrow>
     sorted_wrt (\<lambda>d e. units amount d \<inter> units amount e = {}) live
     \<and> (\<forall>e \<in> set live. fits (fst e) (snd e) \<and> units amount e \<inter> reserved = {})
     \<and> u = reserved \<union> (\<Union>e \<in> set live. units amount e)"

lemma partitioned_Nil [simp]: "partitioned amount fits reserved u [] \<longleftrightarrow> u = reserved"
  by (simp add: partitioned_def)

lemma partitioned_take:
  assumes "partitioned amount fits reserved u live" and "fits q i" and "units amount (q, i) \<inter> u = {}"
  shows "partitioned amount fits reserved (u \<union> units amount (q, i)) (live @ [(q, i)])"
proof -
  have "units amount d \<inter> units amount (q, i) = {}" if "d \<in> set live" for d
    using assms that unfolding partitioned_def by blast
  then show ?thesis
    using assms unfolding partitioned_def sorted_wrt_append by auto
qed

lemma partitioned_mid:
  assumes p: "partitioned amount fits reserved u (A @ e # B)"
  shows "partitioned amount fits reserved (u - units amount e) (A @ B)"
proof -
  have s: "sorted_wrt (\<lambda>d e. units amount d \<inter> units amount e = {}) (A @ e # B)"
    and u: "u = reserved \<union> (\<Union>e \<in> set (A @ B). units amount e) \<union> units amount e" and r: "units amount e \<inter> reserved = {}"
    and c: "\<forall>e \<in> set (A @ B). fits (fst e) (snd e) \<and> units amount e \<inter> reserved = {}"
    using p unfolding partitioned_def by auto
  have A: "\<forall>d \<in> set A. units amount d \<inter> units amount e = {}" and B: "\<forall>d \<in> set B. units amount d \<inter> units amount e = {}"
    using s unfolding sorted_wrt_append sorted_wrt.simps by (simp_all add: Int_commute)
  have "units amount d \<inter> units amount e = {}" if "d \<in> set (A @ B)" for d
    using that A B by (metis Un_iff set_append)
  then have "(\<Union>e \<in> set (A @ B). units amount e) \<inter> units amount e = {}"
    by blast
  then have "u - units amount e = reserved \<union> (\<Union>e \<in> set (A @ B). units amount e)"
    using u r by blast
  moreover have "sorted_wrt (\<lambda>d e. units amount d \<inter> units amount e = {}) (A @ B)"
    using s by (simp add: sorted_wrt_append)
  ultimately show ?thesis
    using c unfolding partitioned_def by simp
qed

lemma partitioned_give:
  assumes p: "partitioned amount fits reserved u live" and k: "k < length live"
  shows "units amount (live ! k) \<subseteq> u" and "fits (fst (live ! k)) (snd (live ! k))"
    and "partitioned amount fits reserved (u - units amount (live ! k)) (take k live @ drop (Suc k) live)"
proof -
  have "live ! k \<in> set live"
    using k by simp
  then show "units amount (live ! k) \<subseteq> u" and "fits (fst (live ! k)) (snd (live ! k))"
    using p unfolding partitioned_def by blast+
  show "partitioned amount fits reserved (u - units amount (live ! k)) (take k live @ drop (Suc k) live)"
    using p id_take_nth_drop [OF k] by (intro partitioned_mid) simp
qed

section \<open>The contract\<close>

text \<open>A request may ask for more than there is; it is then refused. \<open>fits s q i\<close> says that a run for the request \<open>q\<close> may start at the unit
  \<open>i\<close> of the pool; a request that is not empty and that some such run could satisfy must be served. \<open>allowed\<close> are the requests that may be
  refused (and not, for instance, end in a panic).\<close>

locale extent_allocator =
  fixes inv :: "'s \<Rightarrow> bool"
    and amount :: "'q \<Rightarrow> nat"
    and allowed :: "'q \<Rightarrow> bool"
    and fits :: "'s \<Rightarrow> 'q \<Rightarrow> nat \<Rightarrow> bool"
    and used :: "'s \<Rightarrow> nat set"
    and alloc :: "'s \<Rightarrow> 'q \<Rightarrow> ('s \<times> nat option) run"
    and release :: "'s \<Rightarrow> nat \<Rightarrow> nat \<Rightarrow> 's run"
  assumes alloc_law: "inv s \<Longrightarrow> allowed q \<Longrightarrow>
      \<exists>s' got. alloc s q = Some (Inr (s', got)) \<and> inv s' \<and> fits s' = fits s \<and>
        (case got of
           Some i \<Rightarrow> fits s q i \<and> {i..<i + amount q} \<inter> used s = {} \<and> used s' = used s \<union> {i..<i + amount q}
         | None \<Rightarrow> used s' = used s \<and> (0 < amount q \<longrightarrow> (\<forall>i. fits s q i \<longrightarrow> {i..<i + amount q} \<inter> used s \<noteq> {})))"
    and release_law: "inv s \<Longrightarrow> fits s q i \<Longrightarrow> {i..<i + amount q} \<subseteq> used s \<Longrightarrow>
      \<exists>s'. release s i (amount q) = Some (Inr s') \<and> inv s' \<and> fits s' = fits s \<and> used s' = used s - {i..<i + amount q}"
begin

lemma alloc_cases:
  assumes "inv s" and "allowed q"
  obtains (served) s' i where "alloc s q = Some (Inr (s', Some i))" and "inv s'" and "fits s' = fits s"
      and "fits s q i" and "units amount (q, i) \<inter> used s = {}" and "used s' = used s \<union> units amount (q, i)"
  | (refused) s' where "alloc s q = Some (Inr (s', None))" and "inv s'" and "fits s' = fits s" and "used s' = used s"
      and "0 < amount q \<Longrightarrow> \<not> (\<exists>i. fits s q i \<and> units amount (q, i) \<inter> used s = {})"
proof -
  obtain s' got where a: "alloc s q = Some (Inr (s', got))" "inv s'" "fits s' = fits s"
    "case got of
           Some i \<Rightarrow> fits s q i \<and> {i..<i + amount q} \<inter> used s = {} \<and> used s' = used s \<union> {i..<i + amount q}
         | None \<Rightarrow> used s' = used s \<and> (0 < amount q \<longrightarrow> (\<forall>i. fits s q i \<longrightarrow> {i..<i + amount q} \<inter> used s \<noteq> {}))"
    using alloc_law [OF assms] by blast
  then show thesis
    by (cases got) (use served refused in \<open>auto simp: units_def\<close>)
qed

text \<open>Whatever a client does, the pool serves it, the extents it holds never overlap, and the pool
  counts as used exactly what was in use before and what the client holds.\<close>

lemma serve_partitioned:
  assumes "inv s" and "partitioned amount (fits s) reserved (used s) live" and "\<forall>q. Take q \<in> set rs \<longrightarrow> allowed q"
  shows "\<exists>s' live'. serve amount alloc release s live rs = Some (Inr (s', live')) \<and> inv s'
           \<and> fits s' = fits s \<and> partitioned amount (fits s) reserved (used s') live'"
  using assms
proof (induction rs arbitrary: s live)
  case Nil
  then show ?case
    by simp
next
  case (Cons r rs)
  show ?case
  proof (cases r)
    case (Take q)
    then have "allowed q"
      using Cons.prems(3) by simp
    from Cons.prems(1) this show ?thesis
    proof (cases rule: alloc_cases)
      case (served s' i)
      then have "partitioned amount (fits s) reserved (used s') (live @ [(q, i)])"
        using partitioned_take [OF Cons.prems(2), of q i] by simp
      then show ?thesis
        using Cons.IH [of s' "live @ [(q, i)]"] served Cons.prems(3) Take by simp
    next
      case (refused s')
      then show ?thesis
        using Cons.IH [of s' live] Cons.prems Take by simp
    qed
  next
    case (Give k)
    show ?thesis
    proof (cases "k < length live")
      case True
      note give = partitioned_give [OF Cons.prems(2) True]
      obtain s' where "release s (snd (live ! k)) (amount (fst (live ! k))) = Some (Inr s')" "inv s'"
        "fits s' = fits s" "used s' = used s - units amount (live ! k)"
        using release_law [OF Cons.prems(1) give(2)] give(1) unfolding units_def by blast
      then show ?thesis
        using Cons.IH [of s' "take k live @ drop (Suc k) live"] give(3) Cons.prems(3) Give True by simp
    next
      case False
      then show ?thesis
        using Cons.IH [of s live] Cons.prems Give by simp
    qed
  qed
qed

text \<open>A request that fits is served.\<close>

lemma fitting_served:
  assumes "inv s" and "allowed q" and "0 < amount q" and "fits s q i" and "units amount (q, i) \<inter> used s = {}"
  shows "\<exists>s' j. alloc s q = Some (Inr (s', Some j))"
  using assms(1,2) by (cases rule: alloc_cases) (use assms(3-5) in blast)+

text \<open>A released extent can be taken again.\<close>

lemma release_then_alloc:
  assumes "inv s" and "fits s q i" and "units amount (q, i) \<subseteq> used s" and "0 < amount q" and "allowed q"
  shows "\<exists>s' s'' j. release s i (amount q) = Some (Inr s') \<and> alloc s' q = Some (Inr (s'', Some j))"
proof -
  obtain s' where r: "release s i (amount q) = Some (Inr s')" "inv s'" "fits s' = fits s"
    "used s' = used s - units amount (q, i)"
    using release_law [OF assms(1,2)] assms(3) by (auto simp: units_def)
  then show ?thesis
    using fitting_served [OF r(2) assms(5,4), of i] assms(2) by auto
qed

end

end
