(* ===== verification/Kernel_Bitmap.thy ===== *)
theory Kernel_Bitmap
  imports Extents
begin

text \<open>
  The bitmaps of \<^verbatim>\<open>lib/kernel/bitmap.c\<close>: a bit count and an array of 32-bit elements. The
  pointer arguments are the structures they point to, so \<^verbatim>\<open>ASSERT (b != NULL)\<close> holds by the
  type; an access beyond the element array is \<open>Out_of_bounds\<close>. \<open>bview\<close> reads a bitmap as the list
  of its bits, and the lemmas show what each operation does to that list.
\<close>

section \<open>The structure and its bit arithmetic\<close>

record bitmap =
  bit_cnt :: u32
  bits :: "u32 list"

definition ELEM_BITS :: u32 where
  "ELEM_BITS = 32"

definition BITMAP_ERROR :: u32 where
  "BITMAP_ERROR = -1"

definition elem_idx :: "u32 \<Rightarrow> u32" where
  "elem_idx bit_idx = bit_idx div ELEM_BITS"

definition bit_mask :: "u32 \<Rightarrow> u32" where
  "bit_mask bit_idx = push_bit (unat (bit_idx mod ELEM_BITS)) 1"

definition elem_cnt :: "u32 \<Rightarrow> u32" where
  "elem_cnt n = DIV_ROUND_UP n ELEM_BITS"

definition byte_cnt :: "u32 \<Rightarrow> u32" where
  "byte_cnt n = 4 * elem_cnt n"

definition last_mask :: "bitmap \<Rightarrow> u32" where
  "last_mask b =
     (let last_bits = unat (bit_cnt b mod ELEM_BITS)
      in if last_bits \<noteq> 0 then push_bit last_bits 1 - 1 else -1)"

section \<open>Single bits\<close>

text \<open>\<^verbatim>\<open>b->bits[idx] = f (b->bits[idx])\<close>, the effect of each inline assembly statement.\<close>

definition upd_elem :: "bitmap \<Rightarrow> u32 \<Rightarrow> (u32 \<Rightarrow> u32) \<Rightarrow> bitmap res" where
  "upd_elem b idx f =
     (if unat idx < length (bits b)
      then Inr (b\<lparr>bits := (bits b)[unat idx := f (bits b ! unat idx)]\<rparr>)
      else Inl Out_of_bounds)"

definition bitmap_mark :: "bitmap \<Rightarrow> u32 \<Rightarrow> bitmap res" where
  "bitmap_mark b bit_idx = upd_elem b (elem_idx bit_idx) (\<lambda>e. e OR bit_mask bit_idx)"

definition bitmap_reset :: "bitmap \<Rightarrow> u32 \<Rightarrow> bitmap res" where
  "bitmap_reset b bit_idx = upd_elem b (elem_idx bit_idx) (\<lambda>e. e AND NOT (bit_mask bit_idx))"

definition bitmap_flip :: "bitmap \<Rightarrow> u32 \<Rightarrow> bitmap res" where
  "bitmap_flip b bit_idx = upd_elem b (elem_idx bit_idx) (\<lambda>e. e XOR bit_mask bit_idx)"

definition bitmap_set :: "bitmap \<Rightarrow> u32 \<Rightarrow> bool \<Rightarrow> bitmap res" where
  "bitmap_set b idx val =
     ASSERT (idx < bit_cnt b) (if val then bitmap_mark b idx else bitmap_reset b idx)"

definition bitmap_test :: "bitmap \<Rightarrow> u32 \<Rightarrow> bool res" where
  "bitmap_test b idx =
     ASSERT (idx < bit_cnt b)
       (if unat (elem_idx idx) < length (bits b)
        then Inr (bits b ! unat (elem_idx idx) AND bit_mask idx \<noteq> 0)
        else Inl Out_of_bounds)"

definition bitmap_size :: "bitmap \<Rightarrow> u32" where
  "bitmap_size b = bit_cnt b"

section \<open>Ranges of bits\<close>

text \<open>\<^verbatim>\<open>start + cnt\<close> and \<^verbatim>\<open>start + i\<close> are sums of type \<^verbatim>\<open>size_t\<close> and wrap around.\<close>

function set_multiple_loop :: "bitmap \<Rightarrow> u32 \<Rightarrow> u32 \<Rightarrow> bool \<Rightarrow> u32 \<Rightarrow> bitmap res" where
  "set_multiple_loop b start cnt val i =
     (if i < cnt
      then bnd (bitmap_set b (start + i) val) (\<lambda>b. set_multiple_loop b start cnt val (i + 1))
      else Inr b)"
  by pat_completeness auto
termination by (relation "measure (\<lambda>(b, start, cnt, val, i). unat cnt - unat i)") auto

declare set_multiple_loop.simps [simp del]

definition bitmap_set_multiple :: "bitmap \<Rightarrow> u32 \<Rightarrow> u32 \<Rightarrow> bool \<Rightarrow> bitmap res" where
  "bitmap_set_multiple b start cnt val =
     ASSERT (start \<le> bit_cnt b) (ASSERT (start + cnt \<le> bit_cnt b)
       (set_multiple_loop b start cnt val 0))"

definition bitmap_set_all :: "bitmap \<Rightarrow> bool \<Rightarrow> bitmap res" where
  "bitmap_set_all b val = bitmap_set_multiple b 0 (bitmap_size b) val"

function count_loop :: "bitmap \<Rightarrow> u32 \<Rightarrow> u32 \<Rightarrow> bool \<Rightarrow> u32 \<Rightarrow> u32 \<Rightarrow> u32 res" where
  "count_loop b start cnt val value_cnt i =
     (if i < cnt
      then bnd (bitmap_test b (start + i)) (\<lambda>t.
             count_loop b start cnt val (if t = val then value_cnt + 1 else value_cnt) (i + 1))
      else Inr value_cnt)"
  by pat_completeness auto
termination by (relation "measure (\<lambda>(b, start, cnt, val, value_cnt, i). unat cnt - unat i)") auto

declare count_loop.simps [simp del]

definition bitmap_count :: "bitmap \<Rightarrow> u32 \<Rightarrow> u32 \<Rightarrow> bool \<Rightarrow> u32 res" where
  "bitmap_count b start cnt val =
     ASSERT (start \<le> bit_cnt b) (ASSERT (start + cnt \<le> bit_cnt b)
       (count_loop b start cnt val 0 0))"

function contains_loop :: "bitmap \<Rightarrow> u32 \<Rightarrow> u32 \<Rightarrow> bool \<Rightarrow> u32 \<Rightarrow> bool res" where
  "contains_loop b start cnt val i =
     (if i < cnt
      then bnd (bitmap_test b (start + i)) (\<lambda>t.
             if t = val then Inr True else contains_loop b start cnt val (i + 1))
      else Inr False)"
  by pat_completeness auto
termination by (relation "measure (\<lambda>(b, start, cnt, val, i). unat cnt - unat i)") auto

declare contains_loop.simps [simp del]

definition bitmap_contains :: "bitmap \<Rightarrow> u32 \<Rightarrow> u32 \<Rightarrow> bool \<Rightarrow> bool res" where
  "bitmap_contains b start cnt val =
     ASSERT (start \<le> bit_cnt b) (ASSERT (start + cnt \<le> bit_cnt b)
       (contains_loop b start cnt val 0))"

definition bitmap_any :: "bitmap \<Rightarrow> u32 \<Rightarrow> u32 \<Rightarrow> bool res" where
  "bitmap_any b start cnt = bitmap_contains b start cnt True"

definition bitmap_none :: "bitmap \<Rightarrow> u32 \<Rightarrow> u32 \<Rightarrow> bool res" where
  "bitmap_none b start cnt = bnd (bitmap_contains b start cnt True) (\<lambda>c. Inr (\<not> c))"

definition bitmap_all :: "bitmap \<Rightarrow> u32 \<Rightarrow> u32 \<Rightarrow> bool res" where
  "bitmap_all b start cnt = bnd (bitmap_contains b start cnt False) (\<lambda>c. Inr (\<not> c))"

section \<open>Searching\<close>

text \<open>The loop bound of \<^verbatim>\<open>bitmap_scan\<close> is inclusive: with \<^verbatim>\<open>last\<close> the largest
  \<^verbatim>\<open>size_t\<close> the counter would wrap around and the loop would start again, so the loop is a
  partial function.\<close>

partial_function (option) scan_loop :: "bitmap \<Rightarrow> u32 \<Rightarrow> bool \<Rightarrow> u32 \<Rightarrow> u32 \<Rightarrow> u32 run" where
  "scan_loop b cnt val lst i =
     (if i \<le> lst
      then andThen (Some (bitmap_contains b i cnt (\<not> val))) (\<lambda>c.
             if \<not> c then Some (Inr i) else scan_loop b cnt val lst (i + 1))
      else Some (Inr BITMAP_ERROR))"

definition bitmap_scan :: "bitmap \<Rightarrow> u32 \<Rightarrow> u32 \<Rightarrow> bool \<Rightarrow> u32 run" where
  "bitmap_scan b start cnt val =
     check (start \<le> bit_cnt b)
       (if cnt \<le> bit_cnt b then scan_loop b cnt val (bit_cnt b - cnt) start
        else Some (Inr BITMAP_ERROR))"

definition bitmap_scan_and_flip :: "bitmap \<Rightarrow> u32 \<Rightarrow> u32 \<Rightarrow> bool \<Rightarrow> (bitmap \<times> u32) run" where
  "bitmap_scan_and_flip b start cnt val =
     andThen (bitmap_scan b start cnt val) (\<lambda>idx.
       if idx \<noteq> BITMAP_ERROR
       then andThen (Some (bitmap_set_multiple b idx cnt (\<not> val))) (\<lambda>b. Some (Inr (b, idx)))
       else Some (Inr (b, idx)))"

section \<open>Creation\<close>

text \<open>\<open>hdr_ok\<close> says whether the \<^verbatim>\<open>malloc\<close> of the structure succeeds; \<open>mem n\<close> is the result of
  \<^verbatim>\<open>malloc (n)\<close> for the elements, the words of the block when it succeeds.\<close>

definition bitmap_create :: "bool \<Rightarrow> (u32 \<Rightarrow> u32 list option) \<Rightarrow> u32 \<Rightarrow> bitmap option res" where
  "bitmap_create hdr_ok mem n =
     (if hdr_ok then
        case mem (byte_cnt n) of
          Some ws \<Rightarrow> bnd (bitmap_set_all \<lparr>bit_cnt = n, bits = ws\<rparr> False) (\<lambda>b. Inr (Some b))
        | None \<Rightarrow>
            if n = 0 then bnd (bitmap_set_all \<lparr>bit_cnt = n, bits = []\<rparr> False) (\<lambda>b. Inr (Some b))
            else Inr None
      else Inr None)"

definition bitmap_buf_size :: "u32 \<Rightarrow> u32" where
  "bitmap_buf_size n = 8 + byte_cnt n"

text \<open>\<^verbatim>\<open>b + 1\<close> skips the two words of the structure at the start of the block.\<close>

definition bitmap_create_in_buf :: "u32 \<Rightarrow> u32 list \<Rightarrow> u32 \<Rightarrow> bitmap res" where
  "bitmap_create_in_buf n block block_size =
     ASSERT (bitmap_buf_size n \<le> block_size)
       (bitmap_set_all \<lparr>bit_cnt = n, bits = take (unat (elem_cnt n)) (drop 2 block)\<rparr> False)"

definition bitmap_file_size :: "bitmap \<Rightarrow> u32" where
  "bitmap_file_size b = byte_cnt (bit_cnt b)"

section \<open>A bitmap as a list of bits\<close>

definition bview :: "bitmap \<Rightarrow> bool list" where
  "bview b = map (\<lambda>i. bit (bits b ! (i div 32)) (i mod 32)) [0..<unat (bit_cnt b)]"

text \<open>The element array has exactly the elements \<^verbatim>\<open>elem_cnt\<close> asks for, and the rounding in
  \<^verbatim>\<open>elem_cnt\<close> did not wrap around.\<close>

definition bitmap_ok :: "bitmap \<Rightarrow> bool" where
  "bitmap_ok b \<longleftrightarrow> length (bits b) = unat (elem_cnt (bit_cnt b)) \<and> unat (bit_cnt b) \<le> 2 ^ 32 - 32"

lemma length_bview [simp]: "length (bview b) = unat (bit_cnt b)"
  by (simp add: bview_def)

lemma nth_bview: "i < unat (bit_cnt b) \<Longrightarrow> bview b ! i = bit (bits b ! (i div 32)) (i mod 32)"
  by (simp add: bview_def)

lemma unat_elem_cnt: "unat n \<le> 2 ^ 32 - 32 \<Longrightarrow> unat (elem_cnt n) = (unat n + 31) div 32"
  by (simp add: elem_cnt_def ELEM_BITS_def unat_DIV_ROUND_UP)

lemma unat_elem_idx [simp]: "unat (elem_idx i) = unat i div 32"
  by (simp add: elem_idx_def ELEM_BITS_def unat_div)

lemma elem_idx_in_range:
  assumes "bitmap_ok b" and "i < bit_cnt b"
  shows "unat i div 32 < length (bits b)"
proof -
  have "unat i < unat (bit_cnt b)"
    using assms(2) by (simp add: word_less_nat_alt)
  then show ?thesis
    using assms(1) by (simp add: bitmap_ok_def unat_elem_cnt)
qed

lemma bit_bit_mask: "bit (bit_mask i) n \<longleftrightarrow> n = unat i mod 32"
proof -
  have "unat i mod 32 < 32"
    by simp
  then show ?thesis
    by (auto simp: bit_mask_def ELEM_BITS_def unat_mod bit_exp_iff)
qed

lemma and_bit_mask: "e AND bit_mask i \<noteq> 0 \<longleftrightarrow> bit e (unat i mod 32)"
proof
  assume "e AND bit_mask i \<noteq> 0"
  then obtain n where "bit (e AND bit_mask i) n"
    using bit_eqI [of "e AND bit_mask i" 0] by auto
  then show "bit e (unat i mod 32)"
    by (auto simp: bit_and_iff bit_bit_mask)
next
  assume "bit e (unat i mod 32)"
  then have "bit (e AND bit_mask i) (unat i mod 32)"
    by (simp add: bit_and_iff bit_bit_mask)
  then show "e AND bit_mask i \<noteq> 0"
    by (metis bit_0_eq bot_apply bot_bool_def)
qed

text \<open>\<open>yields r b xs\<close>: the operation returned, kept the structure of \<open>b\<close>, and the bits are now \<open>xs\<close>.\<close>

definition yields :: "bitmap res \<Rightarrow> bitmap \<Rightarrow> bool list \<Rightarrow> bool" where
  "yields r b xs \<longleftrightarrow> (\<exists>b'. r = Inr b' \<and> bitmap_ok b' \<and> bit_cnt b' = bit_cnt b \<and> bview b' = xs)"

lemma yieldsE:
  assumes "yields r b xs"
  obtains b' where "r = Inr b'" and "bitmap_ok b'" and "bit_cnt b' = bit_cnt b" and "bview b' = xs"
  using assms by (auto simp: yields_def)

lemma yields_trans:
  assumes "yields r b xs" 
    and "\<And>b'. r = Inr b' \<Longrightarrow> bitmap_ok b' \<Longrightarrow> bit_cnt b' = bit_cnt b \<Longrightarrow> bview b' = xs \<Longrightarrow> yields (f b') b' ys"
  shows "yields (bnd r f) b ys"
  using assms by (fastforce simp: yields_def)

lemma yields_refl: "bitmap_ok b \<Longrightarrow> yields (Inr b) b (bview b)"
  by (simp add: yields_def)

lemma upd_elem_view:
  assumes ok: "bitmap_ok b" and i: "i < bit_cnt b"
    and f: "\<And>e n. n < 32 \<Longrightarrow> bit (f e) n = (if n = unat i mod 32 then g (bit e n) else bit e n)"
  shows "yields (upd_elem b (elem_idx i) f) b ((bview b)[unat i := g (bview b ! unat i)])"
proof -
  let ?b = "b\<lparr>bits := (bits b)[unat i div 32 := f (bits b ! (unat i div 32))]\<rparr>"
  note rng = elem_idx_in_range [OF ok i]
  have "bview ?b = (bview b)[unat i := g (bview b ! unat i)]"
  proof (rule nth_equalityI)
    fix k assume k: "k < length (bview ?b)"
    have ki: "k div 32 = unat i div 32 \<Longrightarrow> k mod 32 = unat i mod 32 \<Longrightarrow> k = unat i"
      by (metis div_mult_mod_eq)
    have view: "bview ?b ! k =
        bit (if k div 32 = unat i div 32 then f (bits b ! (k div 32)) else bits b ! (k div 32)) (k mod 32)"
      using k rng by (auto simp: nth_bview nth_list_update)
    show "bview ?b ! k = (bview b)[unat i := g (bview b ! unat i)] ! k"
    proof (cases "k = unat i")
      case True
      then show ?thesis
        using view k f by (simp add: nth_bview)
    next
      case False
      then show ?thesis
        using view k f ki by (auto simp: nth_bview)
    qed
  qed simp
  then show ?thesis
    using rng ok by (simp add: yields_def upd_elem_def bitmap_ok_def)
qed

lemma bitmap_mark_view:
  "bitmap_ok b \<Longrightarrow> i < bit_cnt b \<Longrightarrow> yields (bitmap_mark b i) b ((bview b)[unat i := True])"
  unfolding bitmap_mark_def
  by (rule upd_elem_view [where g = "\<lambda>_. True"]) (auto simp: bit_or_iff bit_bit_mask)

lemma bitmap_reset_view:
  "bitmap_ok b \<Longrightarrow> i < bit_cnt b \<Longrightarrow> yields (bitmap_reset b i) b ((bview b)[unat i := False])"
  unfolding bitmap_reset_def
  by (rule upd_elem_view [where g = "\<lambda>_. False"])
    (auto simp: bit_and_iff bit_not_iff bit_bit_mask)

lemma bitmap_flip_view:
  "bitmap_ok b \<Longrightarrow> i < bit_cnt b \<Longrightarrow>
     yields (bitmap_flip b i) b ((bview b)[unat i := \<not> bview b ! unat i])"
  unfolding bitmap_flip_def
  by (rule upd_elem_view [where g = Not]) (auto simp: bit_xor_iff bit_bit_mask)

lemma bitmap_set_view:
  "bitmap_ok b \<Longrightarrow> i < bit_cnt b \<Longrightarrow> yields (bitmap_set b i v) b ((bview b)[unat i := v])"
  by (cases v) (simp_all add: bitmap_set_def bitmap_mark_view bitmap_reset_view)

lemma bitmap_test_view:
  "bitmap_ok b \<Longrightarrow> i < bit_cnt b \<Longrightarrow> bitmap_test b i = Inr (bview b ! unat i)"
  using elem_idx_in_range [of b i]
  by (simp add: bitmap_test_def and_bit_mask nth_bview word_less_nat_alt)

section \<open>Ranges\<close>

definition set_range :: "'a list \<Rightarrow> nat \<Rightarrow> nat \<Rightarrow> 'a \<Rightarrow> 'a list" where
  "set_range xs l u v = map (\<lambda>k. if l \<le> k \<and> k < u then v else xs ! k) [0..<length xs]"

lemma length_set_range [simp]: "length (set_range xs l u v) = length xs"
  by (simp add: set_range_def)

lemma nth_set_range [simp]:
  "k < length xs \<Longrightarrow> set_range xs l u v ! k = (if l \<le> k \<and> k < u then v else xs ! k)"
  by (simp add: set_range_def)

lemma set_range_empty [simp]: "u \<le> l \<Longrightarrow> set_range xs l u v = xs"
  by (rule nth_equalityI) auto

lemma set_range_step:
  "l < u \<Longrightarrow> l < length xs \<Longrightarrow> set_range (xs[l := v]) (Suc l) u v = set_range xs l u v"
  by (rule nth_equalityI) (auto simp: nth_list_update)

text \<open>Facts about a position \<open>start + i\<close> inside a range that does not wrap around.\<close>

lemma range_pos:
  fixes start cnt i :: u32
  assumes "unat start + unat cnt \<le> unat n" and "i < cnt"
  shows "unat (start + i) = unat start + unat i" and "start + i < n"
proof -
  have "unat start + unat i < unat n"
    using assms by (simp add: word_less_nat_alt)
  then show u: "unat (start + i) = unat start + unat i"
    using unat_less_size [of n] by (intro unat_plus_no_wrap) simp
  then show "start + i < n"
    using \<open>unat start + unat i < unat n\<close> by (simp add: word_less_nat_alt)
qed

lemma range_asserts:
  fixes start cnt :: u32
  assumes "unat start + unat cnt \<le> unat n"
  shows "start \<le> n" and "start + cnt \<le> n"
proof -
  show "start \<le> n"
    using assms by (simp add: word_le_nat_alt)
  have "unat (start + cnt) = unat start + unat cnt"
    using assms unat_less_size [of n] by (intro unat_plus_no_wrap) simp
  then show "start + cnt \<le> n"
    using assms by (simp add: word_le_nat_alt)
qed

lemma set_multiple_loop_view:
  assumes "bitmap_ok b" and "unat start + unat cnt \<le> unat (bit_cnt b)" and "i \<le> cnt"
  shows "yields (set_multiple_loop b start cnt v i) b
           (set_range (bview b) (unat start + unat i) (unat start + unat cnt) v)"
  using assms
proof (induction b start cnt v i rule: set_multiple_loop.induct)
  case (1 b start cnt v i)
  show ?case
  proof (cases "i < cnt")
    case True
    note pos = range_pos [OF "1.prems"(2) True]
    have "yields (bnd (bitmap_set b (start + i) v) (\<lambda>b. set_multiple_loop b start cnt v (i + 1))) b
           (set_range (bview b) (unat start + unat i) (unat start + unat cnt) v)"
    proof (rule yields_trans [OF bitmap_set_view [OF "1.prems"(1) pos(2)]])
      fix b' assume b': "bitmap_set b (start + i) v = Inr b'" "bitmap_ok b'" "bit_cnt b' = bit_cnt b"
        "bview b' = (bview b)[unat (start + i) := v]"
      show "yields (set_multiple_loop b' start cnt v (i + 1)) b'
          (set_range (bview b) (unat start + unat i) (unat start + unat cnt) v)"
        using "1.IH" [OF True, of b'] b' "1.prems" pos True
        by (simp add: plus_1_le_iff unat_plus_1 [OF True] set_range_step word_less_nat_alt)
    qed
    then show ?thesis
      using True by (simp add: set_multiple_loop.simps)
  next
    case False
    then show ?thesis
      using "1.prems" by (simp add: set_multiple_loop.simps yields_refl)
  qed
qed

lemma bitmap_set_multiple_view:
  assumes "bitmap_ok b" and "unat start + unat cnt \<le> unat (bit_cnt b)"
  shows "yields (bitmap_set_multiple b start cnt v) b
           (set_range (bview b) (unat start) (unat start + unat cnt) v)"
  using set_multiple_loop_view [OF assms, of 0 v] range_asserts [OF assms(2)]
  by (simp add: bitmap_set_multiple_def)

lemma bitmap_set_all_view:
  assumes "bitmap_ok b"
  shows "yields (bitmap_set_all b v) b (replicate (unat (bit_cnt b)) v)"
proof -
  have "set_range (bview b) 0 (unat (bit_cnt b)) v = replicate (unat (bit_cnt b)) v"
    by (rule nth_equalityI) auto
  then show ?thesis
    using bitmap_set_multiple_view [OF assms, of 0 "bit_cnt b" v]
    by (simp add: bitmap_set_all_def bitmap_size_def)
qed

lemma contains_loop_view:
  assumes "bitmap_ok b" and "unat start + unat cnt \<le> unat (bit_cnt b)" and "i \<le> cnt"
  shows "contains_loop b start cnt v i
           = Inr (\<exists>k \<in> {unat start + unat i..<unat start + unat cnt}. bview b ! k = v)"
  using assms
proof (induction b start cnt v i rule: contains_loop.induct)
  case (1 b start cnt v i)
  show ?case
  proof (cases "i < cnt")
    case True
    note pos = range_pos [OF "1.prems"(2) True]
    have t: "bitmap_test b (start + i) = Inr (bview b ! (unat start + unat i))"
      using bitmap_test_view [OF "1.prems"(1) pos(2)] pos(1) by simp
    have split: "{unat start + unat i..<unat start + unat cnt}
        = insert (unat start + unat i) {unat start + unat (i + 1)..<unat start + unat cnt}"
      using True by (auto simp: unat_plus_1 [OF True] word_less_nat_alt)
    show ?thesis
    proof (cases "bview b ! (unat start + unat i) = v")
      case hit: True
      then show ?thesis
        using True t by (simp add: contains_loop.simps [of b start cnt v i] split)
    next
      case False
      then show ?thesis
        using "1.IH" [OF True t] "1.prems" True t
        by (simp add: contains_loop.simps [of b start cnt v i] split plus_1_le_iff)
    qed
  next
    case False
    then show ?thesis
      using "1.prems" by (simp add: contains_loop.simps)
  qed
qed

lemma bitmap_contains_view:
  assumes "bitmap_ok b" and "unat start + unat cnt \<le> unat (bit_cnt b)"
  shows "bitmap_contains b start cnt v
           = Inr (\<exists>k \<in> {unat start..<unat start + unat cnt}. bview b ! k = v)"
  using contains_loop_view [OF assms, of 0 v] range_asserts [OF assms(2)]
  by (simp add: bitmap_contains_def)

lemma count_loop_view:
  assumes "bitmap_ok b" and "unat start + unat cnt \<le> unat (bit_cnt b)" and "i \<le> cnt"
  shows "count_loop b start cnt v acc i
           = Inr (acc + of_nat (length (filter (\<lambda>k. bview b ! k = v)
                                  [unat start + unat i..<unat start + unat cnt])))"
  using assms
proof (induction b start cnt v acc i rule: count_loop.induct)
  case (1 b start cnt v acc i)
  show ?case
  proof (cases "i < cnt")
    case True
    note pos = range_pos [OF "1.prems"(2) True]
    have t: "bitmap_test b (start + i) = Inr (bview b ! (unat start + unat i))"
      using bitmap_test_view [OF "1.prems"(1) pos(2)] pos(1) by simp
    have split: "[unat start + unat i..<unat start + unat cnt]
        = (unat start + unat i) # [unat start + unat (i + 1)..<unat start + unat cnt]"
      using True by (simp add: unat_plus_1 [OF True] word_less_nat_alt upt_conv_Cons)
    show ?thesis
      using "1.IH" [OF True t] "1.prems" True t
      by (simp add: count_loop.simps [of b start cnt v acc i] split plus_1_le_iff)
  next
    case False
    then show ?thesis
      using "1.prems" by (simp add: count_loop.simps)
  qed
qed

lemma bitmap_count_view:
  assumes "bitmap_ok b" and "unat start + unat cnt \<le> unat (bit_cnt b)"
  shows "bitmap_count b start cnt v
           = Inr (of_nat (count_list (take (unat cnt) (drop (unat start) (bview b))) v))"
proof -
  have "take (unat cnt) (drop (unat start) (bview b)) = map ((!) (bview b)) [unat start..<unat start + unat cnt]"
    using assms(2) by (intro nth_equalityI) auto
  then show ?thesis
    using count_loop_view [OF assms, of 0 v 0] range_asserts [OF assms(2)]
    by (simp add: bitmap_count_def count_list_eq_length_filter filter_map comp_def)
      (metis (mono_tags, lifting))
qed

section \<open>Searching\<close>

text \<open>The reference definition of a search: the first position at or after \<open>start\<close> where \<open>cnt\<close>
  consecutive entries are \<open>v\<close>.\<close>

definition group_at :: "bool list \<Rightarrow> nat \<Rightarrow> bool \<Rightarrow> nat \<Rightarrow> bool" where
  "group_at xs cnt v i \<longleftrightarrow> i + cnt \<le> length xs \<and> (\<forall>k \<in> {i..<i + cnt}. xs ! k = v)"

definition find_group :: "bool list \<Rightarrow> nat \<Rightarrow> nat \<Rightarrow> bool \<Rightarrow> nat option" where
  "find_group xs start cnt v = find (group_at xs cnt v) [start..<Suc (length xs)]"

definition idx_word :: "nat option \<Rightarrow> u32" where
  "idx_word r = (case r of None \<Rightarrow> BITMAP_ERROR | Some i \<Rightarrow> of_nat i)"

lemma find_group_Some:
  "find_group xs start cnt v = Some i \<Longrightarrow>
     start \<le> i \<and> group_at xs cnt v i \<and> (\<forall>j. start \<le> j \<and> j < i \<longrightarrow> \<not> group_at xs cnt v j)"
proof -
  assume "find_group xs start cnt v = Some i"
  then obtain k where k: "i = start + k" "group_at xs cnt v (start + k)"
    "\<forall>j<k. \<not> group_at xs cnt v (start + j)"
    by (auto simp: find_group_def find_Some_iff simp del: upt_Suc)
  have "\<not> group_at xs cnt v j" if "start \<le> j" "j < i" for j
    using k(3) [rule_format, of "j - start"] that k(1) by simp
  then show ?thesis
    using k by simp
qed

lemma find_group_None:
  "find_group xs start cnt v = None \<longleftrightarrow> (\<forall>j \<ge> start. \<not> group_at xs cnt v j)"
  by (auto simp: find_group_def find_None_iff group_at_def)

lemma find_group_step:
  "start \<le> length xs \<Longrightarrow> find_group xs start cnt v =
     (if group_at xs cnt v start then Some start else find_group xs (Suc start) cnt v)"
  by (simp add: find_group_def upt_conv_Cons del: upt_Suc)

lemma find_group_end: "length xs < start + cnt \<Longrightarrow> find_group xs start cnt v = None"
  by (simp add: find_group_None group_at_def)

lemma scan_loop_view:
  assumes ok: "bitmap_ok b" and cnt: "cnt \<le> bit_cnt b"
  shows "i \<le> bit_cnt b \<Longrightarrow> scan_loop b cnt v (bit_cnt b - cnt) i
           = Some (Inr (idx_word (find_group (bview b) (unat i) (unat cnt) v)))"
proof (induction "unat (bit_cnt b) - unat i" arbitrary: i rule: less_induct)
  case less
  have le: "unat (bit_cnt b - cnt) = unat (bit_cnt b) - unat cnt"
    using cnt by (rule unat_sub)
  have cnt': "unat cnt \<le> unat (bit_cnt b)"
    using cnt by (simp add: word_le_nat_alt)
  show ?case
  proof (cases "i \<le> bit_cnt b - cnt")
    case True
    then have rng: "unat i + unat cnt \<le> unat (bit_cnt b)"
      using le cnt' by (simp add: word_le_nat_alt)
    have c: "bitmap_contains b i cnt (\<not> v) = Inr (\<not> group_at (bview b) (unat cnt) v (unat i))"
      using bitmap_contains_view [OF ok rng, of "\<not> v"] rng by (auto simp: group_at_def)
    show ?thesis
    proof (cases "group_at (bview b) (unat cnt) v (unat i)")
      case hit: True
      then show ?thesis
        using True c rng
        by (subst scan_loop.simps) (simp add: find_group_step idx_word_def)
    next
      case False
      then have "cnt \<noteq> 0"
        using rng by (auto simp: group_at_def)
      then have i: "i < bit_cnt b"
        using rng by (simp add: word_less_nat_alt unat_gt_0 [symmetric] del: unat_gt_0)
      then have "scan_loop b cnt v (bit_cnt b - cnt) (i + 1)
          = Some (Inr (idx_word (find_group (bview b) (unat (i + 1)) (unat cnt) v)))"
        by (intro less.hyps loop_measure plus_1_le_iff)
      then show ?thesis
        using True c False rng i
        by (subst scan_loop.simps) (simp add: find_group_step unat_plus_1 [OF i])
    qed
  next
    case False
    then have "unat (bit_cnt b) < unat i + unat cnt"
      using le cnt' by (simp add: word_le_nat_alt)
    then show ?thesis
      using False by (subst scan_loop.simps) (simp add: find_group_end idx_word_def)
  qed
qed

lemma bitmap_scan_view:
  assumes ok: "bitmap_ok b" and start: "start \<le> bit_cnt b"
  shows "bitmap_scan b start cnt v
           = Some (Inr (idx_word (find_group (bview b) (unat start) (unat cnt) v)))"
proof (cases "cnt \<le> bit_cnt b")
  case True
  then show ?thesis
    using scan_loop_view [OF ok True start] start by (simp add: bitmap_scan_def)
next
  case False
  then show ?thesis
    using start find_group_end [of "bview b" "unat start" "unat cnt" v]
    by (simp add: bitmap_scan_def idx_word_def word_le_nat_alt)
qed

lemma unat_BITMAP_ERROR: "unat BITMAP_ERROR = 2 ^ 32 - 1"
  by (simp add: BITMAP_ERROR_def unsigned_minus_1_eq_mask mask_eq_exp_minus_1)

lemma find_group_idx:
  assumes "bitmap_ok b" and "find_group (bview b) s n v = Some i"
  shows "unat (idx_word (Some i)) = i" and "idx_word (Some i) \<noteq> BITMAP_ERROR"
proof -
  have "i < 2 ^ 32 - 1"
    using find_group_Some [OF assms(2)] assms(1) by (simp add: group_at_def bitmap_ok_def)
  then show u: "unat (idx_word (Some i)) = i"
    by (simp add: idx_word_def unat_of_nat)
  show "idx_word (Some i) \<noteq> BITMAP_ERROR"
  proof
    assume "idx_word (Some i) = BITMAP_ERROR"
    then have "unat BITMAP_ERROR = i"
      using u by simp
    then show False
      using \<open>i < 2 ^ 32 - 1\<close> by (simp add: unat_BITMAP_ERROR)
  qed
qed

lemma scan_and_flip_Some:
  assumes ok: "bitmap_ok b" and start: "start \<le> bit_cnt b"
    and f: "find_group (bview b) (unat start) (unat cnt) v = Some i"
  shows "\<exists>b'. bitmap_scan_and_flip b start cnt v = Some (Inr (b', of_nat i)) \<and> bitmap_ok b'
           \<and> bit_cnt b' = bit_cnt b \<and> bview b' = set_range (bview b) i (i + unat cnt) (\<not> v)"
proof -
  note idx = find_group_idx [OF ok f]
  have "unat (idx_word (Some i)) + unat cnt \<le> unat (bit_cnt b)"
    using idx find_group_Some [OF f] by (simp add: group_at_def)
  from bitmap_set_multiple_view [OF ok this, of "\<not> v"] show ?thesis
    using idx bitmap_scan_view [OF ok start, of cnt v] f
    by (auto simp: bitmap_scan_and_flip_def yields_def idx_word_def)
qed

lemma scan_and_flip_None:
  assumes "bitmap_ok b" and "start \<le> bit_cnt b"
    and "find_group (bview b) (unat start) (unat cnt) v = None"
  shows "bitmap_scan_and_flip b start cnt v = Some (Inr (b, BITMAP_ERROR))"
  using bitmap_scan_view [OF assms(1,2), of cnt v] assms(3)
  by (simp add: bitmap_scan_and_flip_def idx_word_def)

section \<open>Creation\<close>

text \<open>What \<^verbatim>\<open>malloc\<close> promises for the element array: a block of the requested size, and a null
  pointer for a request of no bytes.\<close>

definition mem_ok :: "(u32 \<Rightarrow> u32 list option) \<Rightarrow> bool" where
  "mem_ok mem \<longleftrightarrow> mem 0 = None \<and> (\<forall>n ws. mem n = Some ws \<longrightarrow> 4 * length ws = unat n)"

lemma unat_byte_cnt: "unat n \<le> 2 ^ 32 - 32 \<Longrightarrow> unat (byte_cnt n) = 4 * ((unat n + 31) div 32)"
proof -
  assume n: "unat n \<le> 2 ^ 32 - 32"
  then have "unat (4 :: u32) * unat (elem_cnt n) < 2 ^ LENGTH(32)"
    by (simp add: unat_elem_cnt)
  then show ?thesis
    using unat_mult_lem [of 4 "elem_cnt n"] n by (simp add: byte_cnt_def unat_elem_cnt)
qed

lemma byte_cnt_wrap:
  assumes "unat n > 2 ^ 32 - 32"
  shows "byte_cnt n = 0" and "elem_cnt n = 0"
proof -
  have n31: "n + 32 - 1 = n + 31"
    by simp
  have "unat (n + 31) = (unat n + 31) mod 2 ^ 32"
    using unat_word_ariths(1) [of n 31] by simp
  then have "unat (n + 31) < 32"
    using le_mod_geq [of "2 ^ 32" "unat n + 31"] assms unat_less_size [of n] by simp
  then have "unat (elem_cnt n) = 0"
    unfolding elem_cnt_def DIV_ROUND_UP_def ELEM_BITS_def n31 by (simp add: unat_div)
  then show "elem_cnt n = 0"
    by (simp add: unat_eq_zero)
  then show "byte_cnt n = 0"
    by (simp add: byte_cnt_def)
qed

lemma bitmap_create_ok:
  assumes mem: "mem_ok mem" and c: "bitmap_create hdr_ok mem n = Inr (Some b)"
  shows "bitmap_ok b \<and> bit_cnt b = n \<and> bview b = replicate (unat n) False"
proof (cases "mem (byte_cnt n)")
  case None
  then have "n = 0" "bitmap_set_all \<lparr>bit_cnt = 0, bits = []\<rparr> False = Inr b"
    using c by (auto simp: bitmap_create_def res_simps split: if_splits)
  moreover have "bitmap_ok \<lparr>bit_cnt = 0, bits = []\<rparr>"
    by (simp add: bitmap_ok_def unat_elem_cnt)
  ultimately show ?thesis
    using bitmap_set_all_view [of "\<lparr>bit_cnt = 0, bits = []\<rparr>" False] by (auto simp: yields_def)
next
  case (Some ws)
  then have n: "unat n \<le> 2 ^ 32 - 32"
    using mem byte_cnt_wrap(1) [of n] by (force simp: mem_ok_def)
  let ?b = "\<lparr>bit_cnt = n, bits = ws\<rparr>"
  have "4 * length ws = unat (byte_cnt n)"
    using mem Some by (auto simp: mem_ok_def)
  then have "bitmap_ok ?b"
    using n by (simp add: bitmap_ok_def unat_byte_cnt unat_elem_cnt)
  then show ?thesis
    using bitmap_set_all_view [of ?b False] c Some
    by (auto simp: yields_def bitmap_create_def res_simps split: if_splits)
qed

lemma bitmap_create_returns:
  assumes mem: "mem_ok mem"
  shows "\<exists>r. bitmap_create hdr_ok mem n = Inr r
           \<and> (r = None \<longleftrightarrow> \<not> hdr_ok \<or> (n \<noteq> 0 \<and> mem (byte_cnt n) = None))"
proof (cases "mem (byte_cnt n)")
  case None
  have "bitmap_ok \<lparr>bit_cnt = 0, bits = []\<rparr>"
    by (simp add: bitmap_ok_def unat_elem_cnt)
  then show ?thesis
    using bitmap_set_all_view [of "\<lparr>bit_cnt = 0, bits = []\<rparr>" False] None
    by (auto simp: yields_def bitmap_create_def)
next
  case (Some ws)
  then have n: "unat n \<le> 2 ^ 32 - 32"
    using mem byte_cnt_wrap(1) [of n] by (force simp: mem_ok_def)
  let ?b = "\<lparr>bit_cnt = n, bits = ws\<rparr>"
  have "4 * length ws = unat (byte_cnt n)"
    using mem Some by (auto simp: mem_ok_def)
  then have "bitmap_ok ?b"
    using n by (simp add: bitmap_ok_def unat_byte_cnt unat_elem_cnt)
  then show ?thesis
    using bitmap_set_all_view [of ?b False] Some
    by (auto simp: yields_def bitmap_create_def)
qed

lemma bitmap_create_in_buf_ok:
  assumes "unat n \<le> 2 ^ 32 - 32" and "bitmap_buf_size n \<le> sz" and "unat sz \<le> 4 * length block"
  shows "\<exists>b. bitmap_create_in_buf n block sz = Inr b \<and> bitmap_ok b \<and> bit_cnt b = n
           \<and> bview b = replicate (unat n) False"
proof -
  let ?b = "\<lparr>bit_cnt = n, bits = take (unat (elem_cnt n)) (drop 2 block)\<rparr>"
  have "unat (bitmap_buf_size n) = 8 + unat (byte_cnt n)"
    unfolding bitmap_buf_size_def
    by (subst unat_plus_no_wrap) (use assms(1) in \<open>simp_all add: unat_byte_cnt\<close>)
  then have "unat (elem_cnt n) + 2 \<le> length block"
    using assms by (simp add: unat_byte_cnt unat_elem_cnt word_le_nat_alt)
  then have "bitmap_ok ?b"
    using assms(1) by (simp add: bitmap_ok_def)
  from bitmap_set_all_view [OF this, of False] show ?thesis
    using assms(2) by (auto simp: yields_def bitmap_create_in_buf_def)
qed

section \<open>The last element\<close>

lemma bit_last_mask:
  assumes "n < 32"
  shows "bit (last_mask b) n \<longleftrightarrow> unat (bit_cnt b) mod 32 = 0 \<or> n < unat (bit_cnt b) mod 32"
proof -
  have "push_bit k 1 - 1 = (mask k :: u32)" for k
    by (simp add: mask_eq_exp_minus_1 push_bit_eq_mult)
  then show ?thesis
    using assms by (auto simp: last_mask_def ELEM_BITS_def unat_mod Let_def bit_mask_iff)
qed

lemma last_elem_pos:
  fixes i n :: nat
  assumes "i < n" and "i div 32 = (n + 31) div 32 - 1"
  shows "n mod 32 = 0 \<or> i mod 32 < n mod 32"
proof (cases "n mod 32 = 0")
  case False
  then have "(n mod 32 + 31) div 32 = 1"
    by (intro div_nat_eqI) simp_all
  then have "(n + 31) div 32 = n div 32 + 1"
    using div_add1_eq [of n 31 32] by simp
  then have "i div 32 = n div 32"
    using assms(2) by simp
  then show ?thesis
    using assms(1) by (metis div_mult_mod_eq nat_add_left_cancel_less)
qed simp

lemma last_mask_view:
  assumes ok: "bitmap_ok b" and pos: "bit_cnt b > 0"
  shows "yields (upd_elem b (elem_cnt (bit_cnt b) - 1) (\<lambda>e. e AND last_mask b)) b (bview b)"
proof -
  let ?n = "unat (bit_cnt b)" and ?k = "(unat (bit_cnt b) + 31) div 32 - 1"
  have n: "?n \<le> 2 ^ 32 - 32" "0 < ?n"
    using ok pos by (auto simp: bitmap_ok_def word_less_nat_alt)
  then have "elem_cnt (bit_cnt b) \<noteq> 0"
    using unat_elem_cnt [of "bit_cnt b"] by force
  then have k: "unat (elem_cnt (bit_cnt b) - 1) = ?k"
    using n by (simp add: unat_minus_one unat_elem_cnt)
  have len: "?k < length (bits b)"
    using ok n by (simp add: bitmap_ok_def unat_elem_cnt)
  have keep: "bit (bits b ! ?k AND last_mask b) (i mod 32) = bit (bits b ! ?k) (i mod 32)"
    if "i < ?n" "i div 32 = ?k" for i
  proof -
    have "?n mod 32 = 0 \<or> i mod 32 < ?n mod 32"
      by (rule last_elem_pos) (use that n in simp_all)
    then show ?thesis
      by (simp add: bit_and_iff bit_last_mask)
  qed
  have "bview (b\<lparr>bits := (bits b)[?k := bits b ! ?k AND last_mask b]\<rparr>) = bview b"
    by (rule nth_equalityI) (use len keep in \<open>auto simp: nth_bview nth_list_update\<close>)
  then show ?thesis
    using len ok by (simp add: upd_elem_def k yields_def bitmap_ok_def)
qed

section \<open>A bitmap as a pool of units\<close>

text \<open>How \<^verbatim>\<open>palloc.c\<close> and \<^verbatim>\<open>free-map.c\<close> use a bitmap: a set bit is a unit in use.\<close>

definition used_bits :: "bitmap \<Rightarrow> nat set" where
  "used_bits b = {i. i < unat (bit_cnt b) \<and> bview b ! i}"

definition pool_alloc :: "bitmap \<Rightarrow> u32 \<Rightarrow> (bitmap \<times> nat option) run" where
  "pool_alloc b cnt =
     andThen (bitmap_scan_and_flip b 0 cnt False) (\<lambda>(b, idx).
       Some (Inr (b, if idx \<noteq> BITMAP_ERROR then Some (unat idx) else None)))"

definition pool_release :: "bitmap \<Rightarrow> nat \<Rightarrow> nat \<Rightarrow> bitmap run" where
  "pool_release b i n = Some (bitmap_set_multiple b (of_nat i) (of_nat n) False)"

lemma unat_of_nat_le:
  assumes "n \<le> unat (w :: u32)"
  shows "unat (of_nat n :: u32) = n"
  using le_less_trans [OF assms unat_less_size] by (simp add: unat_of_nat)

lemma group_free_iff:
  assumes "i + n \<le> unat (bit_cnt b)"
  shows "group_at (bview b) n False i \<longleftrightarrow> {i..<i + n} \<inter> used_bits b = {}"
  using assms by (auto simp: group_at_def used_bits_def)

lemma used_bits_set_range:
  assumes "bit_cnt b' = bit_cnt b" and "bview b' = set_range (bview b) i j v" and "j \<le> unat (bit_cnt b)"
  shows "used_bits b' = (if v then used_bits b \<union> {i..<j} else used_bits b - {i..<j})"
  using assms by (auto simp: used_bits_def split: if_splits)

definition run_fits :: "bitmap \<Rightarrow> u32 \<Rightarrow> nat \<Rightarrow> bool" where
  "run_fits b cnt i \<longleftrightarrow> i + unat cnt \<le> unat (bit_cnt b)"

lemma bitmap_scan_and_flip_law:
  assumes ok: "bitmap_ok b"
  shows "\<exists>b' idx. bitmap_scan_and_flip b 0 cnt False = Some (Inr (b', idx)) \<and> bitmap_ok b'
     \<and> bit_cnt b' = bit_cnt b
     \<and> (if idx \<noteq> BITMAP_ERROR
        then unat idx + unat cnt \<le> unat (bit_cnt b) \<and> {unat idx..<unat idx + unat cnt} \<inter> used_bits b = {}
           \<and> used_bits b' = used_bits b \<union> {unat idx..<unat idx + unat cnt}
        else b' = b \<and> (\<forall>i. i + unat cnt \<le> unat (bit_cnt b) \<longrightarrow> {i..<i + unat cnt} \<inter> used_bits b \<noteq> {}))"
proof (cases "find_group (bview b) 0 (unat cnt) False")
  case None
  have "\<not> group_at (bview b) (unat cnt) False i" for i
    using None by (simp add: find_group_None)
  then show ?thesis
    using scan_and_flip_None [OF ok, of 0 cnt False] None ok group_free_iff [of _ "unat cnt" b] by auto
next
  case (Some i)
  then have g: "group_at (bview b) (unat cnt) False i"
    using find_group_Some by blast
  then have rng: "i + unat cnt \<le> unat (bit_cnt b)"
    by (simp add: group_at_def)
  obtain b' where b': "bitmap_scan_and_flip b 0 cnt False = Some (Inr (b', of_nat i))"
    "bitmap_ok b'" "bit_cnt b' = bit_cnt b" "bview b' = set_range (bview b) i (i + unat cnt) True"
    using scan_and_flip_Some [OF ok, of 0 cnt False] Some by auto
  have "unat (of_nat i :: u32) = i" "of_nat i \<noteq> BITMAP_ERROR"
    using find_group_idx [OF ok Some] by (simp_all add: idx_word_def)
  then show ?thesis
    using b' used_bits_set_range [OF b'(3,4) rng] rng g group_free_iff [OF rng] by simp
qed

lemma pool_alloc_law:
  assumes ok: "bitmap_ok b"
  shows "\<exists>b' got. pool_alloc b cnt = Some (Inr (b', got)) \<and> bitmap_ok b' \<and> run_fits b' = run_fits b \<and>
        (case got of
           Some i \<Rightarrow> run_fits b cnt i \<and> {i..<i + unat cnt} \<inter> used_bits b = {} \<and> used_bits b' = used_bits b \<union> {i..<i + unat cnt}
         | None \<Rightarrow> used_bits b' = used_bits b \<and> (0 < unat cnt \<longrightarrow> (\<forall>i. run_fits b cnt i \<longrightarrow> {i..<i + unat cnt} \<inter> used_bits b \<noteq> {})))"
proof -
  obtain b' idx where f: "bitmap_scan_and_flip b 0 cnt False = Some (Inr (b', idx))" "bitmap_ok b'" "bit_cnt b' = bit_cnt b"
     and law: "if idx \<noteq> BITMAP_ERROR
        then unat idx + unat cnt \<le> unat (bit_cnt b) \<and> {unat idx..<unat idx + unat cnt} \<inter> used_bits b = {}
           \<and> used_bits b' = used_bits b \<union> {unat idx..<unat idx + unat cnt}
        else b' = b \<and> (\<forall>i. i + unat cnt \<le> unat (bit_cnt b) \<longrightarrow> {i..<i + unat cnt} \<inter> used_bits b \<noteq> {})"
    using bitmap_scan_and_flip_law [OF ok] by blast
  have "run_fits b' = run_fits b"
    using f(3) by (simp add: run_fits_def fun_eq_iff)
  then show ?thesis
    using f law by (cases "idx = BITMAP_ERROR") (simp_all add: pool_alloc_def run_fits_def)
qed

lemma pool_release_law:
  assumes ok: "bitmap_ok b" and rng: "i + n \<le> unat (bit_cnt b)"
  shows "\<exists>b'. pool_release b i n = Some (Inr b') \<and> bitmap_ok b' \<and> run_fits b' = run_fits b
           \<and> used_bits b' = used_bits b - {i..<i + n}"
proof -
  have u: "unat (of_nat i :: u32) = i" "unat (of_nat n :: u32) = n"
    using rng by (auto intro!: unat_of_nat_le [of _ "bit_cnt b"])
  then obtain b' where b': "bitmap_set_multiple b (of_nat i) (of_nat n) False = Inr b'"
    "bitmap_ok b'" "bit_cnt b' = bit_cnt b" "bview b' = set_range (bview b) i (i + n) False"
    using bitmap_set_multiple_view [OF ok, of "of_nat i" "of_nat n" False] rng
    by (auto simp: yields_def)
  then show ?thesis
    using used_bits_set_range [OF b'(3,4) rng] by (simp add: pool_release_def run_fits_def fun_eq_iff)
qed

interpretation bit_pool: extent_allocator bitmap_ok unat "\<lambda>_. True" run_fits used_bits pool_alloc pool_release
proof
  show "\<exists>b' got. pool_alloc b cnt = Some (Inr (b', got)) \<and> bitmap_ok b' \<and> run_fits b' = run_fits b \<and>
        (case got of
           Some i \<Rightarrow> run_fits b cnt i \<and> {i..<i + unat cnt} \<inter> used_bits b = {} \<and> used_bits b' = used_bits b \<union> {i..<i + unat cnt}
         | None \<Rightarrow> used_bits b' = used_bits b \<and> (0 < unat cnt \<longrightarrow> (\<forall>i. run_fits b cnt i \<longrightarrow> {i..<i + unat cnt} \<inter> used_bits b \<noteq> {})))"
    if "bitmap_ok b" for b cnt
    using that by (rule pool_alloc_law)
  show "\<exists>b'. pool_release b i (unat cnt) = Some (Inr b') \<and> bitmap_ok b' \<and> run_fits b' = run_fits b
      \<and> used_bits b' = used_bits b - {i..<i + unat cnt}"
    if "bitmap_ok b" "run_fits b cnt i" for b i cnt
    using that by (intro pool_release_law) (simp_all add: run_fits_def)
qed

section \<open>Properties\<close>

definition demo_bitmap :: bitmap where
  "demo_bitmap = \<lparr>bit_cnt = 6, bits = [0b001011]\<rparr>"

lemma demo_bitmap_ok: "bitmap_ok demo_bitmap"
  by (simp add: demo_bitmap_def bitmap_ok_def unat_elem_cnt)

lemma demo_bview: "bview demo_bitmap = [True, True, False, True, False, False]"
  by (simp add: bview_def demo_bitmap_def upt_conv_Cons)

text \<open>C9: On a well-formed bitmap, with \<^verbatim>\<open>start\<close> within it, \<^verbatim>\<open>bitmap_scan_and_flip\<close> always
  returns. If some group of \<^verbatim>\<open>cnt\<close> consecutive bits at or after \<^verbatim>\<open>start\<close> is all \<^verbatim>\<open>value\<close>, it
  returns the first such group and flips exactly its bits; otherwise it returns
  \<^verbatim>\<open>BITMAP_ERROR\<close> and leaves the bitmap as it was. With \<^verbatim>\<open>cnt\<close> zero the first group is the empty one at \<^verbatim>\<open>start\<close>, so it
  returns \<^verbatim>\<open>start\<close>, where the comment of the function says that it returns 0.\<close>

theorem bitmap_scan_and_flip_correct:
  assumes "bitmap_ok b" and "start \<le> bit_cnt b"
  shows "\<exists>b' idx. bitmap_scan_and_flip b start cnt v = Some (Inr (b', idx)) \<and> bitmap_ok b' \<and>
     (if \<exists>i \<ge> unat start. group_at (bview b) (unat cnt) v i
      then idx \<noteq> BITMAP_ERROR \<and> unat start \<le> unat idx \<and> group_at (bview b) (unat cnt) v (unat idx)
         \<and> (\<forall>i. unat start \<le> i \<and> i < unat idx \<longrightarrow> \<not> group_at (bview b) (unat cnt) v i)
         \<and> bview b' = set_range (bview b) (unat idx) (unat idx + unat cnt) (\<not> v)
      else idx = BITMAP_ERROR \<and> b' = b)"
proof (cases "find_group (bview b) (unat start) (unat cnt) v")
  case None
  then show ?thesis
    using scan_and_flip_None [OF assms None] assms(1) by (auto simp: find_group_None)
next
  case (Some i)
  then have "unat (of_nat i :: u32) = i" "(of_nat i :: u32) \<noteq> BITMAP_ERROR"
    using find_group_idx [OF assms(1) Some] by (simp_all add: idx_word_def)
  then show ?thesis
    using scan_and_flip_Some [OF assms Some] find_group_Some [OF Some] by fastforce
qed

theorem bitmap_scan_and_flip_correct_witness:
  "\<exists>b' idx. bitmap_scan_and_flip demo_bitmap 1 2 False = Some (Inr (b', idx)) \<and> idx = 4
     \<and> bview b' = [True, True, False, True, True, True]"
proof -
  have g4: "group_at (bview demo_bitmap) 2 False 4"
    by (auto simp: group_at_def demo_bview less_Suc_eq numeral_eq_Suc le_Suc_eq)
  have le: "group_at (bview demo_bitmap) 2 False i \<Longrightarrow> i = 4" for i
  proof -
    assume g: "group_at (bview demo_bitmap) 2 False i"
    then have "i \<in> {0, 1, 2, 3, 4}"
      by (auto simp: group_at_def demo_bview)
    moreover have "\<not> bview demo_bitmap ! i" "\<not> bview demo_bitmap ! Suc i"
      using g by (auto simp: group_at_def)
    ultimately show "i = 4"
      by (auto simp: demo_bview)
  qed
  have "(1 :: u32) \<le> bit_cnt demo_bitmap"
    by (simp add: demo_bitmap_def)
  from bitmap_scan_and_flip_correct [OF demo_bitmap_ok this, of 2 False]
  obtain b' idx where r: "bitmap_scan_and_flip demo_bitmap 1 2 False = Some (Inr (b', idx))"
    "group_at (bview demo_bitmap) 2 False (unat idx)"
    "bview b' = set_range (bview demo_bitmap) (unat idx) (unat idx + 2) True"
    using g4 by (auto split: if_splits)
  have "unat idx = 4"
    using le r(2) by blast
  moreover from this have "idx = 4"
    by (simp add: word_unat_eq_iff)
  ultimately show ?thesis
    using r by (auto simp: demo_bview set_range_def upt_conv_Cons)
qed

text \<open>C18: Setting a range that lies within a well-formed bitmap (its end does not wrap around)
  returns, keeps the bitmap well-formed, and afterwards \<^verbatim>\<open>bitmap_test\<close> gives the new value inside
  the range and the old value elsewhere; \<^verbatim>\<open>bitmap_count\<close> over the range gives its length for the
  new value.\<close>

theorem bitmap_set_multiple_correct:
  assumes "bitmap_ok b" and "unat start + unat cnt \<le> unat (bit_cnt b)"
  shows "\<exists>b'. bitmap_set_multiple b start cnt v = Inr b' \<and> bitmap_ok b' \<and> bit_cnt b' = bit_cnt b
     \<and> (\<forall>i < bit_cnt b. bitmap_test b' i =
          (if unat start \<le> unat i \<and> unat i < unat start + unat cnt then Inr v else bitmap_test b i))
     \<and> bitmap_count b' start cnt v = Inr cnt"
proof -
  obtain b' where b': "bitmap_set_multiple b start cnt v = Inr b'" "bitmap_ok b'"
    "bit_cnt b' = bit_cnt b" "bview b' = set_range (bview b) (unat start) (unat start + unat cnt) v"
    using bitmap_set_multiple_view [OF assms] by (rule yieldsE)
  have "bitmap_test b' i = (if unat start \<le> unat i \<and> unat i < unat start + unat cnt then Inr v
      else bitmap_test b i)" if "i < bit_cnt b" for i
    using that b' assms(1) by (simp add: bitmap_test_view word_less_nat_alt)
  moreover have "take (unat cnt) (drop (unat start) (bview b')) = replicate (unat cnt) v"
    using b'(4) assms(2) by (intro nth_equalityI) auto
  then have "bitmap_count b' start cnt v = Inr cnt"
    using bitmap_count_view [OF b'(2), of start cnt v] assms(2) b'(3)
    by (simp add: count_list_eq_length_filter)
  ultimately show ?thesis
    using b' by blast
qed

theorem bitmap_set_multiple_correct_witness:
  "\<exists>b'. bitmap_set_multiple demo_bitmap 2 3 True = Inr b' \<and> bitmap_count b' 2 3 True = Inr 3
     \<and> bitmap_test b' 4 = Inr True \<and> bitmap_test b' 5 = Inr False"
proof -
  have lt: "(4 :: u32) < bit_cnt demo_bitmap" "(5 :: u32) < bit_cnt demo_bitmap"
    by (simp_all add: demo_bitmap_def)
  have "unat (2 :: u32) + unat (3 :: u32) \<le> unat (bit_cnt demo_bitmap)"
    by (simp add: demo_bitmap_def)
  from bitmap_set_multiple_correct [OF demo_bitmap_ok this, of True] show ?thesis
    using lt bitmap_test_view [OF demo_bitmap_ok lt(2)] by (force simp: demo_bview)
qed

text \<open>C19: \<^verbatim>\<open>bitmap_create\<close> never returns a bitmap whose element array is too small, for any
  \<^verbatim>\<open>bit_cnt\<close>, including those where the rounding in \<^verbatim>\<open>elem_cnt\<close> wraps around to zero: every bitmap
  it returns is well-formed, has \<^verbatim>\<open>bit_cnt\<close> bits and all of them are false. It returns a null
  pointer exactly when an allocation it needs fails.\<close>

theorem bitmap_create_correct:
  assumes "mem_ok mem"
  shows "\<exists>r. bitmap_create hdr_ok mem n = Inr r
     \<and> (r = None \<longleftrightarrow> \<not> hdr_ok \<or> (n \<noteq> 0 \<and> mem (byte_cnt n) = None))
     \<and> (\<forall>b. r = Some b \<longrightarrow> bitmap_ok b \<and> bit_cnt b = n \<and> bview b = replicate (unat n) False)"
  using bitmap_create_returns [OF assms, of hdr_ok n] bitmap_create_ok [OF assms, of hdr_ok n] by blast

theorem bitmap_create_correct_witness:
  "\<exists>b. bitmap_create True (\<lambda>n. if n = 8 then Some [5, 7] else None) 40 = Inr (Some b)
     \<and> bview b = replicate 40 False"
proof -
  have "mem_ok (\<lambda>n. if n = 8 then Some [5, 7] else None)"
    by (simp add: mem_ok_def)
  from bitmap_create_correct [OF this, of True 40] show ?thesis
    by (auto simp: byte_cnt_def elem_cnt_def DIV_ROUND_UP_def ELEM_BITS_def)
qed

text \<open>C12: A bitmap used as an allocator (find a clear run and set it; clear a run to free it). From any well-formed bitmap, whatever
  bits are set, it serves any sequence of allocations, of any 32-bit size, and releases of a client without an assertion failure
  or an endless loop. The runs the client holds lie within the bitmap, never overlap each other or the bits set before, and
  the set bits are exactly those and the client's runs. In the resulting bitmap an allocation succeeds whenever some clear run is
  long enough.\<close>

theorem bitmap_pool_no_overlap:
  assumes "bitmap_ok b"
  shows "\<exists>b' live. serve unat pool_alloc pool_release b [] rs = Some (Inr (b', live)) \<and> bitmap_ok b'
     \<and> partitioned unat (\<lambda>cnt i. i + unat cnt \<le> unat (bit_cnt b)) (used_bits b) (used_bits b') live
     \<and> (\<forall>cnt i. 0 < unat cnt \<and> i + unat cnt \<le> unat (bit_cnt b) \<and> {i..<i + unat cnt} \<inter> used_bits b' = {} \<longrightarrow>
          (\<exists>b'' j. pool_alloc b' cnt = Some (Inr (b'', Some j))))"
proof -
  obtain b' live where s: "serve unat pool_alloc pool_release b [] rs = Some (Inr (b', live))" "bitmap_ok b'" "run_fits b' = run_fits b"
    "partitioned unat (run_fits b) (used_bits b) (used_bits b') live"
    using bit_pool.serve_partitioned [OF assms, of "used_bits b" "[]" rs] by auto
  have r: "run_fits b = (\<lambda>cnt i. i + unat cnt \<le> unat (bit_cnt b))"
    by (simp add: fun_eq_iff run_fits_def)
  show ?thesis
    using s(1,2) s(4) [unfolded r] bit_pool.fitting_served [OF s(2)] by (auto simp: s(3) r units_def)
qed

theorem bitmap_pool_no_overlap_witness:
  "\<exists>b' live. serve unat pool_alloc pool_release \<lparr>bit_cnt = 6, bits = [0b100]\<rparr> [] [Take 2, Take 9, Take 3, Give 0, Take 1]
       = Some (Inr (b', live)) \<and> partitioned unat (\<lambda>cnt i. i + unat cnt \<le> 6) {2} (used_bits b') live"
proof -
  have ok: "bitmap_ok \<lparr>bit_cnt = 6, bits = [0b100]\<rparr>"
    by (simp add: bitmap_ok_def unat_elem_cnt)
  have "bview \<lparr>bit_cnt = 6, bits = [0b100]\<rparr> = [False, False, True, False, False, False]"
    by code_simp
  moreover have "{i. i < 6 \<and> [False, False, True, False, False, False] ! i} = {2 :: nat}"
    by (auto simp: less_Suc_eq numeral_eq_Suc)
  ultimately have "used_bits \<lparr>bit_cnt = 6, bits = [0b100]\<rparr> = {2}"
    by (simp add: used_bits_def)
  then show ?thesis
    using bitmap_pool_no_overlap [OF ok, of "[Take 2, Take 9, Take 3, Give 0, Take 1]"] by auto
qed

end
