(* ===== verification/Palloc.thy ===== *)
theory Palloc
  imports Memory Kernel_Bitmap "HOL-Library.Signed_Division"
begin

text \<open>
  The page allocator of \<^verbatim>\<open>threads/palloc.c\<close>: two pools of pages, each a bitmap of used pages and a
  base address, and the memory the pages are in. The pool locks bracket single bitmap operations
  and are left out. The lemmas show that the allocator hands out free pages of the right pool only,
  zeroed on request, and takes back exactly the pages it is given.
\<close>

section \<open>State and operations\<close>

record pool =
  used_map :: bitmap
  base :: addr

record palloc =
  kernel_pool :: pool
  user_pool :: pool
  ram :: memory

definition PAL_ASSERT :: u32 where
  "PAL_ASSERT = 1"

definition PAL_ZERO :: u32 where
  "PAL_ZERO = 2"

definition PAL_USER :: u32 where
  "PAL_USER = 4"

text \<open>The ternary at the top of \<^verbatim>\<open>palloc_get_multiple\<close>, and the store through the pointer it
  yields.\<close>

definition get_pool :: "u32 \<Rightarrow> palloc \<Rightarrow> pool" where
  "get_pool flags st = (if flags AND PAL_USER \<noteq> 0 then user_pool st else kernel_pool st)"

definition set_pool :: "u32 \<Rightarrow> palloc \<Rightarrow> pool \<Rightarrow> palloc" where
  "set_pool flags st p =
     (if flags AND PAL_USER \<noteq> 0 then st\<lparr>user_pool := p\<rparr> else st\<lparr>kernel_pool := p\<rparr>)"

definition palloc_get_multiple :: "palloc \<Rightarrow> u32 \<Rightarrow> u32 \<Rightarrow> (palloc \<times> addr) run" where
  "palloc_get_multiple st flags page_cnt =
     (let p = get_pool flags st in
      if page_cnt = 0 then Some (Inr (st, 0))
      else
        andThen (bitmap_scan_and_flip (used_map p) 0 page_cnt False) (\<lambda>(b, page_idx).
          let st = set_pool flags st (p\<lparr>used_map := b\<rparr>);
              pages = (if page_idx \<noteq> BITMAP_ERROR then base p + PGSIZE * page_idx else 0)
          in if pages \<noteq> 0 then
               if flags AND PAL_ZERO \<noteq> 0
               then Some (Inr (st\<lparr>ram := memset (ram st) pages 0 (unat (PGSIZE * page_cnt))\<rparr>, pages))
               else Some (Inr (st, pages))
             else if flags AND PAL_ASSERT \<noteq> 0 then Some (Inl Panicked)
             else Some (Inr (st, pages))))"

definition palloc_get_page :: "palloc \<Rightarrow> u32 \<Rightarrow> (palloc \<times> addr) run" where
  "palloc_get_page st flags = palloc_get_multiple st flags 1"

definition page_from_pool :: "pool \<Rightarrow> addr \<Rightarrow> bool" where
  "page_from_pool p page =
     (let page_no = pg_no page;
          start_page = pg_no (base p);
          end_page = start_page + bitmap_size (used_map p)
      in start_page \<le> page_no \<and> page_no < end_page)"

text \<open>The part of \<^verbatim>\<open>palloc_free_multiple\<close> after the choice of the pool.\<close>

definition free_in_pool :: "pool \<Rightarrow> addr \<Rightarrow> u32 \<Rightarrow> bitmap res" where
  "free_in_pool p pages page_cnt =
     (let page_idx = pg_no pages - pg_no (base p) in
      bnd (bitmap_all (used_map p) page_idx page_cnt) (\<lambda>all_used.
        ASSERT all_used (bitmap_set_multiple (used_map p) page_idx page_cnt False)))"

definition palloc_free_multiple :: "palloc \<Rightarrow> addr \<Rightarrow> u32 \<Rightarrow> palloc res" where
  "palloc_free_multiple st pages page_cnt =
     ASSERT (pg_ofs pages = 0)
       (if pages = 0 \<or> page_cnt = 0 then Inr st
        else
          let st' = st\<lparr>ram := memset (ram st) pages 0xcc (unat (PGSIZE * page_cnt))\<rparr> in
          if page_from_pool (kernel_pool st) pages then
            bnd (free_in_pool (kernel_pool st) pages page_cnt) (\<lambda>b.
              Inr (st'\<lparr>kernel_pool := (kernel_pool st)\<lparr>used_map := b\<rparr>\<rparr>))
          else if page_from_pool (user_pool st) pages then
            bnd (free_in_pool (user_pool st) pages page_cnt) (\<lambda>b.
              Inr (st'\<lparr>user_pool := (user_pool st)\<lparr>used_map := b\<rparr>\<rparr>))
          else Inl Unreachable)"

definition palloc_free_page :: "palloc \<Rightarrow> addr \<Rightarrow> palloc res" where
  "palloc_free_page st page = palloc_free_multiple st page 1"

section \<open>Initialisation\<close>

text \<open>\<open>block\<close> is what the words at the base of the pool hold before the bitmap is put there.\<close>

definition init_pool :: "u32 list \<Rightarrow> addr \<Rightarrow> u32 \<Rightarrow> pool res" where
  "init_pool block start page_cnt =
     (let bm_pages = DIV_ROUND_UP (bitmap_buf_size page_cnt) PGSIZE in
      if bm_pages > page_cnt then Inl Panicked
      else
        let page_cnt = page_cnt - bm_pages in
        bnd (bitmap_create_in_buf page_cnt block (bm_pages * PGSIZE)) (\<lambda>b.
          Inr \<lparr>used_map = b, base = start + bm_pages * PGSIZE\<rparr>))"

text \<open>The difference of the two pointers is a signed \<^verbatim>\<open>ptrdiff_t\<close>.\<close>

definition palloc_init ::
  "u32 list \<Rightarrow> u32 list \<Rightarrow> memory \<Rightarrow> u32 \<Rightarrow> u32 \<Rightarrow> palloc res" where
  "palloc_init kblock ublock m init_ram_pages user_page_limit =
     bnd (ptov (1024 * 1024)) (\<lambda>free_start.
     bnd (ptov (init_ram_pages * PGSIZE)) (\<lambda>free_end.
     let free_pages = of_int (sint (free_end - free_start) sdiv 4096) :: u32;
         user_pages = free_pages div 2;
         user_pages = (if user_pages > user_page_limit then user_page_limit else user_pages);
         kernel_pages = free_pages - user_pages
     in bnd (init_pool kblock free_start kernel_pages) (\<lambda>kp.
        bnd (init_pool ublock (free_start + kernel_pages * PGSIZE) user_pages) (\<lambda>up.
        Inr \<lparr>kernel_pool = kp, user_pool = up, ram = m\<rparr>))))"

section \<open>Invariant\<close>

definition pool_size :: "pool \<Rightarrow> nat" where
  "pool_size p = unat (bit_cnt (used_map p))"

text \<open>The page numbers of a pool, and those in use.\<close>

definition pool_pages :: "pool \<Rightarrow> nat set" where
  "pool_pages p = {unat (pg_no (base p))..<unat (pg_no (base p)) + pool_size p}"

definition pool_used :: "pool \<Rightarrow> nat set" where
  "pool_used p = (\<lambda>i. unat (pg_no (base p)) + i) ` used_bits (used_map p)"

definition pool_ok :: "pool \<Rightarrow> bool" where
  "pool_ok p \<longleftrightarrow> bitmap_ok (used_map p) \<and> pg_ofs (base p) = 0 \<and> PHYS_BASE \<le> base p
     \<and> unat (base p) + 4096 * pool_size p \<le> 2 ^ 32"

definition palloc_ok :: "palloc \<Rightarrow> bool" where
  "palloc_ok st \<longleftrightarrow> pool_ok (kernel_pool st) \<and> pool_ok (user_pool st)
     \<and> pool_pages (kernel_pool st) \<inter> pool_pages (user_pool st) = {}"

abbreviation page_run :: "addr \<Rightarrow> u32 \<Rightarrow> nat set" where
  "page_run pages cnt \<equiv> {unat (pg_no pages)..<unat (pg_no pages) + unat cnt}"

lemma page_address:
  assumes ok: "pool_ok p" and i: "unat idx < pool_size p"
  shows "unat (base p + PGSIZE * idx) = unat (base p) + 4096 * unat idx"
    and "unat (pg_no (base p + PGSIZE * idx)) = unat (pg_no (base p)) + unat idx"
    and "pg_ofs (base p + PGSIZE * idx) = 0"
    and "PHYS_BASE \<le> base p + PGSIZE * idx"
    and "base p + PGSIZE * idx \<noteq> 0"
proof -
  have lim: "unat (base p) + 4096 * unat idx < 2 ^ 32"
    using ok i by (simp add: pool_ok_def)
  have m: "unat (PGSIZE * idx) = 4096 * unat idx"
    using lim unat_mult_lem [of 4096 idx] by simp
  show u: "unat (base p + PGSIZE * idx) = unat (base p) + 4096 * unat idx"
    using lim m unat_plus_no_wrap [of "base p" "PGSIZE * idx"] by simp
  show "unat (pg_no (base p + PGSIZE * idx)) = unat (pg_no (base p)) + unat idx"
    unfolding unat_pg_no u by simp
  show "pg_ofs (base p + PGSIZE * idx) = 0"
    using ok unfolding pg_ofs_zero_iff u by (simp add: pool_ok_def pg_ofs_zero_iff)
  show ge: "PHYS_BASE \<le> base p + PGSIZE * idx"
    using ok unfolding word_le_nat_alt u by (simp add: pool_ok_def word_le_nat_alt)
  then show "base p + PGSIZE * idx \<noteq> 0"
    by (auto simp: PHYS_BASE_def)
qed

lemma get_set_pool [simp]: "get_pool flags (set_pool flags st p) = p"
  by (simp add: get_pool_def set_pool_def)

lemma ram_set_pool [simp]: "ram (set_pool flags st p) = ram st"
  by (simp add: set_pool_def)

lemma pool_size_upd:
  "bit_cnt b = bit_cnt (used_map p) \<Longrightarrow> pool_size (p\<lparr>used_map := b\<rparr>) = pool_size p
     \<and> pool_pages (p\<lparr>used_map := b\<rparr>) = pool_pages p
     \<and> (pool_ok (p\<lparr>used_map := b\<rparr>) \<longleftrightarrow> pool_ok p \<and> bitmap_ok b)" if "bitmap_ok (used_map p)"
  using that by (auto simp: pool_size_def pool_pages_def pool_ok_def)

lemma set_pool_ok:
  assumes "palloc_ok st" and "bitmap_ok b" and "bit_cnt b = bit_cnt (used_map (get_pool flags st))"
  shows "palloc_ok (set_pool flags st ((get_pool flags st)\<lparr>used_map := b\<rparr>))"
proof -
  have "bitmap_ok (used_map (get_pool flags st))"
    using assms(1) by (simp add: palloc_ok_def pool_ok_def get_pool_def)
  then show ?thesis
    using assms pool_size_upd [of "get_pool flags st" b]
    by (auto simp: palloc_ok_def get_pool_def set_pool_def)
qed

lemma ram_irrelevant [simp]: "palloc_ok (st\<lparr>ram := m\<rparr>) = palloc_ok st"
  "get_pool flags (st\<lparr>ram := m\<rparr>) = get_pool flags st"
  by (simp_all add: palloc_ok_def get_pool_def)

definition other_pool :: "u32 \<Rightarrow> palloc \<Rightarrow> pool" where
  "other_pool flags st = (if flags AND PAL_USER \<noteq> 0 then kernel_pool st else user_pool st)"

lemma other_pool_simps [simp]:
  "other_pool flags (set_pool flags st p) = other_pool flags st"
  "other_pool flags (st\<lparr>ram := m\<rparr>) = other_pool flags st"
  by (simp_all add: other_pool_def set_pool_def)

text \<open>What \<^verbatim>\<open>palloc_get_multiple\<close> does when the search succeeds and when it fails.\<close>

lemma get_multiple_hit:
  assumes ok: "palloc_ok st" and cnt: "page_cnt \<noteq> 0"
    and free: "i + unat page_cnt \<le> pool_size (get_pool flags st)"
      "{i..<i + unat page_cnt} \<inter> used_bits (used_map (get_pool flags st)) = {}"
  shows "\<exists>st' idx. palloc_get_multiple st flags page_cnt
            = Some (Inr (st', base (get_pool flags st) + PGSIZE * idx))
     \<and> palloc_ok st' \<and> other_pool flags st' = other_pool flags st
     \<and> base (get_pool flags st') = base (get_pool flags st)
     \<and> bit_cnt (used_map (get_pool flags st')) = bit_cnt (used_map (get_pool flags st))
     \<and> unat idx + unat page_cnt \<le> pool_size (get_pool flags st)
     \<and> {unat idx..<unat idx + unat page_cnt} \<inter> used_bits (used_map (get_pool flags st)) = {}
     \<and> used_bits (used_map (get_pool flags st')) =
         used_bits (used_map (get_pool flags st)) \<union> {unat idx..<unat idx + unat page_cnt}
     \<and> ram st' = (if flags AND PAL_ZERO \<noteq> 0
          then memset (ram st) (base (get_pool flags st) + PGSIZE * idx) 0 (4096 * unat page_cnt)
          else ram st)"
proof -
  let ?p = "get_pool flags st"
  have pok: "pool_ok ?p"
    using ok by (simp add: palloc_ok_def get_pool_def)
  then have "bitmap_ok (used_map ?p)"
    by (simp add: pool_ok_def)
  from bitmap_scan_and_flip_law [OF this, of page_cnt]
  obtain b idx where b: "bitmap_scan_and_flip (used_map ?p) 0 page_cnt False = Some (Inr (b, idx))"
    "bitmap_ok b" "bit_cnt b = bit_cnt (used_map ?p)"
    and law: "if idx \<noteq> BITMAP_ERROR
        then unat idx + unat page_cnt \<le> pool_size ?p
           \<and> {unat idx..<unat idx + unat page_cnt} \<inter> used_bits (used_map ?p) = {}
           \<and> used_bits b = used_bits (used_map ?p) \<union> {unat idx..<unat idx + unat page_cnt}
        else b = used_map ?p \<and> (\<forall>i. i + unat page_cnt \<le> pool_size ?p \<longrightarrow>
           {i..<i + unat page_cnt} \<inter> used_bits (used_map ?p) \<noteq> {})"
    unfolding pool_size_def by blast
  have hit: "idx \<noteq> BITMAP_ERROR"
    using law free by metis
  then have idx: "unat idx + unat page_cnt \<le> pool_size ?p"
    "{unat idx..<unat idx + unat page_cnt} \<inter> used_bits (used_map ?p) = {}"
    "used_bits b = used_bits (used_map ?p) \<union> {unat idx..<unat idx + unat page_cnt}"
    using law by simp_all
  have "0 < unat page_cnt"
    using cnt by (simp add: unat_gt_0)
  then have "base ?p + PGSIZE * idx \<noteq> 0"
    using page_address(5) [OF pok, of idx] idx(1) by simp
  moreover have "unat (PGSIZE * page_cnt) = 4096 * unat page_cnt"
    using pok idx(1) unat_mult_lem [of 4096 page_cnt] unat_less_size [of "base ?p"]
    by (simp add: pool_ok_def word_le_nat_alt PHYS_BASE_def)
  moreover define st1 where "st1 = set_pool flags st (?p\<lparr>used_map := b\<rparr>)"
  moreover define st2 where "st2 = (if flags AND PAL_ZERO \<noteq> 0
      then st1\<lparr>ram := memset (ram st) (base ?p + PGSIZE * idx) 0 (4096 * unat page_cnt)\<rparr> else st1)"
  ultimately have res: "palloc_get_multiple st flags page_cnt = Some (Inr (st2, base ?p + PGSIZE * idx))"
    using b(1) hit cnt by (simp add: palloc_get_multiple_def Let_def del: PGSIZE_eq)
  have st1: "palloc_ok st1" "other_pool flags st1 = other_pool flags st" "get_pool flags st1 = ?p\<lparr>used_map := b\<rparr>"
    "ram st1 = ram st"
    using set_pool_ok [OF ok b(2,3)] by (simp_all add: st1_def)
  have "palloc_ok st2" "other_pool flags st2 = other_pool flags st" "get_pool flags st2 = ?p\<lparr>used_map := b\<rparr>"
    "ram st2 = (if flags AND PAL_ZERO \<noteq> 0
          then memset (ram st) (base ?p + PGSIZE * idx) 0 (4096 * unat page_cnt) else ram st)"
    using st1 by (simp_all add: st2_def)
  then show ?thesis
    using res idx b(3) by (intro exI [of _ st2] exI [of _ idx]) simp
qed

lemma get_multiple_miss:
  assumes ok: "palloc_ok st" and cnt: "page_cnt \<noteq> 0"
    and full: "\<And>i. i + unat page_cnt \<le> pool_size (get_pool flags st) \<Longrightarrow>
      {i..<i + unat page_cnt} \<inter> used_bits (used_map (get_pool flags st)) \<noteq> {}"
  shows "palloc_get_multiple st flags page_cnt
     = (if flags AND PAL_ASSERT \<noteq> 0 then Some (Inl Panicked) else Some (Inr (st, 0)))"
proof -
  let ?p = "get_pool flags st"
  have "bitmap_ok (used_map ?p)"
    using ok by (simp add: palloc_ok_def pool_ok_def get_pool_def)
  then have "bitmap_scan_and_flip (used_map ?p) 0 page_cnt False = Some (Inr (used_map ?p, BITMAP_ERROR))"
    using bitmap_scan_and_flip_law [of "used_map ?p" page_cnt] full
    unfolding pool_size_def by (fastforce split: if_splits)
  moreover have "set_pool flags st ?p = st"
    by (simp add: set_pool_def get_pool_def)
  ultimately show ?thesis
    using cnt by (simp add: palloc_get_multiple_def Let_def)
qed

text \<open>\<^verbatim>\<open>palloc_get_page\<close> gives an unused page of the pool its flags select, or the pool is full.\<close>

definition kernel_page :: "addr \<Rightarrow> bool" where
  "kernel_page p \<longleftrightarrow> pg_ofs p = 0 \<and> PHYS_BASE \<le> p"

lemma get_page_cases:
  assumes ok: "palloc_ok st"
  obtains (page) st' pg where "palloc_get_page st flags = Some (Inr (st', pg))" and "palloc_ok st'" and "kernel_page pg"
      and "unat (pg_no pg) \<in> pool_pages (get_pool flags st) - pool_used (get_pool flags st)"
      and "pool_used (get_pool flags st') = insert (unat (pg_no pg)) (pool_used (get_pool flags st))"
      and "pool_pages (get_pool flags st') = pool_pages (get_pool flags st)"
      and "other_pool flags st' = other_pool flags st"
      and "ram st' = (if flags AND PAL_ZERO \<noteq> 0 then memset (ram st) pg 0 4096 else ram st)"
  | (full) "palloc_get_page st flags = (if flags AND PAL_ASSERT \<noteq> 0 then Some (Inl Panicked) else Some (Inr (st, 0)))"
      and "pool_used (get_pool flags st) = pool_pages (get_pool flags st)"
proof -
  let ?p = "get_pool flags st"
  have pok: "pool_ok ?p"
    using ok by (simp add: palloc_ok_def get_pool_def)
  have sub: "used_bits (used_map ?p) \<subseteq> {0..<pool_size ?p}"
    by (auto simp: used_bits_def pool_size_def)
  show thesis
  proof (cases "\<exists>i < pool_size ?p. i \<notin> used_bits (used_map ?p)")
    case True
    then obtain i where "i + unat (1 :: u32) \<le> pool_size ?p"
      "{i..<i + unat (1 :: u32)} \<inter> used_bits (used_map ?p) = {}"
      by (auto simp: Suc_le_eq)
    from get_multiple_hit [OF ok _ this]
    obtain st' idx where g: "palloc_get_multiple st flags 1 = Some (Inr (st', base ?p + PGSIZE * idx))"
      "palloc_ok st'" "other_pool flags st' = other_pool flags st" "base (get_pool flags st') = base ?p"
      "bit_cnt (used_map (get_pool flags st')) = bit_cnt (used_map ?p)"
      "unat idx < pool_size ?p" "unat idx \<notin> used_bits (used_map ?p)"
      "used_bits (used_map (get_pool flags st')) = insert (unat idx) (used_bits (used_map ?p))"
      "ram st' = (if flags AND PAL_ZERO \<noteq> 0 then memset (ram st) (base ?p + PGSIZE * idx) 0 4096 else ram st)"
      by (auto simp del: PGSIZE_eq)
    let ?pg = "base ?p + PGSIZE * idx"
    note pa = page_address [OF pok g(6)]
    show thesis
    proof (rule page)
      show "palloc_get_page st flags = Some (Inr (st', ?pg))"
        using g(1) by (simp add: palloc_get_page_def)
      show "palloc_ok st'" "other_pool flags st' = other_pool flags st"
        "ram st' = (if flags AND PAL_ZERO \<noteq> 0 then memset (ram st) ?pg 0 4096 else ram st)"
        using g by simp_all
      show "kernel_page ?pg"
        using pa(3,4) by (simp add: kernel_page_def)
      show "unat (pg_no ?pg) \<in> pool_pages ?p - pool_used ?p"
        using g(6,7) unfolding pa(2) by (auto simp: pool_used_def pool_pages_def)
      show "pool_used (get_pool flags st') = insert (unat (pg_no ?pg)) (pool_used ?p)"
        unfolding pa(2) using g(4,8) by (simp add: pool_used_def)
      show "pool_pages (get_pool flags st') = pool_pages ?p"
        using g(4,5) by (simp add: pool_pages_def pool_size_def)
    qed
  next
    case False
    then have "used_bits (used_map ?p) = {0..<pool_size ?p}"
      using sub by auto
    moreover have "palloc_get_multiple st flags 1 = (if flags AND PAL_ASSERT \<noteq> 0 then Some (Inl Panicked) else Some (Inr (st, 0)))"
      using get_multiple_miss [OF ok, of 1 flags] False by auto
    ultimately show thesis
      by (intro full) (simp_all add: palloc_get_page_def pool_used_def pool_pages_def add.commute)
  qed
qed

text \<open>Releasing a run of used pages of a pool.\<close>

lemma free_in_pool_ok:
  assumes ok: "pool_ok p" and i: "unat idx + unat cnt \<le> pool_size p" and cnt: "cnt \<noteq> 0"
  shows "if {unat idx..<unat idx + unat cnt} \<subseteq> used_bits (used_map p)
     then \<exists>b. free_in_pool p (base p + PGSIZE * idx) cnt = Inr b \<and> bitmap_ok b
          \<and> bit_cnt b = bit_cnt (used_map p)
          \<and> used_bits b = used_bits (used_map p) - {unat idx..<unat idx + unat cnt}
     else free_in_pool p (base p + PGSIZE * idx) cnt = Inl Assert_failed"
proof -
  have "0 < unat cnt"
    using cnt by (simp add: unat_gt_0)
  then have "unat idx < pool_size p"
    using i by simp
  note pa = page_address [OF ok this]
  have idx: "pg_no (base p + PGSIZE * idx) - pg_no (base p) = idx"
    using pa(2) by (simp add: word_unat_eq_iff unat_sub word_le_nat_alt)
  have bok: "bitmap_ok (used_map p)"
    using ok by (simp add: pool_ok_def)
  have rng: "unat idx + unat cnt \<le> unat (bit_cnt (used_map p))"
    using i by (simp add: pool_size_def)
  have all_used: "bitmap_all (used_map p) idx cnt
      = Inr ({unat idx..<unat idx + unat cnt} \<subseteq> used_bits (used_map p))"
    using bitmap_contains_view [OF bok rng, of False] rng
    by (auto simp: bitmap_all_def used_bits_def)
  obtain b where b: "bitmap_set_multiple (used_map p) idx cnt False = Inr b" "bitmap_ok b"
    "bit_cnt b = bit_cnt (used_map p)"
    "bview b = set_range (bview (used_map p)) (unat idx) (unat idx + unat cnt) False"
    using bitmap_set_multiple_view [OF bok rng] by (rule yieldsE)
  show ?thesis
    using all_used b used_bits_set_range [OF b(3,4) rng] unfolding free_in_pool_def idx by auto
qed

lemma page_from_pool_iff:
  assumes ok: "pool_ok p"
  shows "page_from_pool p a \<longleftrightarrow> unat (pg_no a) \<in> pool_pages p"
proof -
  have "4096 * unat (pg_no (base p)) \<le> unat (base p)"
    by (simp add: unat_pg_no)
  then have "unat (pg_no (base p)) + pool_size p < 2 ^ 32"
    using ok unat_less_size [of "base p"] by (simp add: pool_ok_def)
  then have "unat (pg_no (base p) + bit_cnt (used_map p)) = unat (pg_no (base p)) + pool_size p"
    by (simp add: pool_size_def unat_plus_no_wrap)
  then show ?thesis
    by (auto simp: page_from_pool_def bitmap_size_def pool_pages_def Let_def word_le_nat_alt word_less_nat_alt)
qed

lemma free_multiple_ok:
  assumes ok: "palloc_ok st" and i: "unat idx + unat cnt \<le> pool_size (get_pool flags st)" and cnt: "cnt \<noteq> 0"
  defines "p \<equiv> get_pool flags st"
  defines "a \<equiv> base p + PGSIZE * idx"
  shows "if {unat idx..<unat idx + unat cnt} \<subseteq> used_bits (used_map p)
     then \<exists>st'. palloc_free_multiple st a cnt = Inr st' \<and> palloc_ok st'
          \<and> other_pool flags st' = other_pool flags st
          \<and> base (get_pool flags st') = base p \<and> bit_cnt (used_map (get_pool flags st')) = bit_cnt (used_map p)
          \<and> used_bits (used_map (get_pool flags st')) = used_bits (used_map p) - {unat idx..<unat idx + unat cnt}
          \<and> ram st' = memset (ram st) a 0xcc (unat (PGSIZE * cnt))
     else palloc_free_multiple st a cnt = Inl Assert_failed"
proof -
  have pok: "pool_ok p" and dj: "pool_pages (kernel_pool st) \<inter> pool_pages (user_pool st) = {}"
    and kok: "pool_ok (kernel_pool st)" and uok: "pool_ok (user_pool st)"
    using ok by (simp_all add: palloc_ok_def get_pool_def p_def)
  have "0 < unat cnt"
    using cnt by (simp add: unat_gt_0)
  then have lt: "unat idx < pool_size p"
    using i by (simp add: p_def)
  note pa = page_address [OF pok lt, folded a_def]
  have "unat (pg_no a) \<in> pool_pages p"
    using pa(2) lt by (simp add: pool_pages_def)
  then have sel: "page_from_pool (kernel_pool st) a \<longleftrightarrow> flags AND PAL_USER = 0"
    "flags AND PAL_USER \<noteq> 0 \<Longrightarrow> page_from_pool (user_pool st) a"
    using dj by (auto simp: page_from_pool_iff [OF kok] page_from_pool_iff [OF uok] p_def get_pool_def split: if_splits)
  define st0 where "st0 = st\<lparr>ram := memset (ram st) a 0xcc (unat (PGSIZE * cnt))\<rparr>"
  have res: "palloc_free_multiple st a cnt
      = bnd (free_in_pool p a cnt) (\<lambda>b. Inr (set_pool flags st0 (p\<lparr>used_map := b\<rparr>)))"
    using sel pa(3,5) cnt
    by (auto simp: palloc_free_multiple_def Let_def st0_def p_def get_pool_def set_pool_def)
  have st0: "palloc_ok st0" "get_pool flags st0 = p" "other_pool flags st0 = other_pool flags st"
    "ram st0 = memset (ram st) a 0xcc (unat (PGSIZE * cnt))"
    using ok by (simp_all add: st0_def p_def)
  note free = free_in_pool_ok [OF pok _ cnt, of idx, folded a_def]
  show ?thesis
  proof (cases "{unat idx..<unat idx + unat cnt} \<subseteq> used_bits (used_map p)")
    case True
    then obtain b where b: "free_in_pool p a cnt = Inr b" "bitmap_ok b" "bit_cnt b = bit_cnt (used_map p)"
      "used_bits b = used_bits (used_map p) - {unat idx..<unat idx + unat cnt}"
      using free i unfolding p_def by auto
    have "palloc_ok (set_pool flags st0 (p\<lparr>used_map := b\<rparr>))"
      using set_pool_ok [OF st0(1) b(2), of flags] b(3) st0(2) by simp
    then show ?thesis
      using True res b st0 by simp
  next
    case False
    then show ?thesis
      using free i res unfolding p_def by simp
  qed
qed

section \<open>The allocator as an extent allocator\<close>

text \<open>The behaviour of \<^verbatim>\<open>palloc_get_multiple\<close> and \<^verbatim>\<open>palloc_free_multiple\<close> in terms of page numbers.\<close>

lemma get_multiple_pages:
  fixes flags :: u32
  assumes ok: "palloc_ok st" and cnt: "page_cnt \<noteq> 0"
  defines "p \<equiv> get_pool flags st"
  obtains (served) st' a where "palloc_get_multiple st flags page_cnt = Some (Inr (st', a))" and "palloc_ok st'"
      and "kernel_page a" and "page_run a page_cnt \<subseteq> pool_pages p - pool_used p"
      and "pool_used (get_pool flags st') = pool_used p \<union> page_run a page_cnt"
      and "pool_pages (get_pool flags st') = pool_pages p"
      and "other_pool flags st' = other_pool flags st"
      and "\<And>k. flags AND PAL_ZERO \<noteq> 0 \<Longrightarrow> k < 4096 * unat page_cnt \<Longrightarrow> ram st' (a + of_nat k) = 0"
  | (refused) "palloc_get_multiple st flags page_cnt
       = (if flags AND PAL_ASSERT \<noteq> 0 then Some (Inl Panicked) else Some (Inr (st, 0)))"
      and "\<And>i. i + unat page_cnt \<le> pool_size p \<Longrightarrow> {i..<i + unat page_cnt} \<inter> used_bits (used_map p) \<noteq> {}"
proof (cases "\<exists>i. i + unat page_cnt \<le> pool_size p \<and> {i..<i + unat page_cnt} \<inter> used_bits (used_map p) = {}")
  case True
  then obtain i where i: "i + unat page_cnt \<le> pool_size p" "{i..<i + unat page_cnt} \<inter> used_bits (used_map p) = {}"
    by blast
  obtain st' idx where st': "palloc_get_multiple st flags page_cnt = Some (Inr (st', base p + PGSIZE * idx))"
    "palloc_ok st'" "other_pool flags st' = other_pool flags st"
    "base (get_pool flags st') = base p" "bit_cnt (used_map (get_pool flags st')) = bit_cnt (used_map p)"
    "unat idx + unat page_cnt \<le> pool_size p"
    "{unat idx..<unat idx + unat page_cnt} \<inter> used_bits (used_map p) = {}"
    "used_bits (used_map (get_pool flags st')) =
         used_bits (used_map p) \<union> {unat idx..<unat idx + unat page_cnt}"
    "ram st' = (if flags AND PAL_ZERO \<noteq> 0
          then memset (ram st) (base p + PGSIZE * idx) 0 (4096 * unat page_cnt) else ram st)"
    using get_multiple_hit [OF ok cnt, of i flags] i unfolding p_def by blast
  let ?a = "base p + PGSIZE * idx" and ?b = "unat (pg_no (base p))"
  have pok: "pool_ok p"
    using ok by (simp add: palloc_ok_def get_pool_def p_def)
  have "0 < unat page_cnt"
    using cnt by (simp add: unat_gt_0)
  then have "unat idx < pool_size p"
    using st'(6) by simp
  note pa = page_address [OF pok this]
  have run: "page_run ?a page_cnt = (\<lambda>i. ?b + i) ` {unat idx..<unat idx + unat page_cnt}"
    unfolding pa(2) by (simp add: image_add_atLeastLessThan ac_simps)
  show thesis
  proof (rule served [OF st'(1,2)])
    show "kernel_page ?a"
      using pa(3,4) by (simp add: kernel_page_def)
    have "page_run ?a page_cnt \<inter> pool_used p = {}"
      unfolding run pool_used_def using st'(7) by auto
    moreover have "page_run ?a page_cnt \<subseteq> pool_pages p"
      unfolding run pool_pages_def using st'(6) by auto
    ultimately show "page_run ?a page_cnt \<subseteq> pool_pages p - pool_used p"
      by blast
    show "pool_used (get_pool flags st') = pool_used p \<union> page_run ?a page_cnt"
      unfolding run pool_used_def st'(4) st'(8) by (rule image_Un)
    show "pool_pages (get_pool flags st') = pool_pages p"
      using st'(4,5) by (simp add: pool_pages_def pool_size_def)
    show "ram st' (?a + of_nat k) = 0" if "flags AND PAL_ZERO \<noteq> 0" "k < 4096 * unat page_cnt" for k
    proof -
      have "4096 * unat page_cnt \<le> 2 ^ 32"
        using pok st'(6) by (simp add: pool_ok_def)
      then show ?thesis
        using st'(9) that by (simp add: memset_in del: PGSIZE_eq)
    qed
  qed (rule st'(3))
next
  case False
  then show thesis
    using refused get_multiple_miss [OF ok cnt, of flags] unfolding p_def by blast
qed

text \<open>A run of pages of a pool as bits of its bitmap.\<close>

lemma run_in_pool:
  assumes pok: "pool_ok p" and cnt: "0 < n" and run: "{i..<i + n} \<subseteq> pool_pages p"
  obtains k where "i = unat (pg_no (base p)) + k" and "k + n \<le> pool_size p"
    and "{i..<i + n} \<subseteq> pool_used p \<longleftrightarrow> {k..<k + n} \<subseteq> used_bits (used_map p)"
    and "{i..<i + n} \<inter> pool_used p = {} \<longleftrightarrow> {k..<k + n} \<inter> used_bits (used_map p) = {}"
proof -
  let ?b = "unat (pg_no (base p))"
  have "i \<in> {i..<i + n}" "i + n - 1 \<in> {i..<i + n}"
    using cnt by auto
  then have "i \<in> pool_pages p" "i + n - 1 \<in> pool_pages p"
    using run by blast+
  then have r: "?b \<le> i" "i + n \<le> ?b + pool_size p"
    using cnt unfolding pool_pages_def atLeastLessThan_iff by linarith+
  define k where "k = i - ?b"
  have i: "i = ?b + k" and k: "k + n \<le> pool_size p"
    using r by (simp_all add: k_def)
  have im: "{i..<i + n} = (\<lambda>j. ?b + j) ` {k..<k + n}"
    unfolding i by (simp add: image_add_atLeastLessThan ac_simps)
  have inj: "inj (\<lambda>j. ?b + j)"
    by simp
  show thesis
  proof (rule that [OF i k])
    show "{i..<i + n} \<subseteq> pool_used p \<longleftrightarrow> {k..<k + n} \<subseteq> used_bits (used_map p)"
      unfolding im pool_used_def by (rule inj_image_subset_iff [OF inj])
    show "{i..<i + n} \<inter> pool_used p = {} \<longleftrightarrow> {k..<k + n} \<inter> used_bits (used_map p) = {}"
      unfolding im pool_used_def image_Int [OF inj, symmetric] by simp
  qed
qed

lemma free_multiple_pages:
  fixes flags :: u32
  assumes ok: "palloc_ok st" and cnt: "cnt \<noteq> 0" and a: "pg_ofs a = 0" and run: "page_run a cnt \<subseteq> pool_pages (get_pool flags st)"
  defines "p \<equiv> get_pool flags st"
  shows "if page_run a cnt \<subseteq> pool_used p
       then \<exists>st'. palloc_free_multiple st a cnt = Inr st' \<and> palloc_ok st'
          \<and> pool_used (get_pool flags st') = pool_used p - page_run a cnt
          \<and> pool_pages (get_pool flags st') = pool_pages p
          \<and> other_pool flags st' = other_pool flags st
       else palloc_free_multiple st a cnt = Inl Assert_failed"
proof -
  let ?b = "unat (pg_no (base p))"
  have pok: "pool_ok p"
    using ok by (simp add: palloc_ok_def get_pool_def p_def)
  have pos: "0 < unat cnt"
    using cnt by (simp add: unat_gt_0)
  obtain k where k: "unat (pg_no a) = ?b + k" "k + unat cnt \<le> pool_size p"
    and sub: "page_run a cnt \<subseteq> pool_used p \<longleftrightarrow> {k..<k + unat cnt} \<subseteq> used_bits (used_map p)"
    using run_in_pool [OF pok pos run [folded p_def]] by metis
  define idx where "idx = pg_no a - pg_no (base p)"
  have idx: "unat idx = k"
    using k(1) by (simp add: idx_def unat_sub word_le_nat_alt)
  have i: "unat idx + unat cnt \<le> pool_size p" "unat idx < pool_size p"
    using idx k(2) pos by linarith+
  note pa = page_address [OF pok i(2)]
  have "unat a = 4096 * unat (pg_no a)" "unat (base p) = 4096 * ?b"
    using a pok by (auto simp: unat_pg_no pool_ok_def pg_ofs_zero_iff)
  then have "unat (base p + PGSIZE * idx) = unat a"
    unfolding pa(1) idx k(1) by simp
  then have addr: "a = base p + PGSIZE * idx"
    by (simp add: word_unat_eq_iff)
  have im: "page_run a cnt = (\<lambda>i. ?b + i) ` {unat idx..<unat idx + unat cnt}"
    unfolding k(1) idx by (simp add: image_add_atLeastLessThan ac_simps)
  have diff: "(\<lambda>i. ?b + i) ` (used_bits (used_map p) - {unat idx..<unat idx + unat cnt})
      = pool_used p - page_run a cnt"
    unfolding im pool_used_def by (rule image_set_diff) simp
  note free = free_multiple_ok [OF ok i(1) [unfolded p_def] cnt, folded p_def, folded addr]
  show ?thesis
  proof (cases "page_run a cnt \<subseteq> pool_used p")
    case True
    then have "{unat idx..<unat idx + unat cnt} \<subseteq> used_bits (used_map p)"
      unfolding idx sub .
    then obtain st' where s: "palloc_free_multiple st a cnt = Inr st'" "palloc_ok st'"
      "other_pool flags st' = other_pool flags st" "base (get_pool flags st') = base p"
      "bit_cnt (used_map (get_pool flags st')) = bit_cnt (used_map p)"
      "used_bits (used_map (get_pool flags st')) = used_bits (used_map p) - {unat idx..<unat idx + unat cnt}"
      using free by (simp only: if_True) blast
    have "pool_used (get_pool flags st') = pool_used p - page_run a cnt" "pool_pages (get_pool flags st') = pool_pages p"
      using diff s(4-6) by (simp_all only: pool_used_def pool_pages_def pool_size_def)
    then show ?thesis
      using True s by (simp only: if_True) blast
  next
    case False
    then have "\<not> {unat idx..<unat idx + unat cnt} \<subseteq> used_bits (used_map p)"
      unfolding idx sub .
    then show ?thesis
      using free False by (simp only: if_False)
  qed
qed

text \<open>Requests are pairs of flags and page counts; units are page numbers, and those in use are the used pages of both pools.\<close>

definition page_alloc :: "palloc \<Rightarrow> u32 \<times> u32 \<Rightarrow> (palloc \<times> nat option) run" where
  "page_alloc st q =
     andThen (palloc_get_multiple st (fst q) (snd q)) (\<lambda>(st, a). Some (Inr (st, if a \<noteq> 0 then Some (unat (pg_no a)) else None)))"

definition page_release :: "palloc \<Rightarrow> nat \<Rightarrow> nat \<Rightarrow> palloc run" where
  "page_release st i n = Some (palloc_free_multiple st (of_nat (4096 * i)) (of_nat n))"

definition pages_used :: "palloc \<Rightarrow> nat set" where
  "pages_used st = pool_used (kernel_pool st) \<union> pool_used (user_pool st)"

definition run_in :: "palloc \<Rightarrow> u32 \<times> u32 \<Rightarrow> nat \<Rightarrow> bool" where
  "run_in st q i \<longleftrightarrow> {i..<i + unat (snd q)} \<subseteq> pool_pages (get_pool (fst q) st)"

lemma pool_used_sub: "pool_used p \<subseteq> pool_pages p"
  by (auto simp: pool_used_def pool_pages_def pool_size_def used_bits_def)

lemma pages_used_pools: "pages_used st = pool_used (get_pool flags st) \<union> pool_used (other_pool flags st)"
  by (auto simp: pages_used_def get_pool_def other_pool_def)

lemma other_pool_apart:
  "palloc_ok st \<Longrightarrow> A \<subseteq> pool_pages (get_pool flags st) \<Longrightarrow> A \<inter> pool_used (other_pool flags st) = {}"
  using pool_used_sub [of "other_pool flags st"] by (auto simp: palloc_ok_def get_pool_def other_pool_def split: if_splits)

lemma run_in_kept:
  assumes "other_pool flags st' = other_pool flags st" and "pool_pages (get_pool flags st') = pool_pages (get_pool flags st)"
  shows "run_in st' = run_in st"
  using assms by (auto simp: fun_eq_iff run_in_def get_pool_def other_pool_def split: if_splits)

lemma page_alloc_law:
  assumes ok: "palloc_ok st" and fl: "fst q AND PAL_ASSERT = 0"
  shows "\<exists>st' got. page_alloc st q = Some (Inr (st', got)) \<and> palloc_ok st' \<and> run_in st' = run_in st
      \<and> (case got of
           Some i \<Rightarrow> run_in st q i \<and> {i..<i + unat (snd q)} \<inter> pages_used st = {} \<and> pages_used st' = pages_used st \<union> {i..<i + unat (snd q)}
         | None \<Rightarrow> pages_used st' = pages_used st
             \<and> (0 < unat (snd q) \<longrightarrow> (\<forall>i. run_in st q i \<longrightarrow> {i..<i + unat (snd q)} \<inter> pages_used st \<noteq> {})))"
proof (cases "snd q = 0")
  case True
  then show ?thesis
    using ok by (simp add: page_alloc_def palloc_get_multiple_def Let_def)
next
  case False
  note used = pages_used_pools [of _ "fst q"] and apart = other_pool_apart [OF ok, of _ "fst q"]
  from ok False show ?thesis
  proof (cases rule: get_multiple_pages [where flags = "fst q"])
    case (served st' a)
    let ?R = "page_run a (snd q)"
    have "a \<noteq> 0"
      using served(3) by (auto simp: kernel_page_def PHYS_BASE_def)
    then have "page_alloc st q = Some (Inr (st', Some (unat (pg_no a))))"
      using served(1) by (simp add: page_alloc_def)
    moreover have "?R \<inter> pages_used st = {}"
      using served(4) apart [of ?R] unfolding used by blast
    moreover have "pages_used st' = pages_used st \<union> ?R"
      unfolding used served(5,7) by blast
    ultimately show ?thesis
      using served(2,4) run_in_kept [OF served(7,6)] by (auto simp: run_in_def)
  next
    case refused
    have "{i..<i + unat (snd q)} \<inter> pages_used st \<noteq> {}" if r: "run_in st q i" "0 < unat (snd q)" for i
    proof -
      have pok: "pool_ok (get_pool (fst q) st)"
        using ok by (simp add: palloc_ok_def get_pool_def)
      obtain k where "k + unat (snd q) \<le> pool_size (get_pool (fst q) st)"
        "{i..<i + unat (snd q)} \<inter> pool_used (get_pool (fst q) st) = {} \<longleftrightarrow>
          {k..<k + unat (snd q)} \<inter> used_bits (used_map (get_pool (fst q) st)) = {}"
        using run_in_pool [OF pok r(2) r(1) [unfolded run_in_def]] by metis
      then show ?thesis
        using refused(2) [of k] unfolding used by blast
    qed
    moreover have "page_alloc st q = Some (Inr (st, None))"
      using refused(1) fl by (simp add: page_alloc_def)
    ultimately show ?thesis
      using ok by simp
  qed
qed

lemma page_release_law:
  assumes ok: "palloc_ok st" and i: "run_in st q i" and u: "{i..<i + unat (snd q)} \<subseteq> pages_used st"
  shows "\<exists>st'. page_release st i (unat (snd q)) = Some (Inr st') \<and> palloc_ok st' \<and> run_in st' = run_in st
     \<and> pages_used st' = pages_used st - {i..<i + unat (snd q)}"
proof (cases "snd q = 0")
  case True
  have "of_nat (4096 * i) = push_bit 12 (of_nat i :: u32)"
    by (simp add: push_bit_eq_mult)
  then have "take_bit 12 (of_nat (4096 * i) :: u32) = 0"
    by (simp only: take_bit_push_bit) simp
  then have "page_release st i (unat (snd q)) = Some (Inr st)"
    using True by (simp add: page_release_def palloc_free_multiple_def pg_ofs_take_bit del: of_nat_mult)
  then show ?thesis
    using ok True by simp
next
  case False
  let ?p = "get_pool (fst q) st" and ?a = "of_nat (4096 * i) :: u32"
  have pos: "0 < unat (snd q)"
    using False by (simp add: unat_gt_0)
  have "pool_ok ?p"
    using ok by (simp add: palloc_ok_def get_pool_def)
  then obtain k where "i = unat (pg_no (base ?p)) + k" "k < pool_size ?p"
    using run_in_pool [OF _ pos i [unfolded run_in_def]] pos by (metis add_gr_0 less_le_trans less_add_same_cancel1)
  moreover have "4096 * unat (pg_no (base ?p)) \<le> unat (base ?p)"
    by (simp add: unat_pg_no)
  moreover have "unat (base ?p) + 4096 * pool_size ?p \<le> 2 ^ 32"
    using \<open>pool_ok ?p\<close> by (simp add: pool_ok_def)
  ultimately have "4096 * i < 2 ^ 32"
    by linarith
  then have ua: "unat ?a = 4096 * i"
    by (simp only: unat_of_nat) simp
  have a: "pg_ofs ?a = 0" "unat (pg_no ?a) = i"
    unfolding pg_ofs_zero_iff unat_pg_no ua by simp_all
  note used = pages_used_pools [of _ "fst q"] and apart = other_pool_apart [OF ok, of _ "fst q"]
  have run: "page_run ?a (snd q) \<subseteq> pool_pages ?p"
    using i unfolding a(2) run_in_def .
  then have "page_run ?a (snd q) \<subseteq> pool_used ?p"
    using u apart [OF run] unfolding used a(2) by blast
  then obtain st' where s: "palloc_free_multiple st ?a (snd q) = Inr st'" "palloc_ok st'"
    "pool_used (get_pool (fst q) st') = pool_used ?p - page_run ?a (snd q)" "pool_pages (get_pool (fst q) st') = pool_pages ?p"
    "other_pool (fst q) st' = other_pool (fst q) st"
    using free_multiple_pages [OF ok False a(1) run] by (simp only: if_True) blast
  have "pages_used st' = pages_used st - {i..<i + unat (snd q)}"
    using apart [OF run] unfolding used s(3,5) a(2) by blast
  then show ?thesis
    using s run_in_kept [OF s(5,4)] by (simp add: page_release_def)
qed

interpretation page_pools: extent_allocator palloc_ok "\<lambda>q. unat (snd q)" "\<lambda>q. fst q AND PAL_ASSERT = 0" run_in pages_used
  page_alloc page_release
  by unfold_locales (simp_all only: page_alloc_law page_release_law)

section \<open>Initialisation\<close>

text \<open>The number of pages that the bitmap of a pool takes at the base of its memory.\<close>

definition bitmap_pages :: "nat \<Rightarrow> nat" where
  "bitmap_pages n = (8 + 4 * ((n + 31) div 32) + 4095) div 4096"

lemma bitmap_pages_bound:
  assumes n: "2 \<le> unat n" "unat n \<le> 2 ^ 18"
  shows "unat (DIV_ROUND_UP (bitmap_buf_size n) PGSIZE) = (8 + 4 * ((unat n + 31) div 32) + 4095) div 4096"
    and "unat (DIV_ROUND_UP (bitmap_buf_size n) PGSIZE) < unat n"
    and "unat (DIV_ROUND_UP (bitmap_buf_size n) PGSIZE) \<le> 9"
    and "unat (bitmap_buf_size n) \<le> 4096 * unat (DIV_ROUND_UP (bitmap_buf_size n) PGSIZE)"
proof -
  let ?c = "(unat n + 31) div 32"
  have c: "?c \<le> 2 ^ 13" "?c \<le> unat n"
    using n by simp_all
  have buf: "unat (bitmap_buf_size n) = 8 + 4 * ?c"
    unfolding bitmap_buf_size_def
    by (subst unat_plus_no_wrap) (use n c in \<open>simp_all add: unat_byte_cnt\<close>)
  show eq: "unat (DIV_ROUND_UP (bitmap_buf_size n) PGSIZE) = (8 + 4 * ?c + 4095) div 4096"
    using c buf by (simp add: unat_DIV_ROUND_UP)
  show "unat (DIV_ROUND_UP (bitmap_buf_size n) PGSIZE) < unat n"
    unfolding eq using c(2) n(1) by (intro less_mult_imp_div_less) linarith
  show "unat (DIV_ROUND_UP (bitmap_buf_size n) PGSIZE) \<le> 9"
    unfolding eq using c(1) by (intro less_Suc_eq_le [THEN iffD1] less_mult_imp_div_less) simp
  show "unat (bitmap_buf_size n) \<le> 4096 * unat (DIV_ROUND_UP (bitmap_buf_size n) PGSIZE)"
    unfolding eq buf by linarith
qed

lemma buf_size_mono: "unat m \<le> unat n \<Longrightarrow> unat n \<le> 2 ^ 18 \<Longrightarrow> bitmap_buf_size m \<le> bitmap_buf_size n"
proof -
  assume a: "unat m \<le> unat n" "unat n \<le> 2 ^ 18"
  have "unat (bitmap_buf_size k) = 8 + 4 * ((unat k + 31) div 32)" if "unat k \<le> 2 ^ 18" for k
    unfolding bitmap_buf_size_def
    by (subst unat_plus_no_wrap) (use that in \<open>simp_all add: unat_byte_cnt\<close>)
  then show ?thesis
    using a by (simp add: word_le_nat_alt div_le_mono)
qed

lemma init_pool_ok:
  assumes n: "2 \<le> unat n" "unat n \<le> 2 ^ 18" and start: "pg_ofs start = 0" "PHYS_BASE \<le> start"
    and room: "unat start + 4096 * unat n \<le> 2 ^ 32" and block: "9 * 1024 \<le> length block"
  shows "\<exists>p. init_pool block start n = Inr p \<and> pool_ok p \<and> used_bits (used_map p) = {}
     \<and> pool_pages p = {unat (pg_no start) + bitmap_pages (unat n)..<unat (pg_no start) + unat n} \<and> bitmap_pages (unat n) \<le> 9"
proof -
  define bm where "bm = DIV_ROUND_UP (bitmap_buf_size n) PGSIZE"
  note b = bitmap_pages_bound [OF n, folded bm_def]
  have sub: "unat (n - bm) = unat n - unat bm"
    using b(2) by (simp add: unat_sub word_le_nat_alt)
  have sz: "unat (bm * PGSIZE) = 4096 * unat bm"
    using b(3) unat_mult_lem [of bm 4096] by simp
  have "bitmap_buf_size (n - bm) \<le> bitmap_buf_size n"
    using n(2) sub by (intro buf_size_mono) simp_all
  also have "\<dots> \<le> bm * PGSIZE"
    using b(4) sz by (simp add: word_le_nat_alt del: PGSIZE_eq)
  finally obtain m where m: "bitmap_create_in_buf (n - bm) block (bm * PGSIZE) = Inr m" "bitmap_ok m"
    "bit_cnt m = n - bm" "bview m = replicate (unat (n - bm)) False"
    using bitmap_create_in_buf_ok [of "n - bm" "bm * PGSIZE" block] sub n(2) sz b(3) block
    by (force simp del: PGSIZE_eq)
  let ?p = "\<lparr>used_map = m, base = start + bm * PGSIZE\<rparr>"
  have res: "init_pool block start n = Inr ?p"
    using m(1) b(2) by (simp add: init_pool_def Let_def bm_def [symmetric] word_less_nat_alt del: PGSIZE_eq)
  have u: "unat (start + bm * PGSIZE) = unat start + 4096 * unat bm"
    using room sz b(2) unat_plus_no_wrap [of start "bm * PGSIZE"] by (simp del: PGSIZE_eq)
  have pg: "unat (pg_no (start + bm * PGSIZE)) = unat (pg_no start) + unat bm"
    unfolding unat_pg_no u by simp
  have "pg_ofs (start + bm * PGSIZE) = 0"
    using start(1) unfolding pg_ofs_zero_iff u by simp
  moreover have "PHYS_BASE \<le> start + bm * PGSIZE"
    using start(2) unfolding word_le_nat_alt u by simp
  ultimately have "pool_ok ?p"
    using m room u sub b(2) by (simp add: pool_ok_def pool_size_def del: PGSIZE_eq)
  moreover have "pool_pages ?p = {unat (pg_no start) + bitmap_pages (unat n)..<unat (pg_no start) + unat n}"
    using b(1,2) m(3) sub pg by (simp add: pool_pages_def pool_size_def bitmap_pages_def del: PGSIZE_eq)
  moreover have "used_bits m = {}"
    using m(3,4) by (simp add: used_bits_def)
  ultimately show ?thesis
    using res b(1,3) by (simp add: bitmap_pages_def)
qed

lemma sint_small:
  assumes "unat d < 2 ^ 31"
  shows "sint (d :: u32) = int (unat d)"
proof -
  have "int (unat d) < int (2 ^ 31)"
    using assms by (rule of_nat_less_iff [THEN iffD2])
  then have lt: "int (unat d) < 2 ^ 31"
    unfolding of_nat_power of_nat_numeral .
  have "sint d = signed_take_bit 31 (int (unat d))"
    by (simp add: sint_uint)
  also have "\<dots> = int (unat d)"
    by (rule signed_take_bit_int_eq_self [OF _ lt]) (rule order_trans [OF _ of_nat_0_le_iff], simp)
  finally show ?thesis .
qed

lemma sdiv_page: "(4096 * int k) sdiv 4096 = int k"
  by (cases "k = 0") (simp_all add: signed_divide_int_def sgn_mult)

lemma palloc_init_ok:
  assumes ram: "260 \<le> unat init_ram_pages" "unat init_ram_pages \<le> 2 ^ 18" and limit: "2 \<le> unat user_page_limit"
    and blocks: "9 * 1024 \<le> length kblock" "9 * 1024 \<le> length ublock"
  defines "u \<equiv> min (unat user_page_limit) ((unat init_ram_pages - 256) div 2)"
  defines "k \<equiv> unat init_ram_pages - 256 - u"
  shows "\<exists>st. palloc_init kblock ublock m init_ram_pages user_page_limit = Inr st \<and> palloc_ok st
     \<and> used_bits (used_map (kernel_pool st)) = {} \<and> used_bits (used_map (user_pool st)) = {} \<and> ram st = m
     \<and> pool_pages (kernel_pool st) = {0xc0100 + bitmap_pages k..<0xc0100 + k}
     \<and> pool_pages (user_pool st) = {0xc0100 + k + bitmap_pages u..<0xc0000 + unat init_ram_pages}
     \<and> bitmap_pages k \<le> 9 \<and> bitmap_pages u \<le> 9"
proof -
  let ?r = "unat init_ram_pages"
  let ?fs = "0xc0100000 :: addr" and ?fe = "init_ram_pages * PGSIZE + PHYS_BASE"
  have m: "unat (init_ram_pages * PGSIZE) = 4096 * ?r"
    using ram(2) unat_mult_lem [of init_ram_pages 4096] by simp
  then have fe: "ptov (init_ram_pages * PGSIZE) = Inr ?fe"
    using ram(2) by (simp add: ptov_def PHYS_BASE_def word_less_nat_alt del: PGSIZE_eq)
  have fs: "ptov (1024 * 1024) = Inr ?fs"
    by (simp add: ptov_def PHYS_BASE_def)
  have "?fe - ?fs = init_ram_pages * PGSIZE - 0x100000"
    by (simp add: PHYS_BASE_def)
  moreover have "unat (init_ram_pages * PGSIZE - 0x100000) = 4096 * (?r - 256)"
    using m ram(1) by (subst unat_sub) (simp_all add: word_le_nat_alt del: PGSIZE_eq)
  ultimately have diff: "unat (?fe - ?fs) = 4096 * (?r - 256)"
    by (simp only:)
  then have "sint (?fe - ?fs) = 4096 * int (?r - 256)"
    using ram(2) by (subst sint_small) simp_all
  then have "sint (?fe - ?fs) sdiv 4096 = int (?r - 256)"
    by (simp only: sdiv_page)
  then have fp: "of_int (sint (?fe - ?fs) sdiv 4096) = (of_nat (?r - 256) :: u32)"
    by simp
  define free where "free = (of_nat (?r - 256) :: u32)"
  have free: "unat free = ?r - 256"
    using ram(2) by (simp add: free_def unat_of_nat)
  define up where "up = (if free div 2 > user_page_limit then user_page_limit else free div 2)"
  have u: "unat up = u"
    using free by (auto simp: up_def u_def unat_div word_less_nat_alt)
  then have up: "2 \<le> unat up" "unat up \<le> (?r - 256) div 2"
    using limit ram(1) by (auto simp: u_def)
  define kp where "kp = free - up"
  have kp: "unat kp = ?r - 256 - unat up"
    using up free by (simp add: kp_def unat_sub word_le_nat_alt)
  then have k: "unat kp = k"
    using u by (simp add: k_def)
  have pg: "unat (pg_no ?fs) = 0xc0100"
    by (simp add: unat_pg_no)
  obtain kpool where kl: "init_pool kblock ?fs kp = Inr kpool" "pool_ok kpool" "used_bits (used_map kpool) = {}"
    "pool_pages kpool = {0xc0100 + bitmap_pages k..<0xc0100 + k}" "bitmap_pages k \<le> 9"
    using init_pool_ok [of kp ?fs kblock] kp up ram blocks unfolding k pg
    by (fastforce simp: pg_ofs_take_bit PHYS_BASE_def)
  have kpm: "unat (kp * PGSIZE) = 4096 * unat kp"
  proof -
    have "unat kp < 1048576"
      using kp ram(2) by simp
    then show ?thesis
      using unat_mult_lem [of kp 4096] by (simp add: mult.commute)
  qed
  have us: "unat (?fs + kp * PGSIZE) = 0xc0100000 + 4096 * unat kp"
    using kpm kp ram up by (subst unat_plus_no_wrap) (simp_all del: PGSIZE_eq)
  have usp: "unat (pg_no (?fs + kp * PGSIZE)) = unat (pg_no ?fs) + unat kp"
    unfolding unat_pg_no us by simp
  have ofs: "pg_ofs (?fs + kp * PGSIZE) = 0" "PHYS_BASE \<le> ?fs + kp * PGSIZE"
    unfolding pg_ofs_zero_iff word_le_nat_alt us by (simp_all add: PHYS_BASE_def mod_add_eq [symmetric])
  obtain upool where ul: "init_pool ublock (?fs + kp * PGSIZE) up = Inr upool" "pool_ok upool"
    "used_bits (used_map upool) = {}" "pool_pages upool = {0xc0100 + k + bitmap_pages u..<0xc0100 + k + u}" "bitmap_pages u \<le> 9"
    using init_pool_ok [of up "?fs + kp * PGSIZE" ublock] kp up ram blocks us usp ofs unfolding k u pg
    by (fastforce simp del: PGSIZE_eq)
  have e: "0xc0100 + k + u = 0xc0000 + unat init_ram_pages"
    using ram(1) up(2) u by (simp add: k_def)
  have "pool_pages kpool \<inter> pool_pages upool = {}"
    unfolding kl(4) ul(4) by fastforce
  moreover have "palloc_init kblock ublock m init_ram_pages user_page_limit
      = Inr \<lparr>kernel_pool = kpool, user_pool = upool, ram = m\<rparr>"
    unfolding palloc_init_def fs fe bnd_Inr Let_def fp
    using kl(1) ul(1) unfolding kp_def up_def free_def by (simp del: PGSIZE_eq)
  ultimately show ?thesis
    using kl ul [unfolded e] by (simp add: palloc_ok_def)
qed

section \<open>Properties\<close>

text \<open>A small allocator whose kernel pool has the bitmap \<open>w\<close>.\<close>

definition demo_pools :: "u32 \<Rightarrow> palloc" where
  "demo_pools w =
     \<lparr>kernel_pool = \<lparr>used_map = \<lparr>bit_cnt = 4, bits = [w]\<rparr>, base = 0xc0101000\<rparr>,
      user_pool = \<lparr>used_map = \<lparr>bit_cnt = 2, bits = [0b01]\<rparr>, base = 0xc0200000\<rparr>, ram = (\<lambda>_. 7)\<rparr>"

definition demo_palloc :: palloc where
  "demo_palloc = demo_pools 0b0101"

lemma demo_pools_ok: "palloc_ok (demo_pools w)"
proof -
  have "bitmap_ok \<lparr>bit_cnt = 4, bits = [w]\<rparr>" "bitmap_ok \<lparr>bit_cnt = 2, bits = [0b01]\<rparr>"
    by (simp_all add: bitmap_ok_def unat_elem_cnt)
  moreover have "pg_ofs 0xc0101000 = 0" "pg_ofs 0xc0200000 = 0"
    by (simp_all add: pg_ofs_take_bit)
  ultimately show ?thesis
    by (auto simp: demo_pools_def palloc_ok_def pool_ok_def pool_pages_def pool_size_def unat_pg_no
        PHYS_BASE_def)
qed

lemma demo_palloc_ok: "palloc_ok demo_palloc"
  unfolding demo_palloc_def by (rule demo_pools_ok)

lemma demo_used:
  "used_bits (used_map (kernel_pool demo_palloc)) = {0, 2}"
  "used_bits (used_map (user_pool demo_palloc)) = {0}"
proof -
  have k: "bview \<lparr>bit_cnt = 4, bits = [0b0101]\<rparr> = [True, False, True, False]"
    by code_simp
  have "{i. i < 4 \<and> [True, False, True, False] ! i} = {0, 2 :: nat}"
    by (auto simp: less_Suc_eq numeral_eq_Suc)
  then show "used_bits (used_map (kernel_pool demo_palloc)) = {0, 2}"
    using k by (simp add: used_bits_def demo_palloc_def demo_pools_def)
  have u: "bview \<lparr>bit_cnt = 2, bits = [0b01]\<rparr> = [True, False]"
    by code_simp
  have "{i. i < 2 \<and> [True, False] ! i} = {0 :: nat}"
    by (auto simp: less_Suc_eq numeral_eq_Suc)
  then show "used_bits (used_map (user_pool demo_palloc)) = {0}"
    using u by (simp add: used_bits_def demo_palloc_def demo_pools_def)
qed

text \<open>C24: \<^verbatim>\<open>palloc_get_multiple\<close> on a well-formed allocator. If the pool selected by the flags has a
  run of \<^verbatim>\<open>page_cnt\<close> free pages, it returns the page-aligned kernel address of such a run, marks
  exactly these pages as used, touches no other pool, and with \<^verbatim>\<open>PAL_ZERO\<close> every byte of the run is
  zero afterwards. If there is none it panics under \<^verbatim>\<open>PAL_ASSERT\<close> and otherwise returns a null
  pointer and changes nothing.\<close>

theorem palloc_get_multiple_correct:
  fixes flags :: u32
  assumes ok: "palloc_ok st" and cnt: "page_cnt \<noteq> 0"
  defines "p \<equiv> get_pool flags st"
  shows "if \<exists>i. i + unat page_cnt \<le> pool_size p \<and> {i..<i + unat page_cnt} \<inter> used_bits (used_map p) = {}
     then \<exists>st' a. palloc_get_multiple st flags page_cnt = Some (Inr (st', a)) \<and> palloc_ok st'
       \<and> pg_ofs a = 0 \<and> is_kernel_vaddr a
       \<and> page_run a page_cnt \<subseteq> pool_pages p - pool_used p
       \<and> pool_used (get_pool flags st') = pool_used p \<union> page_run a page_cnt
       \<and> other_pool flags st' = other_pool flags st
       \<and> (flags AND PAL_ZERO = 0 \<or> (\<forall>k < 4096 * unat page_cnt. ram st' (a + of_nat k) = 0))
     else palloc_get_multiple st flags page_cnt
       = (if flags AND PAL_ASSERT \<noteq> 0 then Some (Inl Panicked) else Some (Inr (st, 0)))"
proof -
  have pok: "pool_ok p" and pos: "0 < unat page_cnt"
    using ok cnt by (simp_all add: palloc_ok_def get_pool_def p_def unat_gt_0)
  from ok cnt show ?thesis
  proof (cases rule: get_multiple_pages [where flags = flags])
    case (served st' a)
    then have "page_run a page_cnt \<subseteq> pool_pages p" "page_run a page_cnt \<inter> pool_used p = {}"
      unfolding p_def by blast+
    then have "\<exists>i. i + unat page_cnt \<le> pool_size p \<and> {i..<i + unat page_cnt} \<inter> used_bits (used_map p) = {}"
      using run_in_pool [OF pok pos, of "unat (pg_no a)"] by metis
    then show ?thesis
      using served unfolding p_def kernel_page_def is_kernel_vaddr_def by (simp only: if_True) blast
  next
    case refused
    then show ?thesis
      unfolding p_def by auto
  qed
qed

theorem palloc_get_multiple_correct_witness:
  "\<exists>st' a. palloc_get_multiple demo_palloc PAL_ZERO 1 = Some (Inr (st', a)) \<and> ram st' a = 0
     \<and> palloc_get_multiple demo_palloc PAL_USER 2 = Some (Inr (demo_palloc, 0))"
proof -
  have gp: "get_pool PAL_ZERO demo_palloc = kernel_pool demo_palloc"
    "get_pool PAL_USER demo_palloc = user_pool demo_palloc"
    by (simp_all add: get_pool_def PAL_ZERO_def PAL_USER_def)
  have sz: "pool_size (kernel_pool demo_palloc) = 4" "pool_size (user_pool demo_palloc) = 2"
    by (simp_all add: pool_size_def demo_palloc_def demo_pools_def)
  have "\<exists>i. i + unat (1 :: u32) \<le> 4 \<and> {i..<i + unat (1 :: u32)} \<inter> {0, 2} = {}"
    by (rule exI [of _ 1]) auto
  then obtain st' a where "palloc_get_multiple demo_palloc PAL_ZERO 1 = Some (Inr (st', a))"
    "\<forall>k < 4096 * unat (1 :: u32). ram st' (a + of_nat k) = 0"
    using palloc_get_multiple_correct [OF demo_palloc_ok, of 1 PAL_ZERO] gp sz demo_used
    by (auto simp: PAL_ZERO_def)
  moreover have "\<not> (\<exists>i. i + unat (2 :: u32) \<le> 2 \<and> {i..<i + unat (2 :: u32)} \<inter> {0} = {})"
    by auto
  then have "palloc_get_multiple demo_palloc PAL_USER 2 = Some (Inr (demo_palloc, 0))"
    using palloc_get_multiple_correct [OF demo_palloc_ok, of 2 PAL_USER] gp sz demo_used
    by (simp add: PAL_USER_def PAL_ASSERT_def)
  ultimately show ?thesis
    by (auto dest: spec [of _ 0])
qed

text \<open>C25: \<^verbatim>\<open>palloc_free_multiple\<close> on a run of pages within one pool of a well-formed allocator: if all
  of the pages are in use it frees exactly them and overwrites them; if some page is not in use (a
  double free) the assertion on the bitmap fails. An address that is not page-aligned fails an
  assertion, and a page of no pool is unreachable code.\<close>

theorem palloc_free_multiple_correct:
  fixes flags :: u32
  assumes ok: "palloc_ok st" and cnt: "cnt \<noteq> 0"
  defines "p \<equiv> get_pool flags st"
  shows "(pg_ofs a = 0 \<and> page_run a cnt \<subseteq> pool_pages p \<longrightarrow>
      (if page_run a cnt \<subseteq> pool_used p
       then \<exists>st'. palloc_free_multiple st a cnt = Inr st' \<and> palloc_ok st'
          \<and> pool_used (get_pool flags st') = pool_used p - page_run a cnt
          \<and> other_pool flags st' = other_pool flags st
       else palloc_free_multiple st a cnt = Inl Assert_failed))
    \<and> (pg_ofs a \<noteq> 0 \<longrightarrow> palloc_free_multiple st a cnt = Inl Assert_failed)
    \<and> (pg_ofs a = 0 \<and> a \<noteq> 0 \<and> unat (pg_no a) \<notin> pool_pages (kernel_pool st) \<union> pool_pages (user_pool st) \<longrightarrow>
        palloc_free_multiple st a cnt = Inl Unreachable)"
proof (intro conjI impI)
  assume a: "pg_ofs a = 0 \<and> page_run a cnt \<subseteq> pool_pages p"
  show "if page_run a cnt \<subseteq> pool_used p
       then \<exists>st'. palloc_free_multiple st a cnt = Inr st' \<and> palloc_ok st'
          \<and> pool_used (get_pool flags st') = pool_used p - page_run a cnt
          \<and> other_pool flags st' = other_pool flags st
       else palloc_free_multiple st a cnt = Inl Assert_failed"
    using free_multiple_pages [OF ok cnt, of a flags] a unfolding p_def by (auto split: if_splits)
next
  assume "pg_ofs a \<noteq> 0"
  then show "palloc_free_multiple st a cnt = Inl Assert_failed"
    by (simp add: palloc_free_multiple_def)
next
  assume "pg_ofs a = 0 \<and> a \<noteq> 0 \<and> unat (pg_no a) \<notin> pool_pages (kernel_pool st) \<union> pool_pages (user_pool st)"
  then show "palloc_free_multiple st a cnt = Inl Unreachable"
    using ok cnt by (simp add: palloc_free_multiple_def page_from_pool_iff palloc_ok_def Let_def)
qed

theorem palloc_free_multiple_correct_witness:
  "(\<exists>st'. palloc_free_multiple demo_palloc 0xc0103000 1 = Inr st')
     \<and> palloc_free_multiple demo_palloc 0xc0102000 1 = Inl Assert_failed"
proof -
  have gp: "get_pool 0 demo_palloc = kernel_pool demo_palloc"
    by (simp add: get_pool_def)
  have b: "unat (pg_no (base (kernel_pool demo_palloc))) = 0xc0101"
    by (simp add: demo_palloc_def demo_pools_def unat_pg_no)
  have pg: "pool_pages (kernel_pool demo_palloc) = {0xc0101..<0xc0105}"
    unfolding pool_pages_def b by (simp add: pool_size_def demo_palloc_def demo_pools_def)
  have us: "pool_used (kernel_pool demo_palloc) = {0xc0101, 0xc0103}"
    unfolding pool_used_def b demo_used by simp
  have "pg_ofs 0xc0103000 = 0" "pg_ofs 0xc0102000 = 0" "unat (pg_no 0xc0103000) = 0xc0103"
    "unat (pg_no 0xc0102000) = 0xc0102"
    by (simp_all add: pg_ofs_take_bit unat_pg_no)
  moreover have "{0xc0103..<0xc0104} \<subseteq> {0xc0101, 0xc0103 :: nat}" "{0xc0103..<0xc0104} \<subseteq> {0xc0101..<0xc0105 :: nat}"
    "0xc0102 \<in> {0xc0102..<0xc0103 :: nat}" "{0xc0102..<0xc0103} \<subseteq> {0xc0101..<0xc0105 :: nat}"
    by auto
  moreover have "0xc0102 \<notin> {0xc0101, 0xc0103 :: nat}"
    by simp
  moreover from this and \<open>0xc0102 \<in> {0xc0102..<0xc0103 :: nat}\<close>
  have "\<not> {0xc0102..<0xc0103} \<subseteq> {0xc0101, 0xc0103 :: nat}"
    by blast
  ultimately show ?thesis
    using palloc_free_multiple_correct [OF demo_palloc_ok, of 1 "0xc0103000" 0]
      palloc_free_multiple_correct [OF demo_palloc_ok, of 1 "0xc0102000" 0] gp pg us
    by auto
qed

text \<open>C5: Whatever sequence of page allocations, from either pool and of any size, and releases a client makes, starting from any
  well-formed allocator, the allocator serves it without an assertion failure or an endless loop. The runs of pages
  the client holds lie in the pool their flags name, never overlap each other or the pages in use before, and the pages
  the allocator counts as used are exactly those and the client's. In the resulting state an allocation succeeds
  whenever its pool has enough free pages in a row. Requests with \<^verbatim>\<open>PAL_ASSERT\<close>, which panic when they cannot be
  served, are left out.\<close>

theorem palloc_no_overlap:
  assumes "palloc_ok st" and "\<forall>q. Take q \<in> set rs \<longrightarrow> fst q AND PAL_ASSERT = 0"
  shows "\<exists>st' live. serve (\<lambda>q. unat (snd q)) page_alloc page_release st [] rs = Some (Inr (st', live)) \<and> palloc_ok st'
     \<and> partitioned (\<lambda>q. unat (snd q)) (\<lambda>q i. {i..<i + unat (snd q)} \<subseteq> pool_pages (get_pool (fst q) st)) (pages_used st) (pages_used st') live
     \<and> (\<forall>q i. fst q AND PAL_ASSERT = 0 \<and> snd q \<noteq> 0 \<and> {i..<i + unat (snd q)} \<subseteq> pool_pages (get_pool (fst q) st) - pages_used st' \<longrightarrow>
          (\<exists>st'' j. page_alloc st' q = Some (Inr (st'', Some j))))"
proof -
  obtain st' live where s: "serve (\<lambda>q. unat (snd q)) page_alloc page_release st [] rs = Some (Inr (st', live))" "palloc_ok st'"
    "run_in st' = run_in st" "partitioned (\<lambda>q. unat (snd q)) (run_in st) (pages_used st) (pages_used st') live"
    using page_pools.serve_partitioned [OF assms(1), of "pages_used st" "[]" rs] assms(2) by auto
  have r: "run_in st = (\<lambda>q i. {i..<i + unat (snd q)} \<subseteq> pool_pages (get_pool (fst q) st))"
    by (simp add: fun_eq_iff run_in_def)
  have "\<exists>st'' j. page_alloc st' q = Some (Inr (st'', Some j))"
    if "fst q AND PAL_ASSERT = 0" "snd q \<noteq> 0" "{i..<i + unat (snd q)} \<subseteq> pool_pages (get_pool (fst q) st) - pages_used st'" for q i
  proof (rule page_pools.fitting_served [OF s(2) that(1)])
    show "0 < unat (snd q)"
      using that(2) by (simp add: unat_gt_0)
    show "run_in st' q i" "units (\<lambda>q. unat (snd q)) (q, i) \<inter> pages_used st' = {}"
      using that(3) unfolding s(3) r units_def fst_conv snd_conv by blast+
  qed
  then show ?thesis
    using s(1,2) s(4) [unfolded r] by blast
qed

theorem palloc_no_overlap_witness:
  "\<exists>st' live. serve (\<lambda>q. unat (snd q)) page_alloc page_release demo_palloc []
       [Take (PAL_ZERO, 1), Take (PAL_USER, 3), Take (PAL_USER, 1), Give 0, Take (0, 1)] = Some (Inr (st', live))
     \<and> partitioned (\<lambda>q. unat (snd q)) (\<lambda>q i. {i..<i + unat (snd q)} \<subseteq> pool_pages (get_pool (fst q) demo_palloc))
         (pages_used demo_palloc) (pages_used st') live"
proof -
  have "\<forall>q. Take q \<in> set [Take (PAL_ZERO, 1), Take (PAL_USER, 3), Take (PAL_USER, 1), Give 0, Take (0, 1)] \<longrightarrow> fst q AND PAL_ASSERT = 0"
    by (auto simp: PAL_ZERO_def PAL_USER_def PAL_ASSERT_def)
  from palloc_no_overlap [OF demo_palloc_ok this] show ?thesis
    by blast
qed

text \<open>C26: With between 260 and \<open>2\<^sup>1\<^sup>8\<close> pages of RAM (the 1 GB that the kernel maps) and a user page
  limit of at least 2, \<^verbatim>\<open>palloc_init\<close> sets up a well-formed allocator with all pages free. The memory from 1 MB (page \<open>0xc0100\<close>) to
  the end of RAM is divided without a gap: first the bitmap and then the pages of the kernel pool, then the bitmap and the pages of the
  user pool, which gets half of the memory but not more than the limit; a bitmap takes at most 9 pages.\<close>

theorem palloc_init_correct:
  assumes "260 \<le> unat init_ram_pages" and "unat init_ram_pages \<le> 2 ^ 18" and "2 \<le> unat user_page_limit"
    and "9 * 1024 \<le> length kblock" and "9 * 1024 \<le> length ublock"
  defines "u \<equiv> min (unat user_page_limit) ((unat init_ram_pages - 256) div 2)"
  defines "k \<equiv> unat init_ram_pages - 256 - u"
  shows "\<exists>st. palloc_init kblock ublock m init_ram_pages user_page_limit = Inr st \<and> palloc_ok st
     \<and> used_bits (used_map (kernel_pool st)) = {} \<and> used_bits (used_map (user_pool st)) = {} \<and> ram st = m
     \<and> pool_pages (kernel_pool st) = {0xc0100 + bitmap_pages k..<0xc0100 + k}
     \<and> pool_pages (user_pool st) = {0xc0100 + k + bitmap_pages u..<0xc0000 + unat init_ram_pages}
     \<and> bitmap_pages k \<le> 9 \<and> bitmap_pages u \<le> 9"
  using palloc_init_ok [OF assms(1-5)] unfolding u_def k_def .

theorem palloc_init_correct_witness:
  "\<exists>st. palloc_init (replicate 9216 5) (replicate 9216 6) (\<lambda>_. 0) 1024 100 = Inr st \<and> palloc_ok st
     \<and> pool_pages (kernel_pool st) = {0xc0101..<0xc039c} \<and> pool_pages (user_pool st) = {0xc039d..<0xc0400}"
  using palloc_init_correct [of 1024 100 "replicate 9216 5" "replicate 9216 6" "\<lambda>_. 0"]
  by (auto simp: bitmap_pages_def)

end
