(* ===== verification/Pagedir.thy ===== *)
theory Pagedir
  imports Palloc
begin

text \<open>
  Page directories and page tables in memory: \<^verbatim>\<open>userprog/pagedir.c\<close>. Directories and tables are
  pages of 32-bit entries in the allocator's memory; \<^verbatim>\<open>cr3\<close> is the page directory base register. The
  lemmas give the mapping a page directory stands for and what each operation does to it.
\<close>

section \<open>Operations\<close>

record vm =
  pa :: palloc
  cr3 :: u32
  init_page_dir :: addr
  init_ram_pages :: u32

abbreviation mem :: "vm \<Rightarrow> memory" where
  "mem s \<equiv> ram (pa s)"

definition write_entry :: "vm \<Rightarrow> addr \<Rightarrow> u32 \<Rightarrow> vm" where
  "write_entry s a e = s\<lparr>pa := (pa s)\<lparr>ram := store32 (mem s) a e\<rparr>\<rparr>"

definition pagedir_create :: "vm \<Rightarrow> (vm \<times> addr) run" where
  "pagedir_create s =
     andThen (palloc_get_page (pa s) 0) (\<lambda>(p, pd).
       let s = s\<lparr>pa := p\<rparr> in
       Some (Inr (if pd \<noteq> 0
                  then (s\<lparr>pa := p\<lparr>ram := memcpy (ram p) pd (init_page_dir s) (unat PGSIZE)\<rparr>\<rparr>, pd)
                  else (s, pd))))"

text \<open>The inner loop of \<^verbatim>\<open>pagedir_destroy\<close> over the entries of a page table, then the outer loop over
  the user part of the directory, by entry index.\<close>

fun free_entries :: "palloc \<Rightarrow> addr \<Rightarrow> nat list \<Rightarrow> palloc res" where
  "free_entries p pt [] = Inr p"
| "free_entries p pt (i # is) =
     (let pte = load32 (ram p) (pt + 4 * of_nat i) in
      if pte AND PTE_P \<noteq> 0
      then bnd (pte_get_page pte) (\<lambda>page. bnd (palloc_free_page p page) (\<lambda>p. free_entries p pt is))
      else free_entries p pt is)"

fun free_tables :: "palloc \<Rightarrow> addr \<Rightarrow> nat list \<Rightarrow> palloc res" where
  "free_tables p pd [] = Inr p"
| "free_tables p pd (i # is) =
     (let pde = load32 (ram p) (pd + 4 * of_nat i) in
      if pde AND PTE_P \<noteq> 0
      then bnd (pde_get_pt pde) (\<lambda>pt.
           bnd (free_entries p pt [0..<1024]) (\<lambda>p.
           bnd (palloc_free_page p pt) (\<lambda>p. free_tables p pd is)))
      else free_tables p pd is)"

definition pagedir_destroy :: "vm \<Rightarrow> addr \<Rightarrow> vm res" where
  "pagedir_destroy s pd =
     (if pd = 0 then Inr s
      else ASSERT (pd \<noteq> init_page_dir s)
        (bnd (free_tables (pa s) pd [0..<unat (pd_no PHYS_BASE)]) (\<lambda>p.
         bnd (palloc_free_page p pd) (\<lambda>p. Inr (s\<lparr>pa := p\<rparr>)))))"

text \<open>The result is the address of the page-table entry, or null.\<close>

definition lookup_page :: "vm \<Rightarrow> addr \<Rightarrow> addr \<Rightarrow> bool \<Rightarrow> (vm \<times> addr) run" where
  "lookup_page s pd vaddr create =
     check (pd \<noteq> 0) (check (\<not> create \<or> is_user_vaddr vaddr)
       (let pde = pd + 4 * pd_no vaddr;
            entry = (\<lambda>s. andThen (Some (pde_get_pt (load32 (mem s) pde))) (\<lambda>pt.
                          Some (Inr (s, pt + 4 * pt_no vaddr))))
        in if load32 (mem s) pde = 0 then
             if create then
               andThen (palloc_get_page (pa s) PAL_ZERO) (\<lambda>(p, pt).
                 let s = s\<lparr>pa := p\<rparr> in
                 if pt = 0 then Some (Inr (s, 0))
                 else andThen (Some (pde_create pt)) (\<lambda>e. entry (write_entry s pde e)))
             else Some (Inr (s, 0))
           else entry s))"

definition pagedir_set_page :: "vm \<Rightarrow> addr \<Rightarrow> addr \<Rightarrow> addr \<Rightarrow> bool \<Rightarrow> (vm \<times> bool) run" where
  "pagedir_set_page s pd upage kpage writable =
     check (pg_ofs upage = 0) (check (pg_ofs kpage = 0) (check (is_user_vaddr upage) (
     andThen (Some (vtop kpage)) (\<lambda>paddr. check (drop_bit 12 paddr < init_ram_pages s) (
     check (pd \<noteq> init_page_dir s) (
     andThen (lookup_page s pd upage True) (\<lambda>(s, pte).
       if pte \<noteq> 0
       then check (load32 (mem s) pte AND PTE_P = 0)
              (andThen (Some (pte_create_user kpage writable)) (\<lambda>e.
                Some (Inr (write_entry s pte e, True))))
       else Some (Inr (s, False)))))))))"

definition pagedir_get_page :: "vm \<Rightarrow> addr \<Rightarrow> addr \<Rightarrow> addr run" where
  "pagedir_get_page s pd uaddr =
     check (is_user_vaddr uaddr)
       (andThen (lookup_page s pd uaddr False) (\<lambda>(s, pte).
         if pte \<noteq> 0 \<and> load32 (mem s) pte AND PTE_P \<noteq> 0
         then andThen (Some (pte_get_page (load32 (mem s) pte))) (\<lambda>page. Some (Inr (page + pg_ofs uaddr)))
         else Some (Inr 0)))"

definition pagedir_activate :: "vm \<Rightarrow> addr \<Rightarrow> vm res" where
  "pagedir_activate s pd =
     (let pd = (if pd = 0 then init_page_dir s else pd) in
      bnd (vtop pd) (\<lambda>p. Inr (s\<lparr>cr3 := p\<rparr>)))"

definition active_pd :: "vm \<Rightarrow> addr res" where
  "active_pd s = ptov (cr3 s)"

definition invalidate_pagedir :: "vm \<Rightarrow> addr \<Rightarrow> vm res" where
  "invalidate_pagedir s pd =
     bnd (active_pd s) (\<lambda>a. if a = pd then pagedir_activate s pd else Inr s)"

definition pagedir_clear_page :: "vm \<Rightarrow> addr \<Rightarrow> addr \<Rightarrow> vm run" where
  "pagedir_clear_page s pd upage =
     check (pg_ofs upage = 0) (check (is_user_vaddr upage)
       (andThen (lookup_page s pd upage False) (\<lambda>(s, pte).
         if pte \<noteq> 0 \<and> load32 (mem s) pte AND PTE_P \<noteq> 0
         then Some (invalidate_pagedir (write_entry s pte (load32 (mem s) pte AND NOT PTE_P)) pd)
         else Some (Inr s))))"

text \<open>The dirty and accessed bits have the same pair of functions each.\<close>

definition pagedir_is_dirty :: "vm \<Rightarrow> addr \<Rightarrow> addr \<Rightarrow> bool run" where
  "pagedir_is_dirty s pd vpage =
     andThen (lookup_page s pd vpage False) (\<lambda>(s, pte).
       Some (Inr (pte \<noteq> 0 \<and> load32 (mem s) pte AND PTE_D \<noteq> 0)))"

definition pagedir_set_dirty :: "vm \<Rightarrow> addr \<Rightarrow> addr \<Rightarrow> bool \<Rightarrow> vm run" where
  "pagedir_set_dirty s pd vpage dirty =
     andThen (lookup_page s pd vpage False) (\<lambda>(s, pte).
       if pte \<noteq> 0 then
         if dirty then Some (Inr (write_entry s pte (load32 (mem s) pte OR PTE_D)))
         else Some (invalidate_pagedir (write_entry s pte (load32 (mem s) pte AND NOT PTE_D)) pd)
       else Some (Inr s))"

definition pagedir_is_accessed :: "vm \<Rightarrow> addr \<Rightarrow> addr \<Rightarrow> bool run" where
  "pagedir_is_accessed s pd vpage =
     andThen (lookup_page s pd vpage False) (\<lambda>(s, pte).
       Some (Inr (pte \<noteq> 0 \<and> load32 (mem s) pte AND PTE_A \<noteq> 0)))"

definition pagedir_set_accessed :: "vm \<Rightarrow> addr \<Rightarrow> addr \<Rightarrow> bool \<Rightarrow> vm run" where
  "pagedir_set_accessed s pd vpage accessed =
     andThen (lookup_page s pd vpage False) (\<lambda>(s, pte).
       if pte \<noteq> 0 then
         if accessed then Some (Inr (write_entry s pte (load32 (mem s) pte OR PTE_A)))
         else Some (invalidate_pagedir (write_entry s pte (load32 (mem s) pte AND NOT PTE_A)) pd)
       else Some (Inr s))"

definition pagedir_is_mapped :: "vm \<Rightarrow> addr \<Rightarrow> addr \<Rightarrow> bool run" where
  "pagedir_is_mapped s pd vaddr =
     andThen (lookup_page s pd vaddr False) (\<lambda>(s, pte). Some (Inr (pte \<noteq> 0)))"

section \<open>Entries in pages\<close>

lemma aligned_page: "pg_ofs p = 0 \<Longrightarrow> unat p = 4096 * unat (pg_no p)"
  by (auto simp: pg_ofs_zero_iff unat_pg_no)

lemma entry_addr:
  assumes "pg_ofs p = 0" and "unat i < 1024"
  shows "unat (p + 4 * i) = unat p + 4 * unat i" and "pg_no (p + 4 * i) = pg_no p"
    and "unat (p + 4 * i) mod 4 = 0"
proof -
  obtain q where p: "unat p = 4096 * q"
    using aligned_page [OF assms(1)] by blast
  have lim: "unat p + 4096 \<le> 2 ^ 32"
    using unat_less_size [of p] p by simp
  have m: "unat (4 * i) = 4 * unat i"
    using assms(2) unat_mult_lem [of 4 i] by simp
  then show u: "unat (p + 4 * i) = unat p + 4 * unat i"
    using lim assms(2) unat_plus_no_wrap [of p "4 * i"] by simp
  have "unat (pg_no (p + 4 * i)) = unat (pg_no p)"
    unfolding unat_pg_no u p using assms(2) by simp
  then show "pg_no (p + 4 * i) = pg_no p"
    by (simp add: word_unat_eq_iff)
  show "unat (p + 4 * i) mod 4 = 0"
    unfolding u p by simp
qed

lemma page_eq_iff: "pg_ofs p = 0 \<Longrightarrow> pg_ofs q = 0 \<Longrightarrow> pg_no p = pg_no q \<longleftrightarrow> p = q"
  using aligned_page [of p] aligned_page [of q] by (auto simp: word_unat_eq_iff)

lemma entry_inj:
  assumes "pg_ofs p = 0" and "pg_ofs q = 0" and "unat i < 1024" and "unat j < 1024"
  shows "p + 4 * i = q + 4 * j \<longleftrightarrow> p = q \<and> i = j"
proof
  assume eq: "p + 4 * i = q + 4 * j"
  then have "p = q"
    using entry_addr(2) [OF assms(1,3)] entry_addr(2) [OF assms(2,4)] page_eq_iff [OF assms(1,2)] by simp
  moreover have "unat p + 4 * unat i = unat q + 4 * unat j"
    using eq entry_addr(1) [OF assms(1,3)] entry_addr(1) [OF assms(2,4)] by simp
  ultimately show "p = q \<and> i = j"
    by (simp add: word_unat_eq_iff)
qed simp

lemma kernel_entry_nonzero:
  assumes "kernel_page p" and "unat i < 1024"
  shows "p + 4 * i \<noteq> 0"
proof -
  have "unat (p + 4 * i) \<noteq> 0"
    using entry_addr(1) [of p i] assms by (simp add: kernel_page_def word_le_nat_alt PHYS_BASE_def)
  then show ?thesis
    by (metis unat_0)
qed

lemma byte_page:
  assumes "pg_ofs p = 0" and "k < 4096"
  shows "pg_no (p + of_nat k) = pg_no p"
proof -
  obtain q where p: "unat p = 4096 * q"
    using aligned_page [OF assms(1)] by blast
  have "unat (p + of_nat k) = unat p + k"
    using unat_less_size [of p] p assms(2) unat_plus_no_wrap [of p "of_nat k"] by (simp add: unat_of_nat)
  then have "unat (pg_no (p + of_nat k)) = unat (pg_no p)"
    unfolding unat_pg_no using p assms(2) by simp
  then show ?thesis
    by (simp add: word_unat_eq_iff)
qed

lemma word_byte_page:
  assumes "unat a mod 4 = 0" and "k < 4"
  shows "pg_no (a + of_nat k) = pg_no a"
proof -
  have "(unat a + k) div 4096 = (unat a + k) div 4 div 1024" "unat a div 4096 = unat a div 4 div 1024"
    by (simp_all add: div_mult2_eq [symmetric])
  moreover have "(unat a + k) div 4 = unat a div 4"
    using assms by (simp add: div_add1_eq)
  ultimately have "unat (pg_no (a + of_nat k)) = unat (pg_no a)"
    unfolding unat_pg_no unat_plus_byte [OF assms] by simp
  then show ?thesis
    by (simp add: word_unat_eq_iff)
qed

lemma load32_cong:
  assumes "\<And>k. k < 4 \<Longrightarrow> m (a + of_nat k) = m' (a + of_nat k)"
  shows "load32 m a = load32 m' a"
  using assms [of 0] assms [of 1] assms [of 2] assms [of 3] by (simp add: load32_def)

text \<open>Filling a page leaves words of other pages alone.\<close>

lemma load32_memset_other:
  assumes p: "pg_ofs p = 0" and a: "unat a mod 4 = 0" and ne: "pg_no a \<noteq> pg_no p"
  shows "load32 (memset m p v 4096) a = load32 m a"
proof (rule load32_cong)
  fix k :: nat assume k: "k < 4"
  show "memset m p v 4096 (a + of_nat k) = m (a + of_nat k)"
  proof (rule memset_other)
    fix i :: nat assume "i < 4096"
    then show "a + of_nat k \<noteq> p + of_nat i"
      using byte_page [OF p] word_byte_page [OF a k] ne by metis
  qed
qed

lemma load32_memset_zero:
  assumes p: "pg_ofs p = 0" and i: "unat i < 1024"
  shows "load32 (memset m p 0 4096) (p + 4 * i) = 0"
proof -
  have "memset m p 0 4096 (p + 4 * i + of_nat k) = 0" if "k < 4" for k
  proof -
    have "(of_nat (4 * unat i + k) :: u32) = 4 * i + of_nat k"
      by simp
    then have eq: "p + 4 * i + of_nat k = p + of_nat (4 * unat i + k)"
      by (simp only: add.assoc)
    show ?thesis
      unfolding eq using i that by (intro memset_in) simp_all
  qed
  from this [of 0] this [of 1] this [of 2] this [of 3] show ?thesis
    by (simp add: load32_def)
qed

section \<open>The mapping of a page directory\<close>

definition pde_of :: "vm \<Rightarrow> addr \<Rightarrow> u32 \<Rightarrow> u32" where
  "pde_of s pd i = load32 (mem s) (pd + 4 * i)"

definition table_of :: "vm \<Rightarrow> addr \<Rightarrow> u32 \<Rightarrow> addr option" where
  "table_of s pd i =
     (if pde_of s pd i = 0 then None
      else case pde_get_pt (pde_of s pd i) of Inl _ \<Rightarrow> None | Inr pt \<Rightarrow> Some pt)"

text \<open>The present page-table entry for a virtual address.\<close>

definition mapping :: "vm \<Rightarrow> addr \<Rightarrow> addr \<Rightarrow> u32 option" where
  "mapping s pd va =
     (case table_of s pd (pd_no va) of
        None \<Rightarrow> None
      | Some pt \<Rightarrow>
          let pte = load32 (mem s) (pt + 4 * pt_no va) in if pte AND PTE_P \<noteq> 0 then Some pte else None)"

text \<open>The directory and its tables are different kernel pages, all allocated.\<close>

definition pagedir_ok :: "vm \<Rightarrow> addr \<Rightarrow> bool" where
  "pagedir_ok s pd \<longleftrightarrow> palloc_ok (pa s) \<and> kernel_page pd \<and> unat (pg_no pd) \<in> pool_used (kernel_pool (pa s))
     \<and> (\<forall>i. unat i < 1024 \<and> pde_of s pd i \<noteq> 0 \<longrightarrow>
          (\<exists>pt. table_of s pd i = Some pt \<and> kernel_page pt \<and> unat (pg_no pt) \<in> pool_used (kernel_pool (pa s)) \<and> pt \<noteq> pd))
     \<and> (\<forall>i j pt. unat i < 1024 \<and> unat j < 1024 \<and> table_of s pd i = Some pt \<and> table_of s pd j = Some pt \<longrightarrow> i = j)"

lemma table_of_Some: "table_of s pd i = Some pt \<longleftrightarrow> pde_of s pd i \<noteq> 0 \<and> pde_get_pt (pde_of s pd i) = Inr pt"
  by (auto simp: table_of_def split: sum.splits)

lemma pagedir_okD:
  assumes "pagedir_ok s pd"
  shows "palloc_ok (pa s)" and "kernel_page pd" and "unat (pg_no pd) \<in> pool_used (kernel_pool (pa s))" and "pd \<noteq> 0"
  using assms by (auto simp: pagedir_ok_def kernel_page_def PHYS_BASE_def)

lemma pagedir_ok_table:
  assumes "pagedir_ok s pd" and "unat i < 1024" and "pde_of s pd i \<noteq> 0"
  obtains pt where "table_of s pd i = Some pt" and "kernel_page pt"
    and "unat (pg_no pt) \<in> pool_used (kernel_pool (pa s))" and "pt \<noteq> pd"
  using assms unfolding pagedir_ok_def by blast

lemma pagedir_ok_inj:
  "pagedir_ok s pd \<Longrightarrow> unat i < 1024 \<Longrightarrow> unat j < 1024 \<Longrightarrow> table_of s pd i = Some pt \<Longrightarrow>
     table_of s pd j = Some pt \<Longrightarrow> i = j"
  unfolding pagedir_ok_def by blast

lemma pagedir_ok_table':
  assumes "pagedir_ok s pd" and "unat i < 1024" and "table_of s pd i = Some pt"
  shows "kernel_page pt" and "unat (pg_no pt) \<in> pool_used (kernel_pool (pa s))" and "pt \<noteq> pd"
  using pagedir_ok_table [OF assms(1,2)] assms(3) by (auto simp: table_of_Some)

lemma write_entry_simps [simp]:
  "mem (write_entry s a e) = store32 (mem s) a e"
  "kernel_pool (pa (write_entry s a e)) = kernel_pool (pa s)"
  "user_pool (pa (write_entry s a e)) = user_pool (pa s)"
  "palloc_ok (pa (write_entry s a e)) = palloc_ok (pa s)"
  "init_page_dir (write_entry s a e) = init_page_dir s"
  "init_ram_pages (write_entry s a e) = init_ram_pages s"
  "cr3 (write_entry s a e) = cr3 s"
  by (simp_all add: write_entry_def)

text \<open>Writing an entry of a page table changes the mapping of one page.\<close>

lemma write_pte:
  fixes e :: u32
  assumes ok: "pagedir_ok s pd" and pt: "table_of s pd (pd_no u) = Some pt"
  defines "s' \<equiv> write_entry s (pt + 4 * pt_no u) e"
  shows "\<And>i. unat i < 1024 \<Longrightarrow> table_of s' pd i = table_of s pd i"
    and "pagedir_ok s' pd"
    and "mapping s' pd va = (if pg_no va = pg_no u then if e AND PTE_P \<noteq> 0 then Some e else None
       else mapping s pd va)"
proof -
  have kpt: "kernel_page pt" "pt \<noteq> pd"
    using pagedir_ok_table' [OF ok pd_no_less pt] by simp_all
  have kpd: "kernel_page pd"
    using pagedir_okD [OF ok] by simp
  have pde: "pde_of s' pd i = pde_of s pd i" if "unat i < 1024" for i
    unfolding pde_of_def s'_def write_entry_simps
    using entry_addr(3) [of pt "pt_no u"] entry_addr(3) [of pd i] kpt kpd that pt_no_less [of u]
    by (intro load32_store32_other) (simp_all add: kernel_page_def entry_inj)
  show tab: "table_of s' pd i = table_of s pd i" if "unat i < 1024" for i
    using pde [OF that] by (simp add: table_of_def)
  show "pagedir_ok s' pd"
    using ok tab pde unfolding pagedir_ok_def s'_def write_entry_simps by (metis (no_types, lifting))
  show "mapping s' pd va = (if pg_no va = pg_no u then if e AND PTE_P \<noteq> 0 then Some e else None
       else mapping s pd va)"
  proof (cases "table_of s pd (pd_no va)")
    case None
    then have "pg_no va \<noteq> pg_no u"
      using pt pd_pt_no_page [of va u] by auto
    then show ?thesis
      using None tab [OF pd_no_less] by (simp add: mapping_def)
  next
    case (Some pt')
    have k': "kernel_page pt'"
      using pagedir_ok_table' [OF ok pd_no_less Some] by simp
    have same: "pt' = pt \<longleftrightarrow> pd_no va = pd_no u"
      using pagedir_ok_inj [OF ok pd_no_less pd_no_less] Some pt by auto
    have "pt' + 4 * pt_no va = pt + 4 * pt_no u \<longleftrightarrow> pg_no va = pg_no u"
      using entry_inj [of pt' pt "pt_no va" "pt_no u"] k' kpt same pd_pt_no_page [of va u]
      by (simp add: kernel_page_def pt_no_less)
    moreover have "load32 (mem s') (pt' + 4 * pt_no va)
        = (if pt' + 4 * pt_no va = pt + 4 * pt_no u then e else load32 (mem s) (pt' + 4 * pt_no va))"
      unfolding s'_def write_entry_simps
      using load32_store32_other [of "pt + 4 * pt_no u" "pt' + 4 * pt_no va" "mem s" e]
        entry_addr(3) [of pt "pt_no u"] entry_addr(3) [of pt' "pt_no va"] k' kpt pt_no_less
      by (auto simp: kernel_page_def)
    ultimately show ?thesis
      using Some tab [OF pd_no_less, of va] by (simp add: mapping_def Let_def)
  qed
qed

text \<open>Installing a new page table full of zeros changes no mapping.\<close>

lemma add_table:
  assumes ok: "pagedir_ok s pd" and none: "pde_of s pd (pd_no u) = 0"
    and pok: "palloc_ok p" and used: "pool_used (kernel_pool p) = insert (unat (pg_no pt)) (pool_used (kernel_pool (pa s)))"
    and new: "unat (pg_no pt) \<notin> pool_used (kernel_pool (pa s))" and kpt: "kernel_page pt"
    and zero: "ram p = memset (mem s) pt 0 4096"
    and e: "pde_get_pt e = Inr pt" "e \<noteq> 0"
  defines "s' \<equiv> write_entry (s\<lparr>pa := p\<rparr>) (pd + 4 * pd_no u) e"
  shows "pagedir_ok s' pd" and "mapping s' pd va = mapping s pd va"
    and "table_of s' pd (pd_no u) = Some pt"
proof -
  note d = pagedir_okD [OF ok]
  have ptd: "pt \<noteq> pd"
    using new d(3) by auto
  have mem: "mem s' = store32 (memset (mem s) pt 0 4096) (pd + 4 * pd_no u) e"
    using zero by (simp add: s'_def)
  have pde: "pde_of s' pd i = (if i = pd_no u then e else pde_of s pd i)" if i: "unat i < 1024" for i
  proof -
    have "load32 (memset (mem s) pt 0 4096) (pd + 4 * i) = load32 (mem s) (pd + 4 * i)"
      using entry_addr(2,3) [of pd i] d(2) kpt i ptd
      by (intro load32_memset_other) (auto simp: kernel_page_def page_eq_iff)
    then show ?thesis
      using load32_store32_other [of "pd + 4 * pd_no u" "pd + 4 * i" "memset (mem s) pt 0 4096" e]
        entry_addr(3) [of pd i] entry_addr(3) [of pd "pd_no u"] entry_inj [of pd pd "pd_no u" i]
        d(2) i pd_no_less [of u]
      by (auto simp: pde_of_def mem kernel_page_def)
  qed
  show tu: "table_of s' pd (pd_no u) = Some pt"
    using pde [OF pd_no_less [of u]] e by (simp add: table_of_Some)
  have tab: "table_of s' pd i = (if i = pd_no u then Some pt else table_of s pd i)" if "unat i < 1024" for i
    using pde [OF that] tu by (auto simp: table_of_def)
  have old: "pt' \<noteq> pt" if "table_of s pd i = Some pt'" "unat i < 1024" for i pt'
    using pagedir_ok_table' [OF ok that(2,1)] new by auto
  show "pagedir_ok s' pd"
    unfolding pagedir_ok_def
  proof (intro conjI allI impI)
    show "palloc_ok (pa s')" "kernel_page pd" "unat (pg_no pd) \<in> pool_used (kernel_pool (pa s'))"
      using pok d used by (simp_all add: s'_def)
  next
    fix i assume i: "unat i < 1024 \<and> pde_of s' pd i \<noteq> 0"
    show "\<exists>pt. table_of s' pd i = Some pt \<and> kernel_page pt \<and> unat (pg_no pt) \<in> pool_used (kernel_pool (pa s')) \<and> pt \<noteq> pd"
    proof (cases "i = pd_no u")
      case True
      then show ?thesis
        using tu kpt used ptd by (simp add: s'_def)
    next
      case False
      then have "pde_of s pd i \<noteq> 0"
        using i pde [of i] by simp
      then obtain pt' where "table_of s pd i = Some pt'" "kernel_page pt'"
        "unat (pg_no pt') \<in> pool_used (kernel_pool (pa s))" "pt' \<noteq> pd"
        using pagedir_ok_table [OF ok] i by blast
      then show ?thesis
        using tab i False used by (simp add: s'_def)
    qed
  next
    fix i j q assume a: "unat i < 1024 \<and> unat j < 1024 \<and> table_of s' pd i = Some q \<and> table_of s' pd j = Some q"
    have "i = pd_no u \<longleftrightarrow> q = pt" "j = pd_no u \<longleftrightarrow> q = pt"
      using a tab [of i] tab [of j] old [of i q] old [of j q] by (metis option.inject)+
    then show "i = j"
      using a tab [of i] tab [of j] pagedir_ok_inj [OF ok, of i j q] by (metis (full_types))
  qed
  show "mapping s' pd va = mapping s pd va"
  proof (cases "pd_no va = pd_no u")
    case True
    have "load32 (mem s') (pt + 4 * pt_no va) = 0"
      using load32_store32_other [of "pd + 4 * pd_no u" "pt + 4 * pt_no va" "memset (mem s) pt 0 4096" e]
        entry_addr(3) [of pt "pt_no va"] entry_addr(3) [of pd "pd_no u"] entry_inj [of pd pt "pd_no u" "pt_no va"]
        load32_memset_zero [of pt "pt_no va" "mem s"] d(2) kpt ptd pd_no_less [of u] pt_no_less [of va]
      by (auto simp: mem kernel_page_def)
    then show ?thesis
      using True tu none by (simp add: mapping_def table_of_def)
  next
    case False
    show ?thesis
    proof (cases "table_of s pd (pd_no va)")
      case None
      then show ?thesis
        using tab [OF pd_no_less, of va] False by (simp add: mapping_def)
    next
      case (Some pt')
      note k' = pagedir_ok_table' [OF ok pd_no_less Some]
      have "load32 (memset (mem s) pt 0 4096) (pt' + 4 * pt_no va) = load32 (mem s) (pt' + 4 * pt_no va)"
        using entry_addr(2,3) [of pt' "pt_no va"] k' kpt old [OF Some pd_no_less] pt_no_less [of va]
        by (intro load32_memset_other) (auto simp: kernel_page_def page_eq_iff)
      then have "load32 (mem s') (pt' + 4 * pt_no va) = load32 (mem s) (pt' + 4 * pt_no va)"
        using load32_store32_other [of "pd + 4 * pd_no u" "pt' + 4 * pt_no va" "memset (mem s) pt 0 4096" e]
          entry_addr(3) [of pt' "pt_no va"] entry_addr(3) [of pd "pd_no u"] entry_inj [of pd pt' "pd_no u" "pt_no va"]
          d(2) k' pd_no_less [of u] pt_no_less [of va]
        by (auto simp: mem kernel_page_def)
      then show ?thesis
        using Some tab [OF pd_no_less, of va] False by (simp add: mapping_def)
    qed
  qed
qed

section \<open>Operations on the mapping\<close>

text \<open>A zeroed page for a new page table.\<close>

lemma zero_page:
  assumes ok: "palloc_ok p"
  obtains (page) p' pt where "palloc_get_page p PAL_ZERO = Some (Inr (p', pt))" and "palloc_ok p'" and "kernel_page pt"
      and "unat (pg_no pt) \<notin> pool_used (kernel_pool p)"
      and "pool_used (kernel_pool p') = insert (unat (pg_no pt)) (pool_used (kernel_pool p))"
      and "ram p' = memset (ram p) pt 0 4096"
  | (full) "palloc_get_page p PAL_ZERO = Some (Inr (p, 0))" and "pool_used (kernel_pool p) = pool_pages (kernel_pool p)"
proof -
  have gp: "get_pool PAL_ZERO st = kernel_pool st" "PAL_ZERO AND PAL_ZERO \<noteq> 0" "PAL_ZERO AND PAL_ASSERT = 0" for st
    by (simp_all add: get_pool_def PAL_ZERO_def PAL_USER_def PAL_ASSERT_def)
  show thesis
    by (rule get_page_cases [OF ok, where flags = PAL_ZERO]) (use gp in \<open>auto intro: that\<close>)
qed

lemma lookup_present:
  assumes ok: "pagedir_ok s pd" and t: "table_of s pd (pd_no va) = Some pt" and u: "create \<longrightarrow> is_user_vaddr va"
  shows "lookup_page s pd va create = Some (Inr (s, pt + 4 * pt_no va))" and "pt + 4 * pt_no va \<noteq> 0"
  using assms pagedir_okD [OF ok] kernel_entry_nonzero [OF pagedir_ok_table'(1) [OF ok pd_no_less t] pt_no_less]
  by (auto simp: lookup_page_def table_of_Some pde_of_def Let_def)

lemma lookup_absent:
  assumes ok: "pagedir_ok s pd" and t: "table_of s pd (pd_no va) = None"
  shows "pde_of s pd (pd_no va) = 0" and "lookup_page s pd va False = Some (Inr (s, 0))"
proof -
  show z: "pde_of s pd (pd_no va) = 0"
    using pagedir_ok_table [OF ok pd_no_less] t by (metis option.distinct(1))
  show "lookup_page s pd va False = Some (Inr (s, 0))"
    using z pagedir_okD [OF ok] by (simp add: lookup_page_def pde_of_def Let_def)
qed

lemma mapping_table:
  "mapping s pd va = Some e \<longleftrightarrow>
     (\<exists>pt. table_of s pd (pd_no va) = Some pt \<and> e = load32 (mem s) (pt + 4 * pt_no va) \<and> e AND PTE_P \<noteq> 0)"
  by (auto simp: mapping_def Let_def split: option.splits)

lemma get_page_mapping:
  assumes ok: "pagedir_ok s pd" and u: "is_user_vaddr va"
  shows "pagedir_get_page s pd va =
     (case mapping s pd va of None \<Rightarrow> Some (Inr 0)
      | Some e \<Rightarrow> Some (bnd (pte_get_page e) (\<lambda>page. Inr (page + pg_ofs va))))"
proof (cases "table_of s pd (pd_no va)")
  case None
  then show ?thesis
    using lookup_absent [OF ok None] u by (simp add: pagedir_get_page_def mapping_def)
next
  case (Some pt)
  have "andThen (Some r) (\<lambda>page. Some (Inr (page + w))) = Some (bnd r (\<lambda>page. Inr (page + w)))" for r :: "addr res" and w
    by (cases r) simp_all
  then show ?thesis
    using lookup_present [OF ok Some, of False] u Some by (simp add: pagedir_get_page_def mapping_def Let_def)
qed

text \<open>\<^verbatim>\<open>lookup_page\<close> with \<^verbatim>\<open>create\<close>: the entry, in a state with the same mapping, or null when no page
  table can be allocated.\<close>

lemma lookup_create:
  assumes ok: "pagedir_ok s pd" and u: "is_user_vaddr va"
  obtains (entry) s' pt where "lookup_page s pd va True = Some (Inr (s', pt + 4 * pt_no va))"
      and "pt + 4 * pt_no va \<noteq> 0" and "pagedir_ok s' pd" and "table_of s' pd (pd_no va) = Some pt"
      and "\<And>v. mapping s' pd v = mapping s pd v"
  | (full) "lookup_page s pd va True = Some (Inr (s, 0))" and "table_of s pd (pd_no va) = None"
      and "pool_used (kernel_pool (pa s)) = pool_pages (kernel_pool (pa s))"
proof (cases "table_of s pd (pd_no va)")
  case (Some pt)
  then show thesis
    using entry [of s pt] lookup_present [OF ok Some, of True] u ok by simp
next
  case None
  note z = lookup_absent(1) [OF ok None]
  note d = pagedir_okD [OF ok]
  show thesis
  proof (cases rule: zero_page [OF d(1), case_names page full])
    case (page p' pt)
    obtain e where e: "pde_create pt = Inr e" "pde_get_pt e = Inr pt" "e \<noteq> 0"
      using pde_roundtrip [of pt] page(3) by (auto simp: kernel_page_def)
    let ?s = "write_entry (s\<lparr>pa := p'\<rparr>) (pd + 4 * pd_no va) e"
    have nz: "pt \<noteq> 0" "pt + 4 * pt_no va \<noteq> 0"
      using page(3) kernel_entry_nonzero [OF page(3), of 0] kernel_entry_nonzero [OF page(3) pt_no_less] by simp_all
    note add = add_table [OF ok z page(2,5,4,3,6) e(2,3)]
    have "lookup_page s pd va True = Some (Inr (?s, pt + 4 * pt_no va))"
      using z page(1) e nz d(4) u by (simp add: lookup_page_def pde_of_def Let_def)
    then show thesis
      using nz add by (intro entry)
  next
    case full
    then have "lookup_page s pd va True = Some (Inr (s, 0))"
      using z d(4) u by (simp add: lookup_page_def pde_of_def Let_def)
    then show thesis
      using None full(2) by (rule that(2))
  qed
qed

lemma set_page_ok:
  assumes ok: "pagedir_ok s pd" and pd: "pd \<noteq> init_page_dir s"
    and up: "pg_ofs upage = 0" "is_user_vaddr upage" "mapping s pd upage = None"
    and kp: "kernel_page kp" "unat kp - 0xc0000000 < 4096 * unat (init_ram_pages s)"
  obtains (mapped) s' e where "pagedir_set_page s pd upage kp w = Some (Inr (s', True))" and "pagedir_ok s' pd"
      and "pte_create_user kp w = Inr e"
      and "\<And>va. mapping s' pd va = (if pg_no va = pg_no upage then Some e else mapping s pd va)"
  | (full) "pagedir_set_page s pd upage kp w = Some (Inr (s, False))"
      and "pool_used (kernel_pool (pa s)) = pool_pages (kernel_pool (pa s))"
proof -
  have k: "PHYS_BASE \<le> kp" "pg_ofs kp = 0"
    using kp(1) by (simp_all add: kernel_page_def)
  have "unat (drop_bit 12 (kp - PHYS_BASE)) = (unat kp - 0xc0000000) div 4096"
    using vtop_ptov(2) [OF k(1)] by (simp add: drop_bit_eq_div unat_div)
  then have lim: "drop_bit 12 (kp - PHYS_BASE) < init_ram_pages s"
    using kp(2) by (simp add: word_less_nat_alt less_mult_imp_div_less mult.commute)
  obtain e where e: "pte_create_user kp w = Inr e" "e AND PTE_P \<noteq> 0"
    using pte_roundtrip [OF k, of w] by blast
  show thesis
  proof (cases rule: lookup_create [OF ok up(2), case_names entry full])
    case (entry s' pt)
    have "load32 (mem s') (pt + 4 * pt_no upage) AND PTE_P = 0"
      using entry(4) entry(5) [of upage] up(3) mapping_table [of s' pd upage] by auto
    then have "pagedir_set_page s pd upage kp w = Some (Inr (write_entry s' (pt + 4 * pt_no upage) e, True))"
      using up k vtop_ptov(1) [OF k(1)] lim pd entry(1,2) e(1) by (simp add: pagedir_set_page_def)
    moreover have "mapping (write_entry s' (pt + 4 * pt_no upage) e) pd va
        = (if pg_no va = pg_no upage then Some e else mapping s pd va)" for va
      unfolding write_pte(3) [OF entry(3,4)] entry(5) using e(2) by simp
    ultimately show thesis
      using write_pte(2) [OF entry(3,4)] e(1) by (intro that(1))
  next
    case full
    then have "pagedir_set_page s pd upage kp w = Some (Inr (s, False))"
      using up k vtop_ptov(1) [OF k(1)] lim pd by (simp add: pagedir_set_page_def)
    then show thesis
      using full(3) by (rule that(2))
  qed
qed

lemma invalidate_ok:
  assumes "kernel_page pd" and "cr3 s < PHYS_BASE"
  shows "\<exists>c. invalidate_pagedir s pd = Inr (s\<lparr>cr3 := c\<rparr>)"
  using assms vtop_ptov(1) [of pd]
  by (auto simp: invalidate_pagedir_def active_pd_def ptov_def pagedir_activate_def kernel_page_def
      intro: exI [of _ "cr3 s"])

lemma cr3_irrelevant [simp]:
  "mapping (s\<lparr>cr3 := c\<rparr>) pd va = mapping s pd va" "table_of (s\<lparr>cr3 := c\<rparr>) pd i = table_of s pd i"
  "pagedir_ok (s\<lparr>cr3 := c\<rparr>) pd = pagedir_ok s pd"
  by (simp_all add: mapping_def table_of_def pde_of_def pagedir_ok_def cong: option.case_cong)

lemma clear_page_ok:
  assumes ok: "pagedir_ok s pd" and up: "pg_ofs upage = 0" "is_user_vaddr upage" and c: "cr3 s < PHYS_BASE"
  shows "\<exists>s'. pagedir_clear_page s pd upage = Some (Inr s') \<and> pagedir_ok s' pd
     \<and> (\<forall>va. mapping s' pd va = (if pg_no va = pg_no upage then None else mapping s pd va))
     \<and> (\<forall>i. unat i < 1024 \<longrightarrow> table_of s' pd i = table_of s pd i)"
proof (cases "mapping s pd upage")
  case None
  have same: "mapping s pd va = None" if "pg_no va = pg_no upage" for va
    using None that pd_pt_no_page [of va upage] unfolding mapping_def by (auto cong: option.case_cong)
  have "pagedir_clear_page s pd upage = Some (Inr s)"
  proof (cases "table_of s pd (pd_no upage)")
    case (Some pt)
    then show ?thesis
      using None lookup_present [OF ok Some, of False] up by (auto simp: pagedir_clear_page_def mapping_def Let_def split: if_splits)
  qed (use lookup_absent [OF ok] up in \<open>simp add: pagedir_clear_page_def\<close>)
  then show ?thesis
    using ok same by auto
next
  case (Some e)
  then obtain pt where pt: "table_of s pd (pd_no upage) = Some pt" "e = load32 (mem s) (pt + 4 * pt_no upage)"
    "e AND PTE_P \<noteq> 0"
    unfolding mapping_table by blast
  let ?e = "e AND NOT PTE_P"
  let ?s = "write_entry s (pt + 4 * pt_no upage) ?e"
  have np: "?e AND PTE_P = 0"
    by (simp add: and.assoc)
  obtain c where inv: "invalidate_pagedir ?s pd = Inr (?s\<lparr>cr3 := c\<rparr>)"
    using invalidate_ok [of pd ?s] pagedir_okD(2) [OF ok] c by auto
  have r: "pagedir_clear_page s pd upage = Some (Inr (?s\<lparr>cr3 := c\<rparr>))"
    using lookup_present [OF ok pt(1), of False] up pt(2,3) inv by (simp add: pagedir_clear_page_def)
  note w = write_pte(2,3) [OF ok pt(1), where e = ?e]
  have "table_of ?s pd i = table_of s pd i" if "unat i < 1024" for i
    by (rule write_pte(1) [OF ok pt(1) that])
  then show ?thesis
    using r w np by (intro exI [of _ "?s\<lparr>cr3 := c\<rparr>"]) simp
qed

lemma is_mapped_table:
  assumes "pagedir_ok s pd"
  shows "pagedir_is_mapped s pd va = Some (Inr (table_of s pd (pd_no va) \<noteq> None))"
  using lookup_absent(2) [OF assms] lookup_present [OF assms, of va _ False]
  by (cases "table_of s pd (pd_no va)") (simp_all add: pagedir_is_mapped_def)

section \<open>Properties\<close>

text \<open>A directory without page tables, in the first page of a small kernel pool, and the same
  directory with one page mapped.\<close>

definition demo_vm :: vm where
  "demo_vm = \<lparr>pa = (demo_pools 1)\<lparr>ram := (\<lambda>_. 0)\<rparr>, cr3 = 0x3000, init_page_dir = 0xc0003000, init_ram_pages = 0x400\<rparr>"

lemma demo_vm_simps [simp]:
  "init_page_dir demo_vm = 0xc0003000" "init_ram_pages demo_vm = 0x400" "cr3 demo_vm = 0x3000"
  "mem demo_vm = (\<lambda>_. 0)"
  by (simp_all add: demo_vm_def)

lemma demo_pool_used:
  "pool_used (kernel_pool (pa demo_vm)) = {0xc0101}" "pool_used (kernel_pool (pa demo_vm)) \<noteq> pool_pages (kernel_pool (pa demo_vm))"
proof -
  have "bview \<lparr>bit_cnt = 4, bits = [1]\<rparr> = [True, False, False, False]"
    by code_simp
  moreover have "{i. i < 4 \<and> [True, False, False, False] ! i} = {0 :: nat}"
    by (auto simp: less_Suc_eq numeral_eq_Suc)
  ultimately have "used_bits \<lparr>bit_cnt = 4, bits = [1]\<rparr> = {0}"
    by (simp add: used_bits_def)
  then show u: "pool_used (kernel_pool (pa demo_vm)) = {0xc0101}"
    by (simp add: pool_used_def demo_vm_def demo_pools_def unat_pg_no)
  have "card (pool_pages (kernel_pool (pa demo_vm))) = 4"
    by (simp add: pool_pages_def pool_size_def demo_vm_def demo_pools_def)
  moreover have "card {0xc0101 :: nat} = 1"
    by simp
  ultimately show "pool_used (kernel_pool (pa demo_vm)) \<noteq> pool_pages (kernel_pool (pa demo_vm))"
    unfolding u by (metis numeral_eq_one_iff semiring_norm(83))
qed

lemma demo_pd: "kernel_page 0xc0101000" "kernel_page 0xc0200000" "unat (pg_no 0xc0101000) = 0xc0101"
  by (simp_all add: kernel_page_def pg_ofs_take_bit PHYS_BASE_def unat_pg_no)

lemma demo_pde: "pde_of demo_vm 0xc0101000 i = 0"
  by (simp add: pde_of_def load32_def)

lemma demo_mapping: "mapping demo_vm 0xc0101000 va = None"
  by (simp add: mapping_def table_of_def demo_pde)

lemma demo_vm_ok: "pagedir_ok demo_vm 0xc0101000"
proof -
  have "palloc_ok (pa demo_vm)"
    using demo_pools_ok by (simp add: demo_vm_def)
  then show ?thesis
    using demo_pd demo_pool_used(1) demo_pde by (simp add: pagedir_ok_def table_of_def)
qed

lemma demo_page:
  "pg_ofs 0x8048000 = 0" "pg_ofs 0x8048123 = 0x123" "pg_ofs 0xc0200000 = 0" "pg_no 0x8048123 = pg_no 0x8048000"
  "is_user_vaddr 0x8048000" "is_user_vaddr 0x8048123" "PHYS_BASE \<le> 0xc0200000"
  by (simp_all add: pg_ofs_take_bit pg_no_def is_user_vaddr_def PHYS_BASE_def)

text \<open>C7: \<^verbatim>\<open>pagedir_set_page\<close> for an unmapped user page and a kernel page of RAM always returns. If it
  returns true, \<^verbatim>\<open>pagedir_get_page\<close> translates every address of the page to the same offset in the kernel
  page and every other user address as before, and the directory stays well-formed. It returns false, with nothing
  changed, only when the kernel pool has no free page for a page table.\<close>

theorem pagedir_set_page_get_page:
  assumes ok: "pagedir_ok s pd" and pd: "pd \<noteq> init_page_dir s"
    and up: "pg_ofs upage = 0" "is_user_vaddr upage" "mapping s pd upage = None"
    and kp: "pg_ofs kp = 0" "PHYS_BASE \<le> kp" "unat kp - 0xc0000000 < 4096 * unat (init_ram_pages s)"
  shows "\<exists>s' b. pagedir_set_page s pd upage kp w = Some (Inr (s', b)) \<and> pagedir_ok s' pd
     \<and> (if b
        then \<forall>va. is_user_vaddr va \<longrightarrow> pagedir_get_page s' pd va =
               (if pg_no va = pg_no upage then Some (Inr (kp + pg_ofs va)) else pagedir_get_page s pd va)
        else s' = s \<and> pool_used (kernel_pool (pa s)) = pool_pages (kernel_pool (pa s)))"
proof -
  have k: "kernel_page kp"
    using kp(1,2) by (simp add: kernel_page_def)
  show ?thesis
  proof (cases rule: set_page_ok [OF ok pd up k kp(3), of w, case_names mapped full])
    case (mapped s' e)
    have p: "pte_get_page e = Inr kp"
      using pte_roundtrip [OF kp(2,1), of w] mapped(3) by auto
    have "pagedir_get_page s' pd va =
        (if pg_no va = pg_no upage then Some (Inr (kp + pg_ofs va)) else pagedir_get_page s pd va)"
      if "is_user_vaddr va" for va
      unfolding get_page_mapping [OF mapped(2) that] get_page_mapping [OF ok that] mapped(4) by (simp add: p)
    then show ?thesis
      using mapped(1,2) by (intro exI [of _ s'] exI [of _ True]) simp
  next
    case full
    then show ?thesis
      using ok by auto
  qed
qed

theorem pagedir_set_page_get_page_witness:
  "\<exists>s'. pagedir_set_page demo_vm 0xc0101000 0x8048000 0xc0200000 True = Some (Inr (s', True))
       \<and> pagedir_get_page s' 0xc0101000 0x8048123 = Some (Inr 0xc0200123)"
proof -
  obtain s' b where r: "pagedir_set_page demo_vm 0xc0101000 0x8048000 0xc0200000 True = Some (Inr (s', b))"
    and p: "if b
        then \<forall>va. is_user_vaddr va \<longrightarrow> pagedir_get_page s' 0xc0101000 va =
               (if pg_no va = pg_no 0x8048000 then Some (Inr (0xc0200000 + pg_ofs va))
                else pagedir_get_page demo_vm 0xc0101000 va)
        else s' = demo_vm \<and> pool_used (kernel_pool (pa demo_vm)) = pool_pages (kernel_pool (pa demo_vm))"
    using pagedir_set_page_get_page [OF demo_vm_ok, of "0x8048000" "0xc0200000" True] demo_page demo_mapping by auto
  then have b: "b"
    using demo_pool_used(2) by auto
  then have "pagedir_get_page s' 0xc0101000 0x8048123 = Some (Inr (0xc0200000 + pg_ofs 0x8048123))"
    using p demo_page(4,6) by simp
  then show ?thesis
    using r b by (simp add: demo_page(2))
qed

text \<open>C27: After \<^verbatim>\<open>pagedir_clear_page\<close> the page is unmapped for \<^verbatim>\<open>pagedir_get_page\<close> and every other address
  translates as before, yet \<^verbatim>\<open>pagedir_is_mapped\<close> answers as it did before the call: it only tests whether the
  directory has a page table for the address, so it still returns true for a page that has been cleared, where its comment promises to check whether the address is
  mapped.\<close>

theorem pagedir_clear_page_is_mapped:
  assumes ok: "pagedir_ok s pd" and up: "pg_ofs upage = 0" "is_user_vaddr upage" and c: "cr3 s < PHYS_BASE"
  shows "\<exists>s'. pagedir_clear_page s pd upage = Some (Inr s') \<and> pagedir_ok s' pd
     \<and> (\<forall>va. is_user_vaddr va \<longrightarrow> pagedir_get_page s' pd va =
          (if pg_no va = pg_no upage then Some (Inr 0) else pagedir_get_page s pd va))
     \<and> (\<forall>va. pagedir_is_mapped s' pd va = pagedir_is_mapped s pd va)
     \<and> (pagedir_get_page s pd upage \<noteq> Some (Inr 0) \<longrightarrow> pagedir_is_mapped s' pd upage = Some (Inr True))"
proof -
  obtain s' where s': "pagedir_clear_page s pd upage = Some (Inr s')" "pagedir_ok s' pd"
    "\<And>va. mapping s' pd va = (if pg_no va = pg_no upage then None else mapping s pd va)"
    "\<And>i. unat i < 1024 \<Longrightarrow> table_of s' pd i = table_of s pd i"
    using clear_page_ok [OF assms] by metis
  have m: "pagedir_is_mapped s' pd va = pagedir_is_mapped s pd va" for va
    by (simp add: is_mapped_table [OF ok] is_mapped_table [OF s'(2)] s'(4) [OF pd_no_less])
  have "pagedir_get_page s' pd va = (if pg_no va = pg_no upage then Some (Inr 0) else pagedir_get_page s pd va)"
    if "is_user_vaddr va" for va
    unfolding get_page_mapping [OF s'(2) that] get_page_mapping [OF ok that] s'(3) by simp
  moreover have "pagedir_is_mapped s pd upage = Some (Inr True)" if "pagedir_get_page s pd upage \<noteq> Some (Inr 0)"
    using that unfolding get_page_mapping [OF ok up(2)] is_mapped_table [OF ok]
    by (auto simp: mapping_def split: option.splits)
  ultimately show ?thesis
    using s'(1,2) m by auto
qed

theorem pagedir_clear_page_is_mapped_witness:
  "\<exists>s s'. pagedir_clear_page s 0xc0101000 0x8048000 = Some (Inr s')
     \<and> pagedir_get_page s' 0xc0101000 0x8048000 = Some (Inr 0)
     \<and> pagedir_is_mapped s' 0xc0101000 0x8048000 = Some (Inr True)"
proof -
  have lim: "unat (0xc0200000 :: addr) - 0xc0000000 < 4096 * unat (init_ram_pages demo_vm)"
    "0xc0101000 \<noteq> init_page_dir demo_vm"
    by simp_all
  obtain s e where s: "pagedir_ok s 0xc0101000" "mapping s 0xc0101000 0x8048000 = Some e" "pte_create_user 0xc0200000 True = Inr e"
  proof (cases rule: set_page_ok [OF demo_vm_ok lim(2) demo_page(1,5) demo_mapping demo_pd(2) lim(1), of True, case_names mapped full])
    case (mapped s' e)
    then show thesis
      by (intro that [of s' e]) simp_all
  qed (use demo_pool_used(2) in simp)
  define s1 where "s1 = s\<lparr>cr3 := 0x3000\<rparr>"
  have s1: "pagedir_ok s1 0xc0101000" "mapping s1 0xc0101000 0x8048000 = Some e" "cr3 s1 < PHYS_BASE"
    using s by (simp_all add: s1_def PHYS_BASE_def)
  have "pte_get_page e = Inr 0xc0200000"
    using pte_roundtrip [of "0xc0200000" True] s(3) demo_page(3,7) by auto
  then have "pagedir_get_page s1 0xc0101000 0x8048000 \<noteq> Some (Inr 0)"
    using get_page_mapping [OF s1(1) demo_page(5)] s1(2) by (simp add: demo_page(1))
  then show ?thesis
    using pagedir_clear_page_is_mapped [OF s1(1) demo_page(1,5) s1(3)] demo_page(5) by metis
qed

end
