(* ===== verification/Threads.thy ===== *)
theory Threads
  imports Pagedir
begin

text \<open>
  The thread system: \<^verbatim>\<open>threads/thread.c\<close>, with the interrupt level and the external-interrupt
  bookkeeping of \<^verbatim>\<open>threads/interrupt.c\<close> it depends on, the stack switch of \<^verbatim>\<open>threads/switch.S\<close> and the
  context activation of \<^verbatim>\<open>userprog/process.c\<close>. The state is the processor (stack pointer, interrupt flag), the
  scheduler's variables, and the thread structures by the address of their page. A function that switches
  threads returns the state in which the next thread continues; what the suspended thread does when
  it continues is the business of its caller (theory \<open>Synch\<close> keeps it explicitly).
\<close>

section \<open>State\<close>

datatype thread_status = THREAD_RUNNING | THREAD_READY | THREAD_BLOCKED | THREAD_DYING

datatype intr_level = INTR_OFF | INTR_ON

definition TID_ERROR :: u32 where
  "TID_ERROR = - 1"

definition PRI_MIN :: u32 where
  "PRI_MIN = 0"

definition PRI_DEFAULT :: u32 where
  "PRI_DEFAULT = 31"

definition PRI_MAX :: u32 where
  "PRI_MAX = 63"

definition THREAD_MAGIC :: u32 where
  "THREAD_MAGIC = 0xcd6abf4b"

definition TIME_SLICE :: u32 where
  "TIME_SLICE = 4"

record thread =
  tid :: u32
  status :: thread_status
  thread_name_buf :: string
  stack :: addr
  priority :: u32
  wait_called :: bool
  waiting_thread :: u32
  child_exit_status :: u32
  exit_status :: u32
  fds :: "addr list"
  pagedir :: addr
  magic :: u32

text \<open>A structure after \<^verbatim>\<open>memset (t, 0, sizeof *t)\<close>, and one whose page \<^verbatim>\<open>palloc_free_page\<close> has filled with
  \<^verbatim>\<open>0xcc\<close> (the status there is no value of the enumeration and never read).\<close>

definition zero_thread :: thread where
  "zero_thread = \<lparr>tid = 0, status = THREAD_RUNNING, thread_name_buf = [], stack = 0, priority = 0, wait_called = False,
     waiting_thread = 0, child_exit_status = 0, exit_status = 0, fds = replicate 128 0, pagedir = 0, magic = 0\<rparr>"

definition freed_thread :: thread where
  "freed_thread = \<lparr>tid = 0xcccccccc, status = THREAD_DYING, thread_name_buf = replicate 16 (char_of (0xcc :: nat)),
     stack = 0xcccccccc, priority = 0xcccccccc, wait_called = True, waiting_thread = 0xcccccccc,
     child_exit_status = 0xcccccccc, exit_status = 0xcccccccc, fds = replicate 128 0xcccccccc,
     pagedir = 0xcccccccc, magic = 0xcccccccc\<rparr>"

text \<open>\<open>esp\<close> is the processor's stack pointer, \<open>level\<close> its interrupt flag; \<open>tss_esp0\<close> is the ring 0 stack pointer in the
  task-state segment, absent before \<^verbatim>\<open>tss_init\<close>.\<close>

record kern =
  vmem :: vm
  threads :: "addr \<Rightarrow> thread"
  ready_list :: "addr list"
  all_list :: "addr list"
  idle_thread :: addr
  initial_thread :: addr
  next_tid :: u32
  idle_ticks :: u64
  kernel_ticks :: u64
  user_ticks :: u64
  thread_ticks :: u32
  esp :: addr
  level :: intr_level
  in_external_intr :: bool
  yield_on_return :: bool
  tss_esp0 :: "addr option"

definition upd_thread :: "kern \<Rightarrow> addr \<Rightarrow> (thread \<Rightarrow> thread) \<Rightarrow> kern" where
  "upd_thread st t f = st\<lparr>threads := (threads st)(t := f (threads st t))\<rparr>"

section \<open>Interrupts\<close>

definition intr_get_level :: "kern \<Rightarrow> intr_level" where
  "intr_get_level st = level st"

definition intr_context :: "kern \<Rightarrow> bool" where
  "intr_context st = in_external_intr st"

definition intr_enable :: "kern \<Rightarrow> (kern \<times> intr_level) res" where
  "intr_enable st = ASSERT (\<not> intr_context st) (Inr (st\<lparr>level := INTR_ON\<rparr>, intr_get_level st))"

definition intr_disable :: "kern \<Rightarrow> kern \<times> intr_level" where
  "intr_disable st = (st\<lparr>level := INTR_OFF\<rparr>, intr_get_level st)"

definition intr_set_level :: "kern \<Rightarrow> intr_level \<Rightarrow> (kern \<times> intr_level) res" where
  "intr_set_level st l = (if l = INTR_ON then intr_enable st else Inr (intr_disable st))"

text \<open>\<^verbatim>\<open>intr_set_level (old_level)\<close> as a statement.\<close>

definition restore_level :: "kern \<Rightarrow> intr_level \<Rightarrow> kern res" where
  "restore_level st l = bnd (intr_set_level st l) (\<lambda>(st, _). Inr st)"

definition intr_yield_on_return :: "kern \<Rightarrow> kern res" where
  "intr_yield_on_return st = ASSERT (intr_context st) (Inr (st\<lparr>yield_on_return := True\<rparr>))"

section \<open>The running thread\<close>

definition running_thread :: "kern \<Rightarrow> addr" where
  "running_thread st = pg_round_down (esp st)"

definition is_thread :: "kern \<Rightarrow> addr \<Rightarrow> bool" where
  "is_thread st t \<longleftrightarrow> t \<noteq> 0 \<and> magic (threads st t) = THREAD_MAGIC"

definition thread_current :: "kern \<Rightarrow> addr res" where
  "thread_current st =
     (let t = running_thread st in
      ASSERT (is_thread st t) (ASSERT (status (threads st t) = THREAD_RUNNING) (Inr t)))"

definition thread_name :: "kern \<Rightarrow> string res" where
  "thread_name st = bnd (thread_current st) (\<lambda>t. Inr (thread_name_buf (threads st t)))"

definition thread_tid :: "kern \<Rightarrow> u32 res" where
  "thread_tid st = bnd (thread_current st) (\<lambda>t. Inr (tid (threads st t)))"

definition thread_set_priority :: "kern \<Rightarrow> u32 \<Rightarrow> kern res" where
  "thread_set_priority st new_priority =
     bnd (thread_current st) (\<lambda>t. Inr (upd_thread st t (priority_update (\<lambda>_. new_priority))))"

definition thread_get_priority :: "kern \<Rightarrow> u32 res" where
  "thread_get_priority st = bnd (thread_current st) (\<lambda>t. Inr (priority (threads st t)))"

fun find_tid :: "kern \<Rightarrow> u32 \<Rightarrow> addr list \<Rightarrow> addr" where
  "find_tid st n [] = 0"
| "find_tid st n (t # ts) = (if tid (threads st t) = n then t else find_tid st n ts)"

definition get_thread :: "kern \<Rightarrow> u32 \<Rightarrow> (kern \<times> addr) res" where
  "get_thread st n =
     (let (st, intr_state) = intr_disable st;
          t = find_tid st n (all_list st)
      in bnd (restore_level st intr_state) (\<lambda>st. Inr (st, t)))"

definition thread_foreach :: "kern \<Rightarrow> (kern \<Rightarrow> addr \<Rightarrow> kern res) \<Rightarrow> kern res" where
  "thread_foreach st func =
     ASSERT (intr_get_level st = INTR_OFF) (fold (\<lambda>t r. bnd r (\<lambda>st. func st t)) (all_list st) (Inr st))"

section \<open>Switching threads\<close>

definition next_thread_to_run :: "kern \<Rightarrow> kern \<times> addr" where
  "next_thread_to_run st =
     (case ready_list st of [] \<Rightarrow> (st, idle_thread st) | t # ts \<Rightarrow> (st\<lparr>ready_list := ts\<rparr>, t))"

text \<open>Four registers are pushed before the stack pointer is saved and popped after the new one is loaded.\<close>

definition switch_threads :: "kern \<Rightarrow> addr \<Rightarrow> addr \<Rightarrow> kern" where
  "switch_threads st cur nxt =
     (let st = upd_thread st cur (stack_update (\<lambda>_. esp st - 16)) in st\<lparr>esp := stack (threads st nxt) + 16\<rparr>)"

definition tss_update :: "kern \<Rightarrow> kern res" where
  "tss_update st =
     ASSERT (tss_esp0 st \<noteq> None) (bnd (thread_current st) (\<lambda>t. Inr (st\<lparr>tss_esp0 := Some (t + PGSIZE)\<rparr>)))"

definition process_activate :: "kern \<Rightarrow> kern res" where
  "process_activate st =
     bnd (thread_current st) (\<lambda>t.
     bnd (pagedir_activate (vmem st) (pagedir (threads st t))) (\<lambda>v.
     tss_update (st\<lparr>vmem := v\<rparr>)))"

definition thread_schedule_tail :: "kern \<Rightarrow> addr \<Rightarrow> kern res" where
  "thread_schedule_tail st prev =
     (let cur = running_thread st in
      ASSERT (intr_get_level st = INTR_OFF)
        (let st = (upd_thread st cur (status_update (\<lambda>_. THREAD_RUNNING)))\<lparr>thread_ticks := 0\<rparr> in
         bnd (process_activate st) (\<lambda>st.
         if prev \<noteq> 0 \<and> status (threads st prev) = THREAD_DYING \<and> prev \<noteq> initial_thread st then
           ASSERT (prev \<noteq> cur)
             (bnd (palloc_free_page (pa (vmem st)) prev) (\<lambda>p.
              Inr (upd_thread (st\<lparr>vmem := (vmem st)\<lparr>pa := p\<rparr>\<rparr>) prev (\<lambda>_. freed_thread))))
         else Inr st)))"

definition schedule :: "kern \<Rightarrow> kern res" where
  "schedule st =
     (let cur = running_thread st;
          (st, nxt) = next_thread_to_run st
      in ASSERT (intr_get_level st = INTR_OFF) (ASSERT (status (threads st cur) \<noteq> THREAD_RUNNING) (
         ASSERT (is_thread st nxt)
           (if cur \<noteq> nxt then thread_schedule_tail (switch_threads st cur nxt) cur
            else thread_schedule_tail st 0))))"

definition thread_block :: "kern \<Rightarrow> kern res" where
  "thread_block st =
     ASSERT (\<not> intr_context st) (ASSERT (intr_get_level st = INTR_OFF)
       (bnd (thread_current st) (\<lambda>t. schedule (upd_thread st t (status_update (\<lambda>_. THREAD_BLOCKED))))))"

definition thread_unblock :: "kern \<Rightarrow> addr \<Rightarrow> kern res" where
  "thread_unblock st t =
     ASSERT (is_thread st t)
       (let (st, old_level) = intr_disable st in
        ASSERT (status (threads st t) = THREAD_BLOCKED)
          (let st = st\<lparr>ready_list := ready_list st @ [t]\<rparr> in
           restore_level (upd_thread st t (status_update (\<lambda>_. THREAD_READY))) old_level))"

text \<open>\<^verbatim>\<open>thread_yield\<close> up to and including the switch; the \<^verbatim>\<open>intr_set_level (old_level)\<close> after it runs when the thread
  continues.\<close>

definition thread_yield :: "kern \<Rightarrow> kern res" where
  "thread_yield st =
     bnd (thread_current st) (\<lambda>cur.
     ASSERT (\<not> intr_context st)
       (let (st, old_level) = intr_disable st;
            st = (if cur \<noteq> idle_thread st then st\<lparr>ready_list := ready_list st @ [cur]\<rparr> else st)
        in schedule (upd_thread st cur (status_update (\<lambda>_. THREAD_READY)))))"

text \<open>The part of \<^verbatim>\<open>thread_exit\<close> after \<^verbatim>\<open>process_exit\<close>. \<^verbatim>\<open>waiting_thread\<close> is a thread identifier, which the code compares with
  \<^verbatim>\<open>NULL\<close>.\<close>

definition exit_current :: "kern \<Rightarrow> kern res" where
  "exit_current st =
     (let (st, _) = intr_disable st in
      bnd (thread_current st) (\<lambda>cur.
      let st = st\<lparr>all_list := remove1 cur (all_list st)\<rparr> in
      bnd (if waiting_thread (threads st cur) \<noteq> 0 then
             bnd (get_thread st (waiting_thread (threads st cur))) (\<lambda>(st, w).
             bnd (thread_unblock st w) (\<lambda>st.
             bnd (get_thread st (waiting_thread (threads st cur))) (\<lambda>(st, w).
             if w = 0 then Inl Null_deref
             else Inr (upd_thread st w (child_exit_status_update (\<lambda>_. exit_status (threads st cur)))))))
           else Inr st) (\<lambda>st.
      schedule (upd_thread st cur (status_update (\<lambda>_. THREAD_DYING))))))"

section \<open>Creating threads\<close>

definition allocate_tid :: "kern \<Rightarrow> kern \<times> u32" where
  "allocate_tid st = (st\<lparr>next_tid := next_tid st + 1\<rparr>, next_tid st)"

text \<open>The name is copied by \<^verbatim>\<open>strlcpy\<close> into 16 bytes.\<close>

definition init_thread :: "kern \<Rightarrow> addr \<Rightarrow> string \<Rightarrow> u32 \<Rightarrow> kern res" where
  "init_thread st t name prio =
     ASSERT (t \<noteq> 0) (ASSERT (PRI_MIN \<le>s prio \<and> prio \<le>s PRI_MAX)
       (let st = upd_thread st t (\<lambda>_. zero_thread\<lparr>status := THREAD_BLOCKED, thread_name_buf := take 15 name,
              stack := t + PGSIZE, priority := prio, magic := THREAD_MAGIC, wait_called := False,
              child_exit_status := 0, exit_status := 0\<rparr>);
            (st, old_level) = intr_disable st
        in restore_level (st\<lparr>all_list := all_list st @ [t]\<rparr>) old_level))"

definition alloc_frame :: "kern \<Rightarrow> addr \<Rightarrow> u32 \<Rightarrow> (kern \<times> addr) res" where
  "alloc_frame st t sz =
     ASSERT (is_thread st t) (ASSERT (sz mod 4 = 0)
       (let st = upd_thread st t (\<lambda>th. th\<lparr>stack := stack th - sz\<rparr>) in Inr (st, stack (threads st t))))"

definition store_word :: "kern \<Rightarrow> addr \<Rightarrow> u32 \<Rightarrow> kern" where
  "store_word st a w = st\<lparr>vmem := write_entry (vmem st) a w\<rparr>"

text \<open>\<open>kernel_thread\<close> and \<open>switch_entry\<close> are the addresses of the code of these functions.\<close>

definition thread_create ::
  "addr \<Rightarrow> addr \<Rightarrow> kern \<Rightarrow> string \<Rightarrow> u32 \<Rightarrow> addr \<Rightarrow> u32 \<Rightarrow> (kern \<times> u32) run" where
  "thread_create kernel_thread switch_entry st name prio function_addr aux =
     check (function_addr \<noteq> 0)
       (andThen (palloc_get_page (pa (vmem st)) PAL_ZERO) (\<lambda>(p, t).
        let st = st\<lparr>vmem := (vmem st)\<lparr>pa := p\<rparr>\<rparr> in
        if t = 0 then Some (Inr (st, TID_ERROR))
        else Some (bnd (init_thread st t name prio) (\<lambda>st.
          let (st, n) = allocate_tid st;
              st = upd_thread st t (tid_update (\<lambda>_. n))
          in bnd (alloc_frame st t 12) (\<lambda>(st, kf).
             let st = store_word (store_word (store_word st kf 0) (kf + 4) function_addr) (kf + 8) aux in
             bnd (alloc_frame st t 4) (\<lambda>(st, ef).
             let st = store_word st ef kernel_thread in
             bnd (alloc_frame st t 28) (\<lambda>(st, sf).
             let st = store_word (store_word st (sf + 16) switch_entry) (sf + 8) 0 in
             bnd (thread_unblock st t) (\<lambda>st. Inr (st, n)))))))))"

section \<open>Timer ticks\<close>

definition thread_tick :: "kern \<Rightarrow> kern res" where
  "thread_tick st =
     bnd (thread_current st) (\<lambda>t.
     let st = (if t = idle_thread st then st\<lparr>idle_ticks := idle_ticks st + 1\<rparr>
               else if pagedir (threads st t) \<noteq> 0 then st\<lparr>user_ticks := user_ticks st + 1\<rparr>
               else st\<lparr>kernel_ticks := kernel_ticks st + 1\<rparr>);
         st = st\<lparr>thread_ticks := thread_ticks st + 1\<rparr>
     in if thread_ticks st \<ge> TIME_SLICE then intr_yield_on_return st else Inr st)"

text \<open>\<^verbatim>\<open>thread_init\<close>: the running code becomes the first thread.\<close>

definition thread_init :: "kern \<Rightarrow> kern res" where
  "thread_init st =
     ASSERT (intr_get_level st = INTR_OFF)
       (let st = st\<lparr>ready_list := [], all_list := [], initial_thread := running_thread st\<rparr>;
            t = initial_thread st
        in bnd (init_thread st t ''main'' PRI_DEFAULT) (\<lambda>st.
           let st = upd_thread st t (status_update (\<lambda>_. THREAD_RUNNING));
               (st, n) = allocate_tid st
           in Inr (upd_thread st t (tid_update (\<lambda>_. n)))))"

section \<open>The scheduler's invariant\<close>

text \<open>What holds of the scheduler's state when the running thread has status \<open>s\<close>: the threads on the list of all threads are real ones,
  whose saved stack pointers lead back to them; the run queue has no duplicates and holds exactly the ready threads
  but the idle thread. Between the operations \<open>s\<close> is \<open>THREAD_RUNNING\<close>; \<^verbatim>\<open>schedule\<close> is called with another one.\<close>

definition thread_ok :: "thread \<Rightarrow> bool" where
  "thread_ok th \<longleftrightarrow> magic th = THREAD_MAGIC \<and> (pagedir th = 0 \<or> PHYS_BASE \<le> pagedir th)"

definition sched_inv :: "thread_status \<Rightarrow> kern \<Rightarrow> bool" where
  "sched_inv s st \<longleftrightarrow>
     distinct (all_list st) \<and> 0 \<notin> set (all_list st)
     \<and> running_thread st \<in> set (all_list st) \<and> idle_thread st \<in> set (all_list st)
     \<and> (\<forall>t \<in> set (all_list st). thread_ok (threads st t))
     \<and> (\<forall>t \<in> set (all_list st) - {running_thread st}. pg_round_down (stack (threads st t) + 16) = t
          \<and> status (threads st t) \<in> {THREAD_READY, THREAD_BLOCKED})
     \<and> status (threads st (running_thread st)) = s
     \<and> distinct (ready_list st) \<and> set (ready_list st) \<subseteq> set (all_list st) - {idle_thread st}
     \<and> (\<forall>t \<in> set (all_list st) - {idle_thread st}. t \<in> set (ready_list st) \<longleftrightarrow> status (threads st t) = THREAD_READY)
     \<and> PHYS_BASE \<le> init_page_dir (vmem st) \<and> tss_esp0 st \<noteq> None"

abbreviation sched_ok :: "kern \<Rightarrow> bool" where
  "sched_ok \<equiv> sched_inv THREAD_RUNNING"

text \<open>The parts of the state a switch leaves alone.\<close>

definition same_sched :: "kern \<Rightarrow> kern \<Rightarrow> bool" where
  "same_sched st st' \<longleftrightarrow> all_list st' = all_list st \<and> idle_thread st' = idle_thread st
     \<and> in_external_intr st' = in_external_intr st"

lemma upd_thread_sel [simp]:
  "threads (upd_thread st t f) = (threads st)(t := f (threads st t))"
  "ready_list (upd_thread st t f) = ready_list st" "all_list (upd_thread st t f) = all_list st"
  "idle_thread (upd_thread st t f) = idle_thread st" "initial_thread (upd_thread st t f) = initial_thread st"
  "esp (upd_thread st t f) = esp st" "level (upd_thread st t f) = level st" "vmem (upd_thread st t f) = vmem st"
  "in_external_intr (upd_thread st t f) = in_external_intr st" "tss_esp0 (upd_thread st t f) = tss_esp0 st"
  "thread_ticks (upd_thread st t f) = thread_ticks st" "yield_on_return (upd_thread st t f) = yield_on_return st"
  "running_thread (upd_thread st t f) = running_thread st" "next_tid (upd_thread st t f) = next_tid st"
  by (simp_all add: upd_thread_def running_thread_def)

lemma running_thread_upd [simp]:
  "running_thread (st\<lparr>ready_list := r\<rparr>) = running_thread st" "running_thread (st\<lparr>level := l\<rparr>) = running_thread st"
  "running_thread (st\<lparr>in_external_intr := b\<rparr>) = running_thread st" "running_thread (st\<lparr>yield_on_return := b\<rparr>) = running_thread st"
  "running_thread (st\<lparr>thread_ticks := n\<rparr>) = running_thread st" "running_thread (st\<lparr>vmem := v\<rparr>) = running_thread st"
  "running_thread (st\<lparr>tss_esp0 := e\<rparr>) = running_thread st" "running_thread (st\<lparr>all_list := a\<rparr>) = running_thread st"
  "running_thread (st\<lparr>idle_ticks := n64\<rparr>) = running_thread st" "running_thread (st\<lparr>kernel_ticks := n64\<rparr>) = running_thread st"
  "running_thread (st\<lparr>user_ticks := n64\<rparr>) = running_thread st"
  by (simp_all add: running_thread_def)

lemma activate_ok:
  assumes "PHYS_BASE \<le> init_page_dir v" and "pd = 0 \<or> PHYS_BASE \<le> pd"
  shows "\<exists>p. pagedir_activate v pd = Inr (v\<lparr>cr3 := p\<rparr>)"
  using assms by (auto simp: pagedir_activate_def vtop_def is_kernel_vaddr_def ASSERT_def)

text \<open>The end of a switch, in the context of thread \<open>t\<close>.\<close>

lemma schedule_tail_ok:
  assumes "running_thread st = t" and "t \<noteq> 0" and "thread_ok (threads st t)" and "level st = INTR_OFF"
    and "PHYS_BASE \<le> init_page_dir (vmem st)" and "tss_esp0 st \<noteq> None" and "prev = 0 \<or> status (threads st prev) \<noteq> THREAD_DYING"
  obtains v e where "thread_schedule_tail st prev =
      Inr ((upd_thread st t (status_update (\<lambda>_. THREAD_RUNNING)))\<lparr>thread_ticks := 0, vmem := v, tss_esp0 := Some e\<rparr>)"
    and "init_page_dir v = init_page_dir (vmem st)"
proof -
  obtain p where p: "pagedir_activate (vmem st) (pagedir (threads st t)) = Inr ((vmem st)\<lparr>cr3 := p\<rparr>)"
    using activate_ok [of "vmem st"] assms(3,5) by (auto simp: thread_ok_def)
  have "thread_schedule_tail st prev =
      Inr ((upd_thread st t (status_update (\<lambda>_. THREAD_RUNNING)))\<lparr>thread_ticks := 0, vmem := (vmem st)\<lparr>cr3 := p\<rparr>,
        tss_esp0 := Some (t + PGSIZE)\<rparr>)"
    using assms p by (auto simp: thread_schedule_tail_def process_activate_def tss_update_def thread_current_def is_thread_def
        thread_ok_def intr_get_level_def ASSERT_def Let_def fun_upd_def)
  then show thesis
    by (rule that) simp
qed

definition next_thread :: "kern \<Rightarrow> addr" where
  "next_thread st = (case ready_list st of [] \<Rightarrow> idle_thread st | t # _ \<Rightarrow> t)"

lemma schedule_ok:
  assumes inv: "sched_inv s st" and s: "s \<in> {THREAD_READY, THREAD_BLOCKED}" and off: "level st = INTR_OFF"
  obtains st' where "schedule st = Inr st'" and "sched_ok st'" and "running_thread st' = next_thread st"
    and "ready_list st' = tl (ready_list st)" and "same_sched st st'" and "level st' = INTR_OFF" and "thread_ticks st' = 0"
    and "\<And>t. status (threads st' t) = (if t = next_thread st then THREAD_RUNNING else status (threads st t))"
proof -
  let ?cur = "running_thread st" and ?n = "next_thread st"
  define st1 where "st1 = st\<lparr>ready_list := tl (ready_list st)\<rparr>"
  have n: "next_thread_to_run st = (st1, ?n)"
    by (auto simp: next_thread_to_run_def next_thread_def st1_def split: list.split)
  have nall: "?n \<in> set (all_list st)"
    using inv by (auto simp: sched_inv_def next_thread_def split: list.split)
  then have nok: "thread_ok (threads st ?n)" "?n \<noteq> 0"
    using inv by (auto simp: sched_inv_def)
  define st2 where "st2 = (if ?cur \<noteq> ?n then switch_threads st1 ?cur ?n else st1)"
  have run2: "running_thread st2 = ?n"
    using inv nall by (auto simp: st2_def switch_threads_def st1_def sched_inv_def running_thread_def Let_def)
  have sel2: "level st2 = INTR_OFF" "vmem st2 = vmem st" "tss_esp0 st2 = tss_esp0 st" "all_list st2 = all_list st"
    "idle_thread st2 = idle_thread st" "ready_list st2 = tl (ready_list st)" "in_external_intr st2 = in_external_intr st"
    using off by (simp_all add: st2_def switch_threads_def st1_def Let_def)
  have th2: "threads st2 = (threads st)(?cur := (threads st ?cur)\<lparr>stack := if ?cur \<noteq> ?n then esp st - 16 else stack (threads st ?cur)\<rparr>)"
    by (auto simp: st2_def switch_threads_def st1_def Let_def)
  have prev: "schedule st = thread_schedule_tail st2 (if ?cur \<noteq> ?n then ?cur else 0)"
    using inv s off nok by (auto simp: schedule_def n st2_def st1_def sched_inv_def intr_get_level_def is_thread_def thread_ok_def
        Let_def ASSERT_def)
  have d: "(if ?cur \<noteq> ?n then ?cur else 0) = 0 \<or> status (threads st2 (if ?cur \<noteq> ?n then ?cur else 0)) \<noteq> THREAD_DYING"
    using inv s by (auto simp: th2 sched_inv_def)
  have ok2: "thread_ok (threads st2 ?n)"
    using nok(1) by (auto simp: th2 thread_ok_def)
  have vm2: "PHYS_BASE \<le> init_page_dir (vmem st2)" "tss_esp0 st2 \<noteq> None"
    using inv by (simp_all add: sel2 sched_inv_def)
  obtain v e where
    tail: "thread_schedule_tail st2 (if ?cur \<noteq> ?n then ?cur else 0)
      = Inr ((upd_thread st2 ?n (status_update (\<lambda>_. THREAD_RUNNING)))\<lparr>thread_ticks := 0, vmem := v, tss_esp0 := Some e\<rparr>)"
    and v: "init_page_dir v = init_page_dir (vmem st2)"
    by (rule schedule_tail_ok [OF run2 nok(2) ok2 sel2(1) vm2 d])
  define st' where "st' = (upd_thread st2 ?n (status_update (\<lambda>_. THREAD_RUNNING)))\<lparr>thread_ticks := 0, vmem := v, tss_esp0 := Some e\<rparr>"
  have sel: "level st' = INTR_OFF" "all_list st' = all_list st" "idle_thread st' = idle_thread st" "ready_list st' = tl (ready_list st)"
    "in_external_intr st' = in_external_intr st" "running_thread st' = ?n" "thread_ticks st' = 0" "vmem st' = v" "tss_esp0 st' = Some e"
    using sel2 run2 by (simp_all add: st'_def)
  have stat: "status (threads st' t) = (if t = ?n then THREAD_RUNNING else status (threads st t))" for t
    by (simp add: st'_def th2)
  have ok: "thread_ok (threads st' t) = thread_ok (threads st t)" for t
    by (simp add: st'_def th2 thread_ok_def)
  have stk: "stack (threads st' t) = (if t = ?cur \<and> ?cur \<noteq> ?n then esp st - 16 else stack (threads st t))" for t
    by (simp add: st'_def th2)
  have rdy: "t \<in> set (tl (ready_list st)) \<longleftrightarrow> t \<in> set (ready_list st) \<and> t \<noteq> ?n" for t
    using inv by (cases "ready_list st") (auto simp: sched_inv_def next_thread_def)
  have "sched_ok st'"
    unfolding sched_inv_def sel stat ok stk using inv s nall v sel2(2)
    by (auto simp: sched_inv_def rdy distinct_tl running_thread_def)
  moreover have "same_sched st st'"
    by (simp add: same_sched_def sel)
  ultimately show thesis
    using that [of st'] tail sel stat prev by (simp add: st'_def)
qed

section \<open>What the operations do\<close>

lemma current_ok: "sched_ok st \<Longrightarrow> thread_current st = Inr (running_thread st)"
  by (auto simp: sched_inv_def thread_current_def is_thread_def thread_ok_def ASSERT_def Let_def)

lemma sched_inv_irrelevant [simp]:
  "sched_inv s (st\<lparr>level := l\<rparr>) = sched_inv s st" "sched_inv s (st\<lparr>in_external_intr := b\<rparr>) = sched_inv s st"
  "sched_inv s (st\<lparr>yield_on_return := b\<rparr>) = sched_inv s st" "sched_inv s (st\<lparr>thread_ticks := n\<rparr>) = sched_inv s st"
  "sched_inv s (st\<lparr>idle_ticks := n64\<rparr>) = sched_inv s st" "sched_inv s (st\<lparr>kernel_ticks := n64\<rparr>) = sched_inv s st"
  "sched_inv s (st\<lparr>user_ticks := n64\<rparr>) = sched_inv s st"
  by (simp_all add: sched_inv_def)

lemma block_ok:
  assumes ok: "sched_ok st" and off: "level st = INTR_OFF" "\<not> in_external_intr st"
  obtains st' where "thread_block st = Inr st'" and "sched_ok st'" and "running_thread st' = next_thread st"
    and "ready_list st' = tl (ready_list st)" and "same_sched st st'" and "level st' = INTR_OFF" and "thread_ticks st' = 0"
    and "\<And>t. status (threads st' t) = (if t = next_thread st then THREAD_RUNNING
           else if t = running_thread st then THREAD_BLOCKED else status (threads st t))"
proof -
  let ?cur = "running_thread st"
  define st1 where "st1 = upd_thread st ?cur (status_update (\<lambda>_. THREAD_BLOCKED))"
  have inv: "sched_inv THREAD_BLOCKED st1"
    using ok by (auto simp: st1_def sched_inv_def thread_ok_def)
  have b: "thread_block st = schedule st1"
    using off current_ok [OF ok] by (simp add: thread_block_def intr_context_def intr_get_level_def ASSERT_def st1_def)
  have n: "next_thread st1 = next_thread st"
    by (simp add: st1_def next_thread_def split: list.split)
  have "level st1 = INTR_OFF"
    using off by (simp add: st1_def)
  from inv _ this show thesis
  proof (rule schedule_ok)
    fix st'
    assume *: "schedule st1 = Inr st'" "sched_ok st'" "running_thread st' = next_thread st1" "ready_list st' = tl (ready_list st1)"
      "same_sched st1 st'" "level st' = INTR_OFF" "thread_ticks st' = 0"
      "\<And>t. status (threads st' t) = (if t = next_thread st1 then THREAD_RUNNING else status (threads st1 t))"
    show thesis
      by (rule that [of st']) (use * b n in \<open>simp_all add: st1_def same_sched_def\<close>)
  qed simp
qed

lemma yield_ok:
  assumes ok: "sched_ok st" and off: "\<not> in_external_intr st"
  defines "q \<equiv> ready_list st @ (if running_thread st \<noteq> idle_thread st then [running_thread st] else [])"
  defines "n \<equiv> (case q of [] \<Rightarrow> idle_thread st | t # _ \<Rightarrow> t)"
  obtains st' where "thread_yield st = Inr st'" and "sched_ok st'" and "running_thread st' = n"
    and "ready_list st' = tl q" and "same_sched st st'" and "level st' = INTR_OFF" and "thread_ticks st' = 0"
    and "\<And>t. status (threads st' t) = (if t = n then THREAD_RUNNING
           else if t = running_thread st then THREAD_READY else status (threads st t))"
proof -
  let ?cur = "running_thread st"
  define st1 where "st1 = upd_thread (st\<lparr>level := INTR_OFF, ready_list := q\<rparr>) ?cur (status_update (\<lambda>_. THREAD_READY))"
  have sel: "running_thread st1 = ?cur" "ready_list st1 = q" "level st1 = INTR_OFF" "all_list st1 = all_list st"
    "idle_thread st1 = idle_thread st" "in_external_intr st1 = in_external_intr st" "next_thread st1 = n"
    by (simp_all add: st1_def next_thread_def n_def split: list.split)
  have "?cur \<notin> set (ready_list st)"
    using ok by (cases "?cur = idle_thread st") (auto simp: sched_inv_def)
  then have inv: "sched_inv THREAD_READY st1"
    using ok by (auto simp: sched_inv_def st1_def q_def thread_ok_def split: if_splits)
  have y: "thread_yield st = schedule st1"
    using off current_ok [OF ok]
    by (auto simp: thread_yield_def intr_context_def intr_disable_def ASSERT_def st1_def q_def Let_def)
  from inv _ sel(3) show thesis
  proof (rule schedule_ok)
    fix st'
    assume *: "schedule st1 = Inr st'" "sched_ok st'" "running_thread st' = next_thread st1" "ready_list st' = tl (ready_list st1)"
      "same_sched st1 st'" "level st' = INTR_OFF" "thread_ticks st' = 0"
      "\<And>t. status (threads st' t) = (if t = next_thread st1 then THREAD_RUNNING else status (threads st1 t))"
    show thesis
      by (rule that [of st']) (use * y sel in \<open>simp_all add: same_sched_def\<close>, simp add: st1_def)
  qed simp
qed

lemma unblock_ok:
  assumes ok: "sched_ok st" and t: "t \<in> set (all_list st)" "status (threads st t) = THREAD_BLOCKED" "t \<noteq> idle_thread st"
    and ctx: "in_external_intr st \<Longrightarrow> level st = INTR_OFF"
  obtains st' where "thread_unblock st t = Inr st'" and "sched_ok st'" and "running_thread st' = running_thread st"
    and "ready_list st' = ready_list st @ [t]" and "same_sched st st'" and "level st' = level st"
    and "thread_ticks st' = thread_ticks st" and "yield_on_return st' = yield_on_return st"
    and "\<And>u. status (threads st' u) = (if u = t then THREAD_READY else status (threads st u))"
proof -
  define st' where "st' = upd_thread (st\<lparr>ready_list := ready_list st @ [t]\<rparr>) t (status_update (\<lambda>_. THREAD_READY))"
  have "t \<noteq> running_thread st"
    using ok t by (auto simp: sched_inv_def)
  moreover have "t \<notin> set (ready_list st)"
    using ok t by (auto simp: sched_inv_def)
  ultimately have "sched_ok st'"
    using ok t by (auto simp: st'_def sched_inv_def thread_ok_def)
  moreover have "thread_unblock st t = Inr st'"
    using ok t ctx by (cases "level st") (auto simp: thread_unblock_def is_thread_def sched_inv_def thread_ok_def ASSERT_def Let_def st'_def
        intr_disable_def restore_level_def intr_set_level_def intr_enable_def intr_context_def intr_get_level_def upd_thread_def)
  ultimately show thesis
    using that [of st'] by (auto simp: st'_def same_sched_def)
qed

end
