(* ===== verification/Synch.thy ===== *)
theory Synch
  imports Threads
begin

text \<open>
  Synchronisation: \<^verbatim>\<open>threads/synch.c\<close>, and the interleaving of threads. A thread may lose the processor whenever interrupts are
  on, and always does when it blocks, so what a suspended thread still has to do is part of the state: a list of \<open>frame\<close>s per
  thread, each one statement (or call) that is left, the next one first. Code between two points where interrupts are on
  is one step. The events are calls by the running thread, its continuation, the timer and device interrupts, and
  the loop of the idle thread. The set of threads is fixed here; creating and ending threads is in the
  thread component.
\<close>

section \<open>State\<close>

text \<open>Where a semaphore is: one of its own, the one inside a lock, or the one inside the \<^verbatim>\<open>semaphore_elem\<close> on the
  stack of a thread in \<^verbatim>\<open>cond_wait\<close>.\<close>

datatype sema_ref = Sema addr | Lock_sema addr | Cond_sema addr

record semaphore =
  sema_value :: u32
  sema_waiters :: "addr list"

datatype frame =
    Call_sema_down sema_ref
  | In_sema_down sema_ref intr_level
  | Call_sema_up sema_ref
  | Set_holder addr
  | Call_lock_acquire addr
  | Call_lock_release addr
  | In_cond_broadcast addr addr
  | Set_level intr_level
  | Iret
  | Enable

record sys =
  kn :: kern
  semas :: "sema_ref \<Rightarrow> semaphore"
  holder :: "addr \<Rightarrow> addr"
  cond_waiters :: "addr \<Rightarrow> addr list"
  frames :: "addr \<Rightarrow> frame list"
  ticks :: u64
  unexpected_cnt :: "u32 \<Rightarrow> u32"

abbreviation cur :: "sys \<Rightarrow> addr" where
  "cur sg \<equiv> running_thread (kn sg)"

text \<open>The running thread gets more to do before what it has, or has done the first thing it had to do.\<close>

definition push :: "sys \<Rightarrow> frame list \<Rightarrow> sys" where
  "push sg fs = sg\<lparr>frames := (frames sg)(cur sg := fs @ frames sg (cur sg))\<rparr>"

definition pop :: "sys \<Rightarrow> sys" where
  "pop sg = sg\<lparr>frames := (frames sg)(cur sg := tl (frames sg (cur sg)))\<rparr>"

definition upd_sema :: "sys \<Rightarrow> sema_ref \<Rightarrow> (semaphore \<Rightarrow> semaphore) \<Rightarrow> sys" where
  "upd_sema sg s f = sg\<lparr>semas := (semas sg)(s := f (semas sg s))\<rparr>"

section \<open>Semaphores\<close>

definition sema_init :: "sys \<Rightarrow> sema_ref \<Rightarrow> u32 \<Rightarrow> sys" where
  "sema_init sg s v = upd_sema sg s (\<lambda>_. \<lparr>sema_value = v, sema_waiters = []\<rparr>)"

text \<open>\<^verbatim>\<open>sema_down\<close> up to the loop, and one test of the loop condition with what follows it.\<close>

definition sema_down :: "sys \<Rightarrow> sema_ref \<Rightarrow> sys res" where
  "sema_down sg s =
     ASSERT (\<not> intr_context (kn sg))
       (let (st, old_level) = intr_disable (kn sg) in Inr (push (sg\<lparr>kn := st\<rparr>) [In_sema_down s old_level]))"

definition sema_down_loop :: "sys \<Rightarrow> sema_ref \<Rightarrow> intr_level \<Rightarrow> sys res" where
  "sema_down_loop sg s old_level =
     (if sema_value (semas sg s) = 0 then
        bnd (thread_current (kn sg)) (\<lambda>t.
        bnd (thread_block (kn sg)) (\<lambda>st.
        Inr ((upd_sema sg s (\<lambda>x. x\<lparr>sema_waiters := sema_waiters x @ [t]\<rparr>))\<lparr>kn := st\<rparr>)))
      else
        bnd (restore_level (kn sg) old_level) (\<lambda>st.
        Inr (pop ((upd_sema sg s (\<lambda>x. x\<lparr>sema_value := sema_value x - 1\<rparr>))\<lparr>kn := st\<rparr>))))"

definition sema_try_down :: "sys \<Rightarrow> sema_ref \<Rightarrow> (sys \<times> bool) res" where
  "sema_try_down sg s =
     (let (st, old_level) = intr_disable (kn sg);
          success = (sema_value (semas sg s) > 0)
      in bnd (restore_level st old_level) (\<lambda>st.
         Inr ((if success then upd_sema sg s (\<lambda>x. x\<lparr>sema_value := sema_value x - 1\<rparr>) else sg)\<lparr>kn := st\<rparr>, success)))"

definition sema_up :: "sys \<Rightarrow> sema_ref \<Rightarrow> sys res" where
  "sema_up sg s =
     (let (st, old_level) = intr_disable (kn sg) in
      bnd (case sema_waiters (semas sg s) of
             [] \<Rightarrow> Inr (sg\<lparr>kn := st\<rparr>)
           | t # ts \<Rightarrow> bnd (thread_unblock st t) (\<lambda>st. Inr ((upd_sema sg s (\<lambda>x. x\<lparr>sema_waiters := ts\<rparr>))\<lparr>kn := st\<rparr>)))
        (\<lambda>sg. bnd (restore_level (kn sg) old_level) (\<lambda>st.
           Inr ((upd_sema sg s (\<lambda>x. x\<lparr>sema_value := sema_value x + 1\<rparr>))\<lparr>kn := st\<rparr>))))"

section \<open>Locks\<close>

definition lock_init :: "sys \<Rightarrow> addr \<Rightarrow> sys" where
  "lock_init sg l = sema_init (sg\<lparr>holder := (holder sg)(l := 0)\<rparr>) (Lock_sema l) 1"

definition lock_held_by_current_thread :: "sys \<Rightarrow> addr \<Rightarrow> bool res" where
  "lock_held_by_current_thread sg l = bnd (thread_current (kn sg)) (\<lambda>t. Inr (holder sg l = t))"

definition lock_acquire :: "sys \<Rightarrow> addr \<Rightarrow> sys res" where
  "lock_acquire sg l =
     ASSERT (\<not> intr_context (kn sg))
       (bnd (lock_held_by_current_thread sg l) (\<lambda>held. ASSERT (\<not> held)
          (Inr (push sg [Call_sema_down (Lock_sema l), Set_holder l]))))"

definition lock_try_acquire :: "sys \<Rightarrow> addr \<Rightarrow> (sys \<times> bool) res" where
  "lock_try_acquire sg l =
     bnd (lock_held_by_current_thread sg l) (\<lambda>held. ASSERT (\<not> held)
       (bnd (sema_try_down sg (Lock_sema l)) (\<lambda>(sg, success).
          Inr (if success then push sg [Set_holder l] else sg, success))))"

definition lock_release :: "sys \<Rightarrow> addr \<Rightarrow> sys res" where
  "lock_release sg l =
     bnd (lock_held_by_current_thread sg l) (\<lambda>held. ASSERT held
       (Inr (push (sg\<lparr>holder := (holder sg)(l := 0)\<rparr>) [Call_sema_up (Lock_sema l)])))"

section \<open>Condition variables\<close>

definition cond_init :: "sys \<Rightarrow> addr \<Rightarrow> sys" where
  "cond_init sg c = sg\<lparr>cond_waiters := (cond_waiters sg)(c := [])\<rparr>"

definition cond_wait :: "sys \<Rightarrow> addr \<Rightarrow> addr \<Rightarrow> sys res" where
  "cond_wait sg c l =
     ASSERT (\<not> intr_context (kn sg))
       (bnd (lock_held_by_current_thread sg l) (\<lambda>held. ASSERT held
         (bnd (thread_current (kn sg)) (\<lambda>t.
          let sg = sema_init sg (Cond_sema t) 0;
              sg = sg\<lparr>cond_waiters := (cond_waiters sg)(c := cond_waiters sg c @ [t])\<rparr>
          in Inr (push sg [Call_lock_release l, Call_sema_down (Cond_sema t), Call_lock_acquire l])))))"

definition cond_signal :: "sys \<Rightarrow> addr \<Rightarrow> addr \<Rightarrow> sys res" where
  "cond_signal sg c l =
     ASSERT (\<not> intr_context (kn sg))
       (bnd (lock_held_by_current_thread sg l) (\<lambda>held. ASSERT held
         (Inr (case cond_waiters sg c of
                 [] \<Rightarrow> sg
               | t # ts \<Rightarrow> push (sg\<lparr>cond_waiters := (cond_waiters sg)(c := ts)\<rparr>) [Call_sema_up (Cond_sema t)]))))"

definition cond_broadcast :: "sys \<Rightarrow> addr \<Rightarrow> addr \<Rightarrow> sys" where
  "cond_broadcast sg c l = push sg [In_cond_broadcast c l]"

section \<open>Continuing a thread\<close>

text \<open>\<open>Set_level\<close> is the end of \<^verbatim>\<open>thread_yield\<close>, \<open>Iret\<close> the return from an interrupt, which restores the interrupt flag of
  the interrupted code, and \<open>Enable\<close> the \<^verbatim>\<open>intr_enable\<close> at the start of \<^verbatim>\<open>kernel_thread\<close> and the \<^verbatim>\<open>sti\<close> of the
  idle loop.\<close>

definition resume :: "sys \<Rightarrow> sys res" where
  "resume sg =
     (case frames sg (cur sg) of
        [] \<Rightarrow> Inr sg
      | f # _ \<Rightarrow>
          (case f of
             Call_sema_down s \<Rightarrow> sema_down (pop sg) s
           | In_sema_down s old_level \<Rightarrow> sema_down_loop sg s old_level
           | Call_sema_up s \<Rightarrow> sema_up (pop sg) s
           | Set_holder l \<Rightarrow> bnd (thread_current (kn sg)) (\<lambda>t. Inr (pop (sg\<lparr>holder := (holder sg)(l := t)\<rparr>)))
           | Call_lock_acquire l \<Rightarrow> lock_acquire (pop sg) l
           | Call_lock_release l \<Rightarrow> lock_release (pop sg) l
           | In_cond_broadcast c l \<Rightarrow> if cond_waiters sg c = [] then Inr (pop sg) else cond_signal sg c l
           | Set_level old_level \<Rightarrow> bnd (restore_level (kn sg) old_level) (\<lambda>st. Inr (pop (sg\<lparr>kn := st\<rparr>)))
           | Iret \<Rightarrow> Inr (pop (sg\<lparr>kn := (kn sg)\<lparr>level := INTR_ON\<rparr>\<rparr>))
           | Enable \<Rightarrow> bnd (intr_enable (kn sg)) (\<lambda>(st, _). Inr (pop (sg\<lparr>kn := st\<rparr>)))))"

definition sys_yield :: "sys \<Rightarrow> sys res" where
  "sys_yield sg =
     (let sg = push sg [Set_level (intr_get_level (kn sg))] in
      bnd (thread_yield (kn sg)) (\<lambda>st. Inr (sg\<lparr>kn := st\<rparr>)))"

text \<open>One round of the loop of \<^verbatim>\<open>idle\<close>.\<close>

definition idle_loop :: "sys \<Rightarrow> sys res" where
  "idle_loop sg =
     (let (st, _) = intr_disable (kn sg);
          sg = push (sg\<lparr>kn := st\<rparr>) [Enable]
      in bnd (thread_block (kn sg)) (\<lambda>st. Inr (sg\<lparr>kn := st\<rparr>)))"

section \<open>Interrupts\<close>

text \<open>The message about an unexpected interrupt is left out.\<close>

definition unexpected_interrupt :: "sys \<Rightarrow> u32 \<Rightarrow> sys" where
  "unexpected_interrupt sg vec_no = sg\<lparr>unexpected_cnt := (unexpected_cnt sg)(vec_no := unexpected_cnt sg vec_no + 1)\<rparr>"

definition pic_end_of_interrupt :: "u32 \<Rightarrow> 'a \<Rightarrow> 'a res" where
  "pic_end_of_interrupt irq k = ASSERT (irq \<ge> 0x20 \<and> irq < 0x30) (Inr k)"

text \<open>\<open>handler\<close> is the registered handler of the vector, if there is one. The gate of an external interrupt turns interrupts off; the
  return from it restores them.\<close>

definition invoke_handler :: "sys \<Rightarrow> u32 \<Rightarrow> (sys \<Rightarrow> sys res) option \<Rightarrow> sys res" where
  "invoke_handler sg vec_no handler =
     (case handler of
        Some h \<Rightarrow> h sg
      | None \<Rightarrow> if vec_no = 0x27 \<or> vec_no = 0x2f then Inr sg else Inr (unexpected_interrupt sg vec_no))"

definition intr_handler :: "sys \<Rightarrow> u32 \<Rightarrow> (sys \<Rightarrow> sys res) option \<Rightarrow> sys res" where
  "intr_handler sg vec_no handler =
     (if vec_no \<ge> 0x20 \<and> vec_no < 0x30 then
        let st = (kn sg)\<lparr>level := INTR_OFF\<rparr> in
        ASSERT (intr_get_level st = INTR_OFF) (ASSERT (\<not> intr_context st)
          (bnd (invoke_handler (sg\<lparr>kn := st\<lparr>in_external_intr := True, yield_on_return := False\<rparr>\<rparr>) vec_no handler) (\<lambda>sg.
             ASSERT (intr_get_level (kn sg) = INTR_OFF) (ASSERT (intr_context (kn sg))
               (bnd (pic_end_of_interrupt vec_no (sg\<lparr>kn := (kn sg)\<lparr>in_external_intr := False\<rparr>\<rparr>)) (\<lambda>sg.
                if yield_on_return (kn sg) then sys_yield (push sg [Iret])
                else Inr (sg\<lparr>kn := (kn sg)\<lparr>level := INTR_ON\<rparr>\<rparr>)))))))
      else invoke_handler sg vec_no handler)"

definition timer_interrupt :: "sys \<Rightarrow> sys res" where
  "timer_interrupt sg = bnd (thread_tick (kn sg)) (\<lambda>st. Inr (sg\<lparr>ticks := ticks sg + 1, kn := st\<rparr>))"

section \<open>Steps\<close>

datatype call =
    Down addr
  | Up addr
  | Try_down addr
  | Acquire addr
  | Try_acquire addr
  | Release addr
  | Wait addr addr
  | Signal addr addr
  | Broadcast addr addr
  | Yield

fun do_call :: "call \<Rightarrow> sys \<Rightarrow> sys res" where
  "do_call (Down a) sg = sema_down sg (Sema a)"
| "do_call (Up a) sg = sema_up sg (Sema a)"
| "do_call (Try_down a) sg = bnd (sema_try_down sg (Sema a)) (\<lambda>(sg, _). Inr sg)"
| "do_call (Acquire l) sg = lock_acquire sg l"
| "do_call (Try_acquire l) sg = bnd (lock_try_acquire sg l) (\<lambda>(sg, _). Inr sg)"
| "do_call (Release l) sg = lock_release sg l"
| "do_call (Wait c l) sg = cond_wait sg c l"
| "do_call (Signal c l) sg = cond_signal sg c l"
| "do_call (Broadcast c l) sg = Inr (cond_broadcast sg c l)"
| "do_call Yield sg = sys_yield sg"

datatype event = Call call | Continue | Timer | Device_up addr | Idle

inductive step :: "sys \<Rightarrow> event \<Rightarrow> sys \<Rightarrow> bool" where
  call: "frames sg (cur sg) = [] \<Longrightarrow> level (kn sg) = INTR_ON \<Longrightarrow> cur sg \<noteq> idle_thread (kn sg) \<Longrightarrow>
     do_call c sg = Inr sg' \<Longrightarrow> step sg (Call c) sg'"
| continue: "frames sg (cur sg) \<noteq> [] \<Longrightarrow> resume sg = Inr sg' \<Longrightarrow> step sg Continue sg'"
| timer: "level (kn sg) = INTR_ON \<Longrightarrow> intr_handler sg 0x20 (Some timer_interrupt) = Inr sg' \<Longrightarrow> step sg Timer sg'"
| device: "level (kn sg) = INTR_ON \<Longrightarrow> vec_no \<ge> 0x20 \<Longrightarrow> vec_no < 0x30 \<Longrightarrow>
     intr_handler sg vec_no (Some (\<lambda>sg. sema_up sg (Sema a))) = Inr sg' \<Longrightarrow> step sg (Device_up a) sg'"
| idle: "frames sg (cur sg) = [] \<Longrightarrow> level (kn sg) = INTR_ON \<Longrightarrow> cur sg = idle_thread (kn sg) \<Longrightarrow>
     idle_loop sg = Inr sg' \<Longrightarrow> step sg Idle sg'"

inductive runs :: "sys \<Rightarrow> event list \<Rightarrow> sys \<Rightarrow> bool" where
  start: "runs sg [] sg"
| more: "step sg e sg1 \<Longrightarrow> runs sg1 es sg' \<Longrightarrow> runs sg (e # es) sg'"

section \<open>Invariants\<close>

fun atomic :: "frame \<Rightarrow> bool" where
  "atomic (In_sema_down s l) = True"
| "atomic (Set_level l) = True"
| "atomic Iret = True"
| "atomic Enable = True"
| "atomic _ = False"

text \<open>What follows a \<^verbatim>\<open>sema_down\<close> in thread \<open>t\<close>: on the semaphore of a lock, the assignment of the holder; and only a thread itself
  waits on the semaphore in its \<^verbatim>\<open>semaphore_elem\<close>.\<close>

fun after_down :: "addr \<Rightarrow> sema_ref \<Rightarrow> frame list \<Rightarrow> bool" where
  "after_down t (Sema a) fs = True"
| "after_down t (Lock_sema l) fs = (fs \<noteq> [] \<and> hd fs = Set_holder l)"
| "after_down t (Cond_sema u) fs = (u = t)"

fun plain :: "addr \<Rightarrow> frame list \<Rightarrow> bool" where
  "plain t [] = True"
| "plain t (f # fs) = (\<not> atomic f \<and> (\<forall>s. f = Call_sema_down s \<longrightarrow> after_down t s fs) \<and> plain t fs)"

text \<open>What a thread has to do that will continue with interrupts off.\<close>

fun off_frames :: "addr \<Rightarrow> frame list \<Rightarrow> bool" where
  "off_frames t [] = False"
| "off_frames t (f # fs) =
     (case f of
        In_sema_down s l \<Rightarrow> l = INTR_ON \<and> after_down t s fs \<and> plain t fs
      | Set_level l \<Rightarrow> if l = INTR_ON then plain t fs else fs \<noteq> [] \<and> hd fs = Iret \<and> plain t (tl fs)
      | Iret \<Rightarrow> plain t fs
      | Enable \<Rightarrow> plain t fs
      | _ \<Rightarrow> False)"

text \<open>With \<open>l\<close> the interrupt level of the running code, or of the code an interrupt handler interrupted.\<close>

definition frames_ok :: "intr_level \<Rightarrow> sys \<Rightarrow> bool" where
  "frames_ok l sg \<longleftrightarrow>
     (\<forall>t \<in> set (all_list (kn sg)) - {cur sg}. off_frames t (frames sg t))
     \<and> (if l = INTR_ON then plain (cur sg) (frames sg (cur sg)) else off_frames (cur sg) (frames sg (cur sg)))
     \<and> set (frames sg (idle_thread (kn sg))) \<subseteq> {Enable, Iret, Set_level INTR_OFF}"

fun down_on :: "sema_ref \<Rightarrow> frame list \<Rightarrow> bool" where
  "down_on s [] = False"
| "down_on s (f # fs) = (case f of In_sema_down s' l \<Rightarrow> s' = s | _ \<Rightarrow> False)"

abbreviation tstatus :: "sys \<Rightarrow> addr \<Rightarrow> thread_status" where
  "tstatus sg t \<equiv> status (threads (kn sg) t)"

abbreviation waiters :: "sys \<Rightarrow> sema_ref \<Rightarrow> addr list" where
  "waiters sg s \<equiv> sema_waiters (semas sg s)"

abbreviation count_of :: "sys \<Rightarrow> sema_ref \<Rightarrow> nat" where
  "count_of sg s \<equiv> unat (sema_value (semas sg s))"

text \<open>Each wait list has exactly the blocked threads inside \<^verbatim>\<open>sema_down\<close> of that semaphore, and every blocked thread but the idle
  thread is inside some \<^verbatim>\<open>sema_down\<close>.\<close>

definition waiting :: "sys \<Rightarrow> sema_ref \<Rightarrow> addr \<Rightarrow> bool" where
  "waiting sg s t \<longleftrightarrow> t \<in> set (all_list (kn sg)) \<and> t \<noteq> idle_thread (kn sg) \<and> tstatus sg t = THREAD_BLOCKED \<and> down_on s (frames sg t)"

definition queues_ok :: "sys \<Rightarrow> bool" where
  "queues_ok sg \<longleftrightarrow>
     (\<forall>s. distinct (waiters sg s) \<and> set (waiters sg s) = {t. waiting sg s t})
     \<and> (\<forall>t \<in> set (all_list (kn sg)). t \<noteq> idle_thread (kn sg) \<longrightarrow> tstatus sg t = THREAD_BLOCKED \<longrightarrow> (\<exists>s. down_on s (frames sg t)))"

text \<open>No wakeup is lost: while threads wait, every unit of the semaphore's value has a thread on its way to take it.\<close>

definition woken :: "sys \<Rightarrow> sema_ref \<Rightarrow> addr set" where
  "woken sg s = {t \<in> set (all_list (kn sg)). tstatus sg t \<noteq> THREAD_BLOCKED \<and> down_on s (frames sg t)}"

definition wake_ok :: "sys \<Rightarrow> bool" where
  "wake_ok sg \<longleftrightarrow> (\<forall>s. waiters sg s \<noteq> [] \<longrightarrow> count_of sg s \<le> card (woken sg s))"

text \<open>A lock is free, held, being taken (the semaphore is down, the holder not yet set) or being released, exactly one of them: the
  semaphore's value, the holder and what the threads have still to do with the lock add up to one.\<close>

fun weight :: "addr \<Rightarrow> frame \<Rightarrow> int" where
  "weight l (Set_holder l') = (if l' = l then 1 else 0)"
| "weight l (Call_sema_up s) = (if s = Lock_sema l then 1 else 0)"
| "weight l (Call_sema_down s) = (if s = Lock_sema l then - 1 else 0)"
| "weight l (In_sema_down s i) = (if s = Lock_sema l then - 1 else 0)"
| "weight l _ = 0"

definition tokens :: "addr \<Rightarrow> frame list \<Rightarrow> int" where
  "tokens l fs = sum_list (map (weight l) fs)"

definition lock_total :: "sys \<Rightarrow> addr \<Rightarrow> int" where
  "lock_total sg l = int (count_of sg (Lock_sema l)) + (if holder sg l \<noteq> 0 then 1 else 0)
     + (\<Sum>t \<in> set (all_list (kn sg)). tokens l (frames sg t))"

definition locks_ok :: "sys \<Rightarrow> bool" where
  "locks_ok sg \<longleftrightarrow> (\<forall>l. lock_total sg l = 1)"

definition sys_inv :: "intr_level \<Rightarrow> sys \<Rightarrow> bool" where
  "sys_inv l sg \<longleftrightarrow> sched_ok (kn sg) \<and> frames_ok l sg \<and> queues_ok sg \<and> wake_ok sg"

definition sys_ok :: "sys \<Rightarrow> bool" where
  "sys_ok sg \<longleftrightarrow> \<not> in_external_intr (kn sg) \<and> sys_inv (level (kn sg)) sg \<and> locks_ok sg"

section \<open>Simplification\<close>

lemma push_pop_sel [simp]:
  "kn (push sg fs) = kn sg" "semas (push sg fs) = semas sg" "holder (push sg fs) = holder sg"
  "cond_waiters (push sg fs) = cond_waiters sg" "frames (push sg fs) = (frames sg)(cur sg := fs @ frames sg (cur sg))"
  "kn (pop sg) = kn sg" "semas (pop sg) = semas sg" "holder (pop sg) = holder sg"
  "cond_waiters (pop sg) = cond_waiters sg" "frames (pop sg) = (frames sg)(cur sg := tl (frames sg (cur sg)))"
  by (simp_all add: push_def pop_def)

lemma upd_sema_sel [simp]:
  "kn (upd_sema sg s f) = kn sg" "holder (upd_sema sg s f) = holder sg" "cond_waiters (upd_sema sg s f) = cond_waiters sg"
  "frames (upd_sema sg s f) = frames sg" "semas (upd_sema sg s f) = (semas sg)(s := f (semas sg s))"
  by (simp_all add: upd_sema_def)

lemma tokens_simps [simp]: "tokens l [] = 0" "tokens l (f # fs) = weight l f + tokens l fs"
  by (simp_all add: tokens_def)

lemma tokens_append [simp]: "tokens l (fs @ gs) = tokens l fs + tokens l gs"
  by (simp add: tokens_def)

text \<open>Tokens are never negative.\<close>

lemma tokens_plain: "plain t fs \<Longrightarrow> 0 \<le> tokens l fs \<and> (fs \<noteq> [] \<longrightarrow> hd fs = Set_holder l \<longrightarrow> 1 \<le> tokens l fs)"
proof (induction fs)
  case (Cons f fs)
  show ?case
  proof (cases "\<exists>s. f = Call_sema_down s")
    case True
    then show ?thesis
      using Cons by (cases "f = Call_sema_down (Lock_sema l)") (auto split: if_splits)
  next
    case False
    then have "0 \<le> weight l f"
      using Cons.prems by (cases f) auto
    then show ?thesis
      using Cons by auto
  qed
qed simp

lemma tokens_off: "off_frames t fs \<Longrightarrow> 0 \<le> tokens l fs"
proof (cases fs)
  case (Cons f gs)
  assume off: "off_frames t fs"
  show ?thesis
  proof (cases f)
    case (In_sema_down s i)
    then show ?thesis
      using off Cons tokens_plain [of t gs l] by (cases "s = Lock_sema l") auto
  next
    case (Set_level i)
    then show ?thesis
      using off Cons tokens_plain [of t gs l] tokens_plain [of t "tl gs" l] by (cases gs) (auto split: if_splits)
  qed (use off Cons tokens_plain [of t gs l] in auto)
qed simp

lemma frames_ok_tokens: "frames_ok i sg \<Longrightarrow> t \<in> set (all_list (kn sg)) \<Longrightarrow> 0 \<le> tokens l (frames sg t)"
  using tokens_plain [of t "frames sg t" l] tokens_off [of t "frames sg t" l]
  by (cases "t = cur sg") (auto simp: frames_ok_def split: if_splits)

section \<open>Preservation\<close>

lemma restore_level_eq: "\<not> in_external_intr st \<or> l = INTR_OFF \<Longrightarrow> restore_level st l = Inr (st\<lparr>level := l\<rparr>)"
  by (cases l) (auto simp: restore_level_def intr_set_level_def intr_enable_def intr_disable_def intr_context_def ASSERT_def)

lemma down_on_unique: "down_on s fs \<Longrightarrow> down_on s' fs \<Longrightarrow> s' = s"
  by (cases fs) (auto split: frame.splits)

lemma plain_not_down: "plain t fs \<Longrightarrow> \<not> down_on s fs"
  by (cases fs) (auto split: frame.splits)

lemma idle_not_down: "frames_ok l sg \<Longrightarrow> \<not> down_on s (frames sg (idle_thread (kn sg)))"
  by (cases "frames sg (idle_thread (kn sg))") (auto simp: frames_ok_def split: frame.splits)

lemma not_blocked_cur: "sched_ok (kn sg) \<Longrightarrow> tstatus sg (cur sg) = THREAD_RUNNING"
  by (simp add: sched_inv_def)

lemma waiter_facts:
  assumes "queues_ok sg" and "t \<in> set (waiters sg s)"
  shows "t \<in> set (all_list (kn sg))" and "t \<noteq> idle_thread (kn sg)" and "tstatus sg t = THREAD_BLOCKED" and "down_on s (frames sg t)"
  using assms by (auto simp: queues_ok_def waiting_def)

lemma no_waiters_on_own:
  assumes "sys_inv l sg"
  shows "waiters sg (Cond_sema (cur sg)) = []"
proof (rule ccontr)
  assume "waiters sg (Cond_sema (cur sg)) \<noteq> []"
  then have w: "hd (waiters sg (Cond_sema (cur sg))) \<in> set (waiters sg (Cond_sema (cur sg)))"
    by (rule hd_in_set)
  define t where "t = hd (waiters sg (Cond_sema (cur sg)))"
  note t = waiter_facts [OF _ w, folded t_def]
  have "t \<noteq> cur sg"
    using t(3) assms not_blocked_cur by (auto simp: sys_inv_def)
  then have "off_frames t (frames sg t)"
    using t(1) assms by (auto simp: sys_inv_def frames_ok_def)
  then show False
    using t(4) assms \<open>t \<noteq> cur sg\<close> by (cases "frames sg t") (auto simp: sys_inv_def split: frame.splits)
qed

text \<open>A step in which the running thread only changes what it has to do, values of semaphores and the interrupt level.\<close>

lemma local_inv:
  assumes inv: "sys_inv l sg" and sched: "sched_ok (kn sg')" "cur sg' = cur sg" "same_sched (kn sg) (kn sg')"
    and stat: "\<And>t. tstatus sg' t = tstatus sg t"
    and other: "\<And>t. t \<noteq> cur sg \<Longrightarrow> frames sg' t = frames sg t"
    and fr: "if l' = INTR_ON then plain (cur sg) (frames sg' (cur sg)) else off_frames (cur sg) (frames sg' (cur sg))"
    and idle: "cur sg = idle_thread (kn sg) \<Longrightarrow> set (frames sg' (cur sg)) \<subseteq> {Enable, Iret, Set_level INTR_OFF}"
    and w: "\<And>s. waiters sg' s = waiters sg s"
    and v: "\<And>s. waiters sg s \<noteq> [] \<Longrightarrow>
      count_of sg' s + (if down_on s (frames sg (cur sg)) \<and> \<not> down_on s (frames sg' (cur sg)) then 1 else 0) \<le> count_of sg s"
  shows "sys_inv l' sg'"
proof -
  have same: "all_list (kn sg') = all_list (kn sg)" "idle_thread (kn sg') = idle_thread (kn sg)"
    using sched(3) by (simp_all add: same_sched_def)
  have run: "tstatus sg (cur sg) = THREAD_RUNNING"
    using inv by (simp add: sys_inv_def not_blocked_cur)
  have "frames_ok l' sg'"
    using inv fr idle other unfolding sys_inv_def frames_ok_def same sched(2) by (cases "idle_thread (kn sg) = cur sg") auto
  moreover have wt: "waiting sg' s t \<longleftrightarrow> waiting sg s t" for s t
    using other run by (cases "t = cur sg") (auto simp: waiting_def same stat)
  have "frames sg' t = frames sg t" if "tstatus sg t = THREAD_BLOCKED" for t
    using that other run by (cases "t = cur sg") auto
  then have "queues_ok sg'"
    using inv unfolding sys_inv_def queues_ok_def same stat w wt by simp
  moreover have "wake_ok sg'"
    unfolding wake_ok_def
  proof (intro allI impI)
    fix s
    assume "waiters sg' s \<noteq> []"
    then have c: "count_of sg s \<le> card (woken sg s)"
      and v': "count_of sg' s + (if down_on s (frames sg (cur sg)) \<and> \<not> down_on s (frames sg' (cur sg)) then 1 else 0) \<le> count_of sg s"
      using inv v by (simp_all add: w sys_inv_def wake_ok_def)
    have "woken sg s \<subseteq> insert (cur sg) (woken sg' s)"
      using other by (auto simp: woken_def same stat)
    show "count_of sg' s \<le> card (woken sg' s)"
    proof (cases "down_on s (frames sg (cur sg)) \<and> \<not> down_on s (frames sg' (cur sg))")
      case True
      have "card (woken sg s) \<le> card (insert (cur sg) (woken sg' s))"
        using \<open>woken sg s \<subseteq> _\<close> by (intro card_mono) (auto simp: woken_def)
      also have "\<dots> \<le> card (woken sg' s) + 1"
        by (simp add: woken_def card_insert_if)
      finally show ?thesis
        using c v' True by simp
    next
      case False
      then have "t \<in> woken sg' s" if "t \<in> woken sg s" for t
        using that other by (cases "t = cur sg") (auto simp: woken_def same stat)
      then have "card (woken sg s) \<le> card (woken sg' s)"
        by (intro card_mono subsetI) (auto simp: woken_def)
      then show ?thesis
        using c v' by simp
    qed
  qed
  ultimately show ?thesis
    using sched(1) by (simp add: sys_inv_def)
qed

text \<open>A step in which the running thread is suspended with \<open>fs\<close> left to do.\<close>

lemma switch_inv:
  assumes inv: "sys_inv l sg" and sched: "sched_ok (kn sg')" "cur sg' \<in> set (all_list (kn sg))" "same_sched (kn sg) (kn sg')"
    and stat: "\<And>t. t \<noteq> idle_thread (kn sg) \<Longrightarrow> tstatus sg' t = THREAD_BLOCKED \<longleftrightarrow> tstatus sg t = THREAD_BLOCKED"
    and fr: "frames sg' = (frames sg)(cur sg := fs)" "off_frames (cur sg) fs"
    and nd: "\<And>s. \<not> down_on s fs" "\<And>s. \<not> down_on s (frames sg (cur sg))"
    and idle: "cur sg = idle_thread (kn sg) \<Longrightarrow> set fs \<subseteq> {Enable, Iret, Set_level INTR_OFF}"
    and sem: "semas sg' = semas sg"
  shows "sys_inv INTR_OFF sg'"
proof -
  have same: "all_list (kn sg') = all_list (kn sg)" "idle_thread (kn sg') = idle_thread (kn sg)"
    using sched(3) by (simp_all add: same_sched_def)
  have run: "tstatus sg (cur sg) = THREAD_RUNNING"
    using inv by (simp add: sys_inv_def not_blocked_cur)
  have d: "down_on s (frames sg' t) \<longleftrightarrow> down_on s (frames sg t)" for s t
    using nd by (simp add: fr(1))
  have "\<not> down_on s (frames sg (idle_thread (kn sg)))" for s
    using inv idle_not_down [of l sg s] by (simp add: sys_inv_def)
  then have "t \<in> woken sg' s \<longleftrightarrow> t \<in> woken sg s" for s t
    using stat by (cases "t = idle_thread (kn sg)") (auto simp: woken_def same d)
  then have wk: "woken sg' s = woken sg s" for s
    by blast
  have "frames_ok INTR_OFF sg'"
    using inv fr(2) idle sched(2) unfolding sys_inv_def frames_ok_def same fr(1) by auto
  moreover have "waiting sg' = waiting sg"
    using stat by (intro ext) (auto simp: waiting_def same d)
  then have "queues_ok sg'"
    using inv stat unfolding sys_inv_def queues_ok_def same sem d by simp
  moreover have "wake_ok sg'"
    using inv by (simp add: sys_inv_def wake_ok_def wk sem)
  ultimately show ?thesis
    using sched(1) by (simp add: sys_inv_def)
qed

lemma sum_frames:
  assumes "c \<in> set (all_list st)"
  shows "(\<Sum>t \<in> set (all_list st). tokens l ((f(c := x)) t)) = (\<Sum>t \<in> set (all_list st). tokens l (f t)) - tokens l (f c) + tokens l x"
proof -
  have "(\<Sum>t \<in> set (all_list st). tokens l ((f(c := x)) t)) = tokens l x + (\<Sum>t \<in> set (all_list st) - {c}. tokens l ((f(c := x)) t))"
    using assms by (subst sum.remove [of _ c]) auto
  moreover have "(\<Sum>t \<in> set (all_list st) - {c}. tokens l ((f(c := x)) t)) = (\<Sum>t \<in> set (all_list st) - {c}. tokens l (f t))"
    by (rule sum.cong) auto
  ultimately show ?thesis
    using assms by (simp add: sum.remove [of _ c])
qed

lemma semaphore_value_upd: "x\<lparr>sema_value := v\<rparr> = \<lparr>sema_value = v, sema_waiters = sema_waiters x\<rparr>" for x :: semaphore
  by (cases x) simp

text \<open>The effect of the semaphore operations.\<close>

lemma sema_up_effect:
  assumes inv: "sys_inv l sg" and ctx: "in_external_intr (kn sg) \<Longrightarrow> level (kn sg) = INTR_OFF"
  obtains sg' where "sema_up sg s = Inr sg'" and "sched_ok (kn sg')" and "cur sg' = cur sg" and "same_sched (kn sg) (kn sg')"
    and "level (kn sg') = level (kn sg)" and "thread_ticks (kn sg') = thread_ticks (kn sg)"
    and "yield_on_return (kn sg') = yield_on_return (kn sg)"
    and "frames sg' = frames sg" and "holder sg' = holder sg"
    and "semas sg' = (semas sg)(s := \<lparr>sema_value = sema_value (semas sg s) + 1, sema_waiters = tl (waiters sg s)\<rparr>)"
    and "ready_list (kn sg') = ready_list (kn sg) @ take 1 (waiters sg s)"
    and "\<And>t. tstatus sg' t = (if waiters sg s \<noteq> [] \<and> t = hd (waiters sg s) then THREAD_READY else tstatus sg t)"
proof -
  define st where "st = (kn sg)\<lparr>level := INTR_OFF\<rparr>"
  have ok: "sched_ok st"
    using inv by (simp add: st_def sys_inv_def)
  have rl: "\<not> in_external_intr (kn sg) \<or> level (kn sg) = INTR_OFF"
    using ctx by blast
  show thesis
  proof (cases "waiters sg s")
    case Nil
    have "sema_up sg s = Inr ((upd_sema sg s (\<lambda>x. x\<lparr>sema_value := sema_value x + 1\<rparr>))\<lparr>kn := st\<lparr>level := level (kn sg)\<rparr>\<rparr>)"
      using Nil rl by (simp add: sema_up_def intr_disable_def intr_get_level_def restore_level_eq st_def upd_sema_def)
    then show thesis
      using that Nil ok by (auto simp: st_def same_sched_def semaphore_value_upd)
  next
    case (Cons t ts)
    then have t: "t \<in> set (all_list st)" "status (threads st t) = THREAD_BLOCKED" "t \<noteq> idle_thread st"
      using inv waiter_facts [of sg t s] by (auto simp: st_def sys_inv_def)
    have "in_external_intr st \<Longrightarrow> level st = INTR_OFF"
      by (simp add: st_def)
    from unblock_ok [OF ok t this] obtain st' where
      u: "thread_unblock st t = Inr st'" "sched_ok st'" "running_thread st' = running_thread st" "ready_list st' = ready_list st @ [t]"
        "same_sched st st'" "level st' = level st" "thread_ticks st' = thread_ticks st" "yield_on_return st' = yield_on_return st"
      and us: "\<And>u. status (threads st' u) = (if u = t then THREAD_READY else status (threads st u))"
      by blast
    have "\<not> in_external_intr st' \<or> level (kn sg) = INTR_OFF"
      using rl u(5) by (simp add: same_sched_def st_def)
    then have "sema_up sg s = Inr ((upd_sema (upd_sema sg s (\<lambda>x. x\<lparr>sema_waiters := ts\<rparr>)) s
        (\<lambda>x. x\<lparr>sema_value := sema_value x + 1\<rparr>))\<lparr>kn := st'\<lparr>level := level (kn sg)\<rparr>\<rparr>)"
      using Cons u(1) by (simp add: sema_up_def intr_disable_def intr_get_level_def restore_level_eq st_def upd_sema_def)
    then show thesis
      by (rule that) (use u us Cons in \<open>auto simp: st_def same_sched_def semaphore_value_upd\<close>)
  qed
qed

lemma unat_Suc_le: "unat (v + 1 :: u32) \<le> unat v + 1"
  using unat_word_ariths(1) [of v 1] mod_less_eq_dividend [of "unat v + 1" "2 ^ 32"] by simp

lemma sema_up_facts:
  assumes inv: "sys_inv l sg" and ctx: "in_external_intr (kn sg) \<Longrightarrow> level (kn sg) = INTR_OFF"
    and up: "sema_up sg s = Inr sg'"
  shows "sched_ok (kn sg')" and "cur sg' = cur sg" and "same_sched (kn sg) (kn sg')"
    and "level (kn sg') = level (kn sg)" and "thread_ticks (kn sg') = thread_ticks (kn sg)"
    and "yield_on_return (kn sg') = yield_on_return (kn sg)"
    and "frames sg' = frames sg" and "holder sg' = holder sg"
    and "semas sg' = (semas sg)(s := \<lparr>sema_value = sema_value (semas sg s) + 1, sema_waiters = tl (waiters sg s)\<rparr>)"
    and "ready_list (kn sg') = ready_list (kn sg) @ take 1 (waiters sg s)"
    and "tstatus sg' t = (if waiters sg s \<noteq> [] \<and> t = hd (waiters sg s) then THREAD_READY else tstatus sg t)"
  by (rule sema_up_effect [OF inv ctx, of s]; use up in simp)+

lemma sema_up_inv:
  assumes inv: "sys_inv l sg" and ctx: "in_external_intr (kn sg) \<Longrightarrow> level (kn sg) = INTR_OFF"
    and up: "sema_up sg s = Inr sg'"
  shows "sys_inv l sg'"
proof -
  note facts = sema_up_facts [OF inv ctx up]
  note sched = facts(1) and c = facts(2) and ss = facts(3) and fr = facts(7) and sem = facts(9) and stat = facts(11)
  have same: "all_list (kn sg') = all_list (kn sg)" "idle_thread (kn sg') = idle_thread (kn sg)"
    using ss by (simp_all add: same_sched_def)
  have q: "queues_ok sg"
    using inv by (simp add: sys_inv_def)
  show ?thesis
  proof (cases "waiters sg s")
    case Nil
    have w: "waiters sg' x = waiters sg x" for x
      using Nil by (simp add: sem)
    have "woken sg' x = woken sg x" for x
      using Nil by (simp add: woken_def same stat fr)
    then have "wake_ok sg'"
      using inv Nil by (auto simp: sys_inv_def wake_ok_def sem)
    moreover have "queues_ok sg'"
      using q Nil unfolding queues_ok_def waiting_def same w by (simp add: stat fr)
    ultimately show ?thesis
      using inv sched by (simp add: sys_inv_def frames_ok_def same c fr)
  next
    case (Cons t ts)
    note t = waiter_facts [OF q, of t s, unfolded Cons, simplified]
    have dt: "t \<notin> set ts" "distinct ts"
      using q Cons by (auto simp: queues_ok_def) (metis distinct.simps(2))+
    have wt: "waiting sg' x u \<longleftrightarrow> waiting sg x u \<and> u \<noteq> t" for x u
      using Cons by (auto simp: waiting_def same stat fr)
    have ww: "waiting sg x u \<longleftrightarrow> u \<in> set (waiters sg x)" for x u
      using q by (auto simp: queues_ok_def)
    have "t \<notin> set (waiters sg x)" if "x \<noteq> s" for x
      using t that waiter_facts(4) [OF q, of t x] by (auto dest: down_on_unique)
    then have "set (waiters sg' x) = {u. waiting sg' x u}" for x
      using dt by (cases "x = s") (auto simp: wt ww sem Cons)
    moreover have "distinct (waiters sg' x)" for x
      using q dt Cons by (simp add: sem queues_ok_def)
    moreover have "\<exists>x. down_on x (frames sg' u)" if "u \<in> set (all_list (kn sg'))" "u \<noteq> idle_thread (kn sg')" "tstatus sg' u = THREAD_BLOCKED" for u
      using q that by (auto simp: queues_ok_def same stat fr split: if_splits)
    ultimately have "queues_ok sg'"
      by (simp add: queues_ok_def)
    have wk: "woken sg' x = (if x = s then insert t (woken sg x) else woken sg x)" for x
      using Cons t by (auto simp: woken_def same stat fr dest: down_on_unique)
    have "t \<notin> woken sg s" "finite (woken sg s)"
      using t by (simp_all add: woken_def)
    then have "card (woken sg' s) = card (woken sg s) + 1"
      by (simp add: wk)
    moreover have "count_of sg s \<le> card (woken sg s)"
      using inv Cons by (simp add: sys_inv_def wake_ok_def)
    ultimately have "count_of sg' s \<le> card (woken sg' s)"
      using unat_Suc_le [of "sema_value (semas sg s)"] by (simp add: sem)
    then have "count_of sg' x \<le> card (woken sg' x)" if "waiters sg' x \<noteq> []" for x
      using inv that by (cases "x = s") (auto simp: sys_inv_def wake_ok_def wk sem)
    then have "wake_ok sg'"
      by (simp add: wake_ok_def)
    with \<open>queues_ok sg'\<close> show ?thesis
      using inv sched by (simp add: sys_inv_def frames_ok_def same c fr)
  qed
qed

lemma sema_up_total:
  assumes inv: "sys_inv l sg" and ctx: "in_external_intr (kn sg) \<Longrightarrow> level (kn sg) = INTR_OFF"
    and up: "sema_up sg s = Inr sg'" and small: "\<And>a. s = Lock_sema a \<Longrightarrow> count_of sg s \<le> 1"
  shows "lock_total sg' a = lock_total sg a + (if s = Lock_sema a then 1 else 0)"
proof -
  note facts = sema_up_facts [OF inv ctx up]
  note ss = facts(3) and fr = facts(7) and h = facts(8) and sem = facts(9)
  have "unat (sema_value (semas sg s) + 1) = count_of sg s + 1" if "s = Lock_sema a"
    using small [OF that] unat_plus_no_wrap [of "sema_value (semas sg s)" 1] by simp
  then have "int (unat (sema_value (semas sg s) + 1)) = int (count_of sg s) + 1" if "s = Lock_sema a"
    using that by (simp only: of_nat_add of_nat_1)
  then show ?thesis
    using ss by (auto simp: lock_total_def same_sched_def fr h sem)
qed

lemma sys_ok_off:
  assumes "sys_ok sg" and "frames sg (cur sg) = f # fs" and "atomic f"
  shows "level (kn sg) = INTR_OFF" and "off_frames (cur sg) (f # fs)"
  using assms by (cases "level (kn sg)"; simp add: sys_ok_def sys_inv_def frames_ok_def)+

lemma cur_in_all: "sched_ok st \<Longrightarrow> running_thread st \<in> set (all_list st)"
  by (simp add: sched_inv_def)

lemma unat_pred: "v \<noteq> 0 \<Longrightarrow> unat (v - 1 :: u32) + 1 = unat v"
  by (metis Suc_eq_plus1 Suc_pred' unat_eq_zero unat_gt_0 unat_minus_one)

lemma down_block_inv:
  assumes ok: "sys_ok sg" and top: "frames sg (cur sg) = In_sema_down s old # rest" and z: "sema_value (semas sg s) = 0"
  shows "\<exists>sg'. sema_down_loop sg s old = Inr sg' \<and> sys_ok sg' \<and> cur sg' = next_thread (kn sg) \<and> same_sched (kn sg) (kn sg')
     \<and> ready_list (kn sg') = tl (ready_list (kn sg)) \<and> thread_ticks (kn sg') = 0"
proof -
  have inv: "sys_inv INTR_OFF sg" and lk: "locks_ok sg" and off: "level (kn sg) = INTR_OFF" "\<not> in_external_intr (kn sg)"
    using ok sys_ok_off [OF ok top] by (simp_all add: sys_ok_def)
  then have so: "sched_ok (kn sg)" and q: "queues_ok sg" and fo: "frames_ok INTR_OFF sg"
    by (simp_all add: sys_inv_def)
  have run: "tstatus sg (cur sg) = THREAD_RUNNING"
    using so by (rule not_blocked_cur)
  have ci: "cur sg \<noteq> idle_thread (kn sg)"
    using idle_not_down [OF fo, of s] top by auto
  obtain st where b: "thread_block (kn sg) = Inr st" and st: "sched_ok st" "running_thread st = next_thread (kn sg)"
      "ready_list st = tl (ready_list (kn sg))" "same_sched (kn sg) st" "level st = INTR_OFF" "thread_ticks st = 0"
    and bs: "\<And>t. status (threads st t) = (if t = next_thread (kn sg) then THREAD_RUNNING
           else if t = cur sg then THREAD_BLOCKED else tstatus sg t)"
    using block_ok [OF so off] by blast
  define sg' where "sg' = (upd_sema sg s (\<lambda>x. x\<lparr>sema_waiters := sema_waiters x @ [cur sg]\<rparr>))\<lparr>kn := st\<rparr>"
  have e: "sema_down_loop sg s old = Inr sg'"
    using z b current_ok [OF so] by (simp add: sema_down_loop_def sg'_def)
  have same: "all_list st = all_list (kn sg)" "idle_thread st = idle_thread (kn sg)" "\<not> in_external_intr st"
    using st(4) off by (simp_all add: same_sched_def)
  have sel: "kn sg' = st" "frames sg' = frames sg" "holder sg' = holder sg" "count_of sg' x = count_of sg x"
    "waiters sg' x = (if x = s then waiters sg s @ [cur sg] else waiters sg x)" for x
    by (simp_all add: sg'_def)
  have "cur sg \<notin> set (ready_list (kn sg))"
    using so ci run by (auto simp: sched_inv_def)
  then have nx1: "next_thread (kn sg) \<noteq> cur sg"
    using ci by (auto simp: next_thread_def split: list.splits)
  have nx2: "tstatus sg (next_thread (kn sg)) = THREAD_READY" if "next_thread (kn sg) \<noteq> idle_thread (kn sg)"
    using so that by (auto simp: sched_inv_def next_thread_def split: list.splits)
  note nx = nx1 nx2
  have ds: "down_on x (frames sg (cur sg)) \<longleftrightarrow> x = s" for x
    using top by auto
  have wt: "waiting sg' x t \<longleftrightarrow> waiting sg x t \<or> (x = s \<and> t = cur sg)" for x t
    using nx ci run ds cur_in_all [OF so] by (auto simp: waiting_def sel same bs)
  have "cur sg \<notin> set (waiters sg s)"
    using waiter_facts(3) [OF q, of "cur sg" s] run by auto
  then have "distinct (waiters sg' x) \<and> set (waiters sg' x) = {t. waiting sg' x t}" for x
    using q by (auto simp: queues_ok_def wt sel)
  moreover have "\<exists>x. down_on x (frames sg' t)" if "t \<in> set (all_list st)" "t \<noteq> idle_thread st" "tstatus sg' t = THREAD_BLOCKED" for t
    using q that ds by (auto simp: queues_ok_def same sel bs split: if_splits)
  ultimately have "queues_ok sg'"
    by (simp add: queues_ok_def sel(1))
  moreover have nb: "status (threads st t) = THREAD_BLOCKED \<longleftrightarrow> tstatus sg t = THREAD_BLOCKED"
    if "down_on x (frames sg t)" "x \<noteq> s" for x t
  proof -
    have "t \<noteq> cur sg" "t \<noteq> idle_thread (kn sg)"
      using that ds idle_not_down [OF fo, of x] by auto
    then show ?thesis
      using nx2 by (simp add: bs)
  qed
  then have "woken sg' x = woken sg x" if "x \<noteq> s" for x
    using that by (auto simp: woken_def same sel)
  then have "wake_ok sg'"
    using inv z by (auto simp: sys_inv_def wake_ok_def sel)
  moreover have "frames_ok INTR_OFF sg'"
    using fo st(2) cur_in_all [OF st(1)] by (auto simp: frames_ok_def sel same)
  moreover have "locks_ok sg'"
    using lk by (simp add: locks_ok_def lock_total_def sel same)
  ultimately have "sys_ok sg'"
    using st(1,5) same by (simp add: sys_ok_def sys_inv_def sel)
  then show ?thesis
    using e st sel(1) by auto
qed

lemma down_take_inv:
  assumes ok: "sys_ok sg" and top: "frames sg (cur sg) = In_sema_down s old # rest" and z: "sema_value (semas sg s) \<noteq> 0"
  shows "\<exists>sg'. sema_down_loop sg s old = Inr sg' \<and> sys_ok sg' \<and> kn sg' = (kn sg)\<lparr>level := INTR_ON\<rparr>"
proof -
  have inv: "sys_inv INTR_OFF sg" and lk: "locks_ok sg" and off: "level (kn sg) = INTR_OFF" "\<not> in_external_intr (kn sg)"
    and fr: "old = INTR_ON" "after_down (cur sg) s rest" "plain (cur sg) rest"
    using ok sys_ok_off [OF ok top] by (simp_all add: sys_ok_def)
  then have so: "sched_ok (kn sg)"
    by (simp add: sys_inv_def)
  define sg' where "sg' = pop ((upd_sema sg s (\<lambda>x. x\<lparr>sema_value := sema_value x - 1\<rparr>))\<lparr>kn := (kn sg)\<lparr>level := INTR_ON\<rparr>\<rparr>)"
  have e: "sema_down_loop sg s old = Inr sg'"
    using z off fr(1) by (simp add: sema_down_loop_def sg'_def restore_level_eq)
  have sel: "kn sg' = (kn sg)\<lparr>level := INTR_ON\<rparr>" "frames sg' = (frames sg)(cur sg := rest)" "holder sg' = holder sg"
    "waiters sg' x = waiters sg x" "count_of sg' x = (if x = s then count_of sg x - 1 else count_of sg x)" for x
    using top unat_pred [OF z] by (auto simp: sg'_def)
  have "sys_inv INTR_ON sg'"
  proof (rule local_inv [OF inv])
    show "sched_ok (kn sg')" "cur sg' = cur sg" "same_sched (kn sg) (kn sg')"
      using so by (simp_all add: sel same_sched_def)
    show "cur sg = idle_thread (kn sg) \<Longrightarrow> set (frames sg' (cur sg)) \<subseteq> {Enable, Iret, Set_level INTR_OFF}"
      using inv top by (auto simp: sel sys_inv_def frames_ok_def)
    show "count_of sg' x + (if down_on x (frames sg (cur sg)) \<and> \<not> down_on x (frames sg' (cur sg)) then 1 else 0) \<le> count_of sg x" for x
      using top unat_pred [OF z] plain_not_down [OF fr(3)] by (auto simp: sel)
  qed (use fr in \<open>auto simp: sel\<close>)
  moreover have "lock_total sg' l = lock_total sg l" for l
    using sum_frames [OF cur_in_all [OF so], of l "frames sg" rest] top unat_pred [OF z]
    by (auto simp: lock_total_def sel)
  then have "locks_ok sg'"
    using lk by (simp add: locks_ok_def)
  ultimately show ?thesis
    using e off sel(1) by (simp add: sys_ok_def)
qed

lemma total_push:
  assumes "sched_ok (kn sg)" and "frames sg' = (frames sg)(cur sg := fs)" and "holder sg' = holder sg"
    and "count_of sg' (Lock_sema l) = count_of sg (Lock_sema l)" and "all_list (kn sg') = all_list (kn sg)"
  shows "lock_total sg' l = lock_total sg l - tokens l (frames sg (cur sg)) + tokens l fs"
  using sum_frames [OF cur_in_all [OF assms(1)], of l "frames sg" fs] assms by (simp add: lock_total_def)

text \<open>Giving up the processor, on a call of \<^verbatim>\<open>thread_yield\<close> and at the end of an interrupt.\<close>

lemma yield_inv:
  assumes inv: "sys_inv INTR_ON sg" and lk: "locks_ok sg" and ext: "\<not> in_external_intr (kn sg)"
    and pre: "pre = [Set_level INTR_ON] \<and> cur sg \<noteq> idle_thread (kn sg) \<or> pre = [Set_level INTR_OFF, Iret]"
  defines "q \<equiv> ready_list (kn sg) @ (if cur sg \<noteq> idle_thread (kn sg) then [cur sg] else [])"
  shows "\<exists>st. thread_yield (kn sg) = Inr st \<and> sys_ok ((push sg pre)\<lparr>kn := st\<rparr>)
     \<and> running_thread st = (case q of [] \<Rightarrow> idle_thread (kn sg) | t # _ \<Rightarrow> t)
     \<and> ready_list st = tl q \<and> same_sched (kn sg) st \<and> thread_ticks st = 0"
proof -
  have so: "sched_ok (kn sg)" and pl: "plain (cur sg) (frames sg (cur sg))"
    using inv by (simp_all add: sys_inv_def frames_ok_def)
  define n where "n = (case q of [] \<Rightarrow> idle_thread (kn sg) | t # _ \<Rightarrow> t)"
  obtain st where y: "thread_yield (kn sg) = Inr st" and st: "sched_ok st" "running_thread st = n" "ready_list st = tl q"
      "same_sched (kn sg) st" "level st = INTR_OFF" "thread_ticks st = 0"
    and stat: "\<And>t. status (threads st t) = (if t = n then THREAD_RUNNING else if t = cur sg then THREAD_READY else tstatus sg t)"
    using yield_ok [OF so ext, folded q_def, folded n_def] by blast
  define sg' where "sg' = (push sg pre)\<lparr>kn := st\<rparr>"
  have same: "all_list st = all_list (kn sg)" "idle_thread st = idle_thread (kn sg)" "\<not> in_external_intr st"
    using st(4) ext by (simp_all add: same_sched_def)
  have run: "tstatus sg (cur sg) = THREAD_RUNNING"
    using so by (rule not_blocked_cur)
  have nn: "n = idle_thread (kn sg) \<or> n = cur sg \<or> tstatus sg n = THREAD_READY"
    using so by (auto simp: n_def q_def sched_inv_def split: list.splits if_splits)
  have "sys_inv INTR_OFF sg'"
  proof (rule switch_inv [OF inv])
    show "sched_ok (kn sg')" "same_sched (kn sg) (kn sg')" "semas sg' = semas sg"
      "frames sg' = (frames sg)(cur sg := pre @ frames sg (cur sg))"
      using st by (simp_all add: sg'_def)
    show "cur sg' \<in> set (all_list (kn sg))"
      using cur_in_all [OF st(1)] same by (simp add: sg'_def)
    show "tstatus sg' t = THREAD_BLOCKED \<longleftrightarrow> tstatus sg t = THREAD_BLOCKED" if "t \<noteq> idle_thread (kn sg)" for t
      using nn run that by (cases "t = n"; cases "t = cur sg") (simp_all add: sg'_def stat)
    show "off_frames (cur sg) (pre @ frames sg (cur sg))" "\<not> down_on s (pre @ frames sg (cur sg))" for s
      using pre pl by auto
    show "\<not> down_on s (frames sg (cur sg))" for s
      using pl by (rule plain_not_down)
    show "set (pre @ frames sg (cur sg)) \<subseteq> {Enable, Iret, Set_level INTR_OFF}" if "cur sg = idle_thread (kn sg)"
      using inv pre that by (auto simp: sys_inv_def frames_ok_def)
  qed
  moreover have "tokens l pre = 0" for l
    using pre by auto
  then have "lock_total sg' l = lock_total sg l" for l
    using total_push [of sg sg' "pre @ frames sg (cur sg)" l] so same by (simp add: sg'_def)
  then have "locks_ok sg'"
    using lk by (simp add: locks_ok_def)
  ultimately show ?thesis
    using y st same by (simp add: sys_ok_def sg'_def n_def)
qed

lemma idle_inv:
  assumes ok: "sys_ok sg" and on: "level (kn sg) = INTR_ON" and idle: "cur sg = idle_thread (kn sg)"
  shows "\<exists>sg'. idle_loop sg = Inr sg' \<and> sys_ok sg' \<and> cur sg' = next_thread (kn sg) \<and> same_sched (kn sg) (kn sg')
     \<and> ready_list (kn sg') = tl (ready_list (kn sg)) \<and> thread_ticks (kn sg') = 0"
proof -
  have inv: "sys_inv INTR_ON sg" and lk: "locks_ok sg" and ext: "\<not> in_external_intr (kn sg)"
    using ok on by (simp_all add: sys_ok_def)
  then have so: "sched_ok (kn sg)" and pl: "plain (cur sg) (frames sg (cur sg))"
    by (simp_all add: sys_inv_def frames_ok_def)
  define st0 where "st0 = (kn sg)\<lparr>level := INTR_OFF\<rparr>"
  have st0: "sched_ok st0" "level st0 = INTR_OFF" "\<not> in_external_intr st0" "running_thread st0 = cur sg"
    "next_thread st0 = next_thread (kn sg)" "ready_list st0 = ready_list (kn sg)" "all_list st0 = all_list (kn sg)"
    "idle_thread st0 = idle_thread (kn sg)" "status (threads st0 t) = tstatus sg t" for t
    using so ext by (simp_all add: st0_def next_thread_def split: list.split)
  obtain st where b: "thread_block st0 = Inr st" and st: "sched_ok st" "running_thread st = next_thread (kn sg)"
      "ready_list st = tl (ready_list (kn sg))" "same_sched st0 st" "level st = INTR_OFF" "thread_ticks st = 0"
    and stat: "\<And>t. status (threads st t) = (if t = next_thread (kn sg) then THREAD_RUNNING
           else if t = cur sg then THREAD_BLOCKED else tstatus sg t)"
    using block_ok [OF st0(1-3)] unfolding st0 by blast
  define sg' where "sg' = (push sg [Enable])\<lparr>kn := st\<rparr>"
  have e: "idle_loop sg = Inr sg'"
    using b by (simp add: idle_loop_def intr_disable_def sg'_def st0_def push_def)
  have same: "all_list st = all_list (kn sg)" "idle_thread st = idle_thread (kn sg)" "\<not> in_external_intr st"
    using st(4) st0 by (simp_all add: same_sched_def)
  have nn: "next_thread (kn sg) = idle_thread (kn sg) \<or> tstatus sg (next_thread (kn sg)) = THREAD_READY"
    using so by (auto simp: next_thread_def sched_inv_def split: list.splits)
  have "sys_inv INTR_OFF sg'"
  proof (rule switch_inv [OF inv])
    show "sched_ok (kn sg')" "semas sg' = semas sg" "frames sg' = (frames sg)(cur sg := [Enable] @ frames sg (cur sg))"
      using st by (simp_all add: sg'_def)
    show "same_sched (kn sg) (kn sg')"
      using same ext by (simp add: sg'_def same_sched_def)
    show "cur sg' \<in> set (all_list (kn sg))"
      using cur_in_all [OF st(1)] same by (simp add: sg'_def)
    show "tstatus sg' t = THREAD_BLOCKED \<longleftrightarrow> tstatus sg t = THREAD_BLOCKED" if "t \<noteq> idle_thread (kn sg)" for t
      using nn that idle by (auto simp: sg'_def stat)
    show "off_frames (cur sg) ([Enable] @ frames sg (cur sg))" "\<not> down_on s ([Enable] @ frames sg (cur sg))" for s
      using pl by auto
    show "\<not> down_on s (frames sg (cur sg))" for s
      using pl by (rule plain_not_down)
    show "set ([Enable] @ frames sg (cur sg)) \<subseteq> {Enable, Iret, Set_level INTR_OFF}" if "cur sg = idle_thread (kn sg)"
      using inv that by (auto simp: sys_inv_def frames_ok_def)
  qed
  moreover have "lock_total sg' l = lock_total sg l" for l
    using total_push [of sg sg' "[Enable] @ frames sg (cur sg)" l] so same by (simp add: sg'_def)
  then have "locks_ok sg'"
    using lk by (simp add: locks_ok_def)
  ultimately show ?thesis
    using e st same ext by (auto simp: sys_ok_def sg'_def same_sched_def)
qed

section \<open>Steps and the run queue\<close>

text \<open>A step leaves the running thread on the processor and only adds to the end of the run queue, or takes the next thread from
  the front of it and starts a new time slice. A timer tick that does not end the time slice counts up.\<close>

definition stays :: "sys \<Rightarrow> sys \<Rightarrow> bool" where
  "stays sg sg' \<longleftrightarrow> cur sg' = cur sg \<and> (\<exists>ts. ready_list (kn sg') = ready_list (kn sg) @ ts)"

definition switches :: "sys \<Rightarrow> sys \<Rightarrow> bool" where
  "switches sg sg' \<longleftrightarrow> thread_ticks (kn sg') = 0
     \<and> (\<exists>ts. cur sg' = (case ready_list (kn sg) @ ts of [] \<Rightarrow> idle_thread (kn sg) | t # _ \<Rightarrow> t)
          \<and> ready_list (kn sg') = tl (ready_list (kn sg) @ ts))"

definition moves :: "bool \<Rightarrow> sys \<Rightarrow> sys \<Rightarrow> bool" where
  "moves tick sg sg' \<longleftrightarrow>
     stays sg sg' \<and> (if tick then thread_ticks (kn sg') = thread_ticks (kn sg) + 1 \<and> thread_ticks (kn sg') < TIME_SLICE
                     else thread_ticks (kn sg') = thread_ticks (kn sg))
     \<or> switches sg sg'"

lemma switchesI:
  "thread_ticks (kn sg') = 0 \<Longrightarrow> cur sg' = next_thread (kn sg) \<Longrightarrow> ready_list (kn sg') = tl (ready_list (kn sg)) \<Longrightarrow> switches sg sg'"
  unfolding switches_def next_thread_def by (intro conjI exI [of _ "[]"]) simp_all

text \<open>A step of the running thread on its own, with interrupts on or off after it.\<close>

lemma local_ok:
  assumes ok: "sys_ok sg" and k: "kn sg' = (kn sg)\<lparr>level := i\<rparr>" and fr: "frames sg' = (frames sg)(cur sg := fs)"
    and w: "\<And>s. waiters sg' s = waiters sg s"
    and wf: "if i = INTR_ON then plain (cur sg) fs else off_frames (cur sg) fs"
    and idle: "cur sg = idle_thread (kn sg) \<Longrightarrow> set fs \<subseteq> {Enable, Iret, Set_level INTR_OFF}"
    and nd: "\<And>s. down_on s (frames sg (cur sg)) \<Longrightarrow> down_on s fs"
    and v: "\<And>s. waiters sg s \<noteq> [] \<Longrightarrow> count_of sg' s \<le> count_of sg s"
    and tot: "\<And>l. int (count_of sg' (Lock_sema l)) + (if holder sg' l \<noteq> 0 then 1 else 0) + tokens l fs
       = int (count_of sg (Lock_sema l)) + (if holder sg l \<noteq> 0 then 1 else 0) + tokens l (frames sg (cur sg))"
  shows "sys_ok sg' \<and> moves False sg sg'"
proof -
  have inv: "sys_inv (level (kn sg)) sg" and lk: "locks_ok sg" and ext: "\<not> in_external_intr (kn sg)"
    using ok by (simp_all add: sys_ok_def)
  then have so: "sched_ok (kn sg)"
    by (simp add: sys_inv_def)
  have "sys_inv i sg'"
  proof (rule local_inv [OF inv])
    show "sched_ok (kn sg')" "cur sg' = cur sg" "same_sched (kn sg) (kn sg')"
      using so by (simp_all add: k same_sched_def)
    show "if i = INTR_ON then plain (cur sg) (frames sg' (cur sg)) else off_frames (cur sg) (frames sg' (cur sg))"
      using wf by (simp add: fr)
    show "count_of sg' s + (if down_on s (frames sg (cur sg)) \<and> \<not> down_on s (frames sg' (cur sg)) then 1 else 0) \<le> count_of sg s"
      if "waiters sg s \<noteq> []" for s
      using nd [of s] v [OF that] by (auto simp: fr)
  qed (use idle w in \<open>simp_all add: k fr\<close>)
  moreover have "lock_total sg' l = lock_total sg l" for l
    using sum_frames [OF cur_in_all [OF so], of l "frames sg" fs] tot [of l] by (simp add: lock_total_def k fr)
  then have "locks_ok sg'"
    using lk by (simp add: locks_ok_def)
  moreover have "moves False sg sg'"
    by (simp add: moves_def stays_def k)
  ultimately show ?thesis
    using ext by (simp add: sys_ok_def k)
qed

text \<open>The bound on the value of a lock's semaphore, and that nothing else can hold the lock when a thread is about to become its
  holder.\<close>

lemma lock_bounds:
  assumes fo: "frames_ok i sg" and so: "sched_ok (kn sg)" and tot: "lock_total sg l = 1"
  shows "count_of sg (Lock_sema l) \<le> 1"
    and "t \<in> set (all_list (kn sg)) \<Longrightarrow> 1 \<le> tokens l (frames sg t) \<Longrightarrow> count_of sg (Lock_sema l) = 0 \<and> holder sg l = 0"
    and "t \<in> set (all_list (kn sg)) \<Longrightarrow> t' \<in> set (all_list (kn sg)) \<Longrightarrow> 1 \<le> tokens l (frames sg t) \<Longrightarrow> 1 \<le> tokens l (frames sg t') \<Longrightarrow> t = t'"
proof -
  let ?A = "set (all_list (kn sg))"
  have nn: "0 \<le> tokens l (frames sg u)" if "u \<in> ?A" for u
    using frames_ok_tokens [OF fo that] .
  have s: "int (count_of sg (Lock_sema l)) + (if holder sg l \<noteq> 0 then 1 else 0) + (\<Sum>t \<in> ?A. tokens l (frames sg t)) = 1"
    using tot by (simp only: lock_total_def)
  have S: "0 \<le> (\<Sum>t \<in> ?A. tokens l (frames sg t))"
    using nn by (rule sum_nonneg)
  have h: "0 \<le> (if holder sg l \<noteq> 0 then 1 else (0 :: int))"
    by simp
  show "count_of sg (Lock_sema l) \<le> 1"
    using s S h by linarith
  have one: "(\<Sum>t \<in> B. tokens l (frames sg t)) \<le> (\<Sum>t \<in> ?A. tokens l (frames sg t))" if "B \<subseteq> ?A" for B
    using nn that by (intro sum_mono2) auto
  show "count_of sg (Lock_sema l) = 0 \<and> holder sg l = 0" if "t \<in> ?A" "1 \<le> tokens l (frames sg t)"
  proof
    have "1 \<le> (\<Sum>t \<in> ?A. tokens l (frames sg t))"
      using one [of "{t}"] that by simp
    then have "count_of sg (Lock_sema l) = 0" "(if holder sg l \<noteq> 0 then 1 else (0 :: int)) = 0"
      using s h by linarith+
    then show "count_of sg (Lock_sema l) = 0" "holder sg l = 0"
      by (auto split: if_splits)
  qed
  show "t = t'" if "t \<in> ?A" "t' \<in> ?A" "1 \<le> tokens l (frames sg t)" "1 \<le> tokens l (frames sg t')"
  proof (rule ccontr)
    assume "t \<noteq> t'"
    then have "tokens l (frames sg t) + tokens l (frames sg t') \<le> (\<Sum>t \<in> ?A. tokens l (frames sg t))"
      using one [of "{t, t'}"] that by simp
    then show False
      using that s h by linarith
  qed
qed

end
