(* ===== verification/Synch_Steps.thy ===== *)
theory Synch_Steps
  imports Synch
begin

text \<open>
  The steps of the interleaved system of theory \<open>Synch\<close> preserve its invariant, and what follows for every run from a
  starting state: mutual exclusion, no lost wakeups, and a bound on the time a ready thread waits. That no assertion fails is in
  theory \<open>Synch_Progress\<close>.
\<close>

lemma pop_push: "push (pop sg) fs = sg\<lparr>frames := (frames sg)(cur sg := fs @ tl (frames sg (cur sg)))\<rparr>"
  by (simp add: push_def pop_def)

lemma sys_ok_on:
  assumes "sys_ok sg" and "frames sg (cur sg) = f # fs" and "\<not> atomic f"
  shows "level (kn sg) = INTR_ON" and "plain (cur sg) (f # fs)" and "cur sg \<noteq> idle_thread (kn sg)"
proof -
  show l: "level (kn sg) = INTR_ON"
    using assms by (cases "level (kn sg)"; cases f) (auto simp: sys_ok_def sys_inv_def frames_ok_def)
  show "plain (cur sg) (f # fs)"
    using assms l by (simp add: sys_ok_def sys_inv_def frames_ok_def)
  show "cur sg \<noteq> idle_thread (kn sg)"
    using assms by (cases f) (auto simp: sys_ok_def sys_inv_def frames_ok_def)
qed

lemma sys_ok_current: "sys_ok sg \<Longrightarrow> thread_current (kn sg) = Inr (cur sg)"
  by (simp add: sys_ok_def sys_inv_def current_ok)

lemma cur_nonzero: "sys_ok sg \<Longrightarrow> cur sg \<noteq> 0"
  by (auto simp: sys_ok_def sys_inv_def sched_inv_def)

lemma kern_level_same: "level st = l \<Longrightarrow> st\<lparr>level := l\<rparr> = st"
  by simp

lemma on_plain: "sys_ok sg \<Longrightarrow> level (kn sg) = INTR_ON \<Longrightarrow> plain (cur sg) (frames sg (cur sg))"
  by (simp add: sys_ok_def sys_inv_def frames_ok_def)

text \<open>A step that keeps interrupts on.\<close>

lemma on_step:
  assumes ok: "sys_ok sg" and on: "level (kn sg) = INTR_ON" and ni: "cur sg \<noteq> idle_thread (kn sg)"
    and k: "kn sg' = kn sg" and fr: "frames sg' = (frames sg)(cur sg := fs)" and pl: "plain (cur sg) fs"
    and w: "\<And>s. waiters sg' s = waiters sg s" and v: "\<And>s. waiters sg s \<noteq> [] \<Longrightarrow> count_of sg' s \<le> count_of sg s"
    and tot: "\<And>l. int (count_of sg' (Lock_sema l)) + (if holder sg' l \<noteq> 0 then 1 else 0) + tokens l fs
       = int (count_of sg (Lock_sema l)) + (if holder sg l \<noteq> 0 then 1 else 0) + tokens l (frames sg (cur sg))"
  shows "sys_ok sg' \<and> moves False sg sg'"
proof (rule local_ok [OF ok _ fr w _ _ _ v tot])
  show "kn sg' = (kn sg)\<lparr>level := INTR_ON\<rparr>"
    using on k by (simp add: kern_level_same)
  show "down_on s (frames sg (cur sg)) \<Longrightarrow> down_on s fs" for s
    using plain_not_down [OF on_plain [OF ok on], of s] by simp
qed (use ni pl in simp_all)

text \<open>The calls, when the running thread has \<open>fs\<close> to do after the call.\<close>

lemma sema_down_step:
  assumes ok: "sys_ok sg" and on: "level (kn sg) = INTR_ON" and ni: "cur sg \<noteq> idle_thread (kn sg)"
    and ad: "after_down (cur sg) s fs" and pl: "plain (cur sg) fs"
    and tk: "\<And>l. tokens l (frames sg (cur sg)) = tokens l (In_sema_down s INTR_ON # fs)"
    and nd: "\<And>s. \<not> down_on s (frames sg (cur sg))"
    and r: "sema_down (sg\<lparr>frames := (frames sg)(cur sg := fs)\<rparr>) s = Inr sg'"
  shows "sys_ok sg' \<and> moves False sg sg'"
proof (rule local_ok [OF ok])
  have "\<not> in_external_intr (kn sg)"
    using ok by (simp add: sys_ok_def)
  then have e: "sg' = push ((sg\<lparr>frames := (frames sg)(cur sg := fs)\<rparr>)\<lparr>kn := (kn sg)\<lparr>level := INTR_OFF\<rparr>\<rparr>) [In_sema_down s INTR_ON]"
    using r on by (simp add: sema_down_def intr_context_def intr_disable_def intr_get_level_def ASSERT_def)
  show "kn sg' = (kn sg)\<lparr>level := INTR_OFF\<rparr>" "frames sg' = (frames sg)(cur sg := In_sema_down s INTR_ON # fs)"
    by (simp_all add: e)
  show "int (count_of sg' (Lock_sema l)) + (if holder sg' l \<noteq> 0 then 1 else 0) + tokens l (In_sema_down s INTR_ON # fs)
       = int (count_of sg (Lock_sema l)) + (if holder sg l \<noteq> 0 then 1 else 0) + tokens l (frames sg (cur sg))" for l
    by (simp add: e tk)
qed (use ad pl ni nd on r in \<open>simp_all add: sema_down_def ASSERT_def intr_disable_def split: if_splits, auto?\<close>)

lemma acquire_step:
  assumes ok: "sys_ok sg" and on: "level (kn sg) = INTR_ON" and ni: "cur sg \<noteq> idle_thread (kn sg)" and pl: "plain (cur sg) fs"
    and tk: "\<And>l. tokens l (frames sg (cur sg)) = tokens l fs"
    and r: "lock_acquire (sg\<lparr>frames := (frames sg)(cur sg := fs)\<rparr>) l = Inr sg'"
  shows "sys_ok sg' \<and> moves False sg sg'"
proof -
  have "sg' = sg\<lparr>frames := (frames sg)(cur sg := [Call_sema_down (Lock_sema l), Set_holder l] @ fs)\<rparr>"
    using r sys_ok_current [OF ok] by (simp add: lock_acquire_def lock_held_by_current_thread_def ASSERT_def push_def split: if_splits)
  then show ?thesis
    by (intro on_step [OF ok on ni, where fs = "[Call_sema_down (Lock_sema l), Set_holder l] @ fs"]) (use pl tk in \<open>simp_all\<close>)
qed

lemma release_step:
  assumes ok: "sys_ok sg" and on: "level (kn sg) = INTR_ON" and ni: "cur sg \<noteq> idle_thread (kn sg)" and pl: "plain (cur sg) fs"
    and tk: "\<And>l. tokens l (frames sg (cur sg)) = tokens l fs"
    and r: "lock_release (sg\<lparr>frames := (frames sg)(cur sg := fs)\<rparr>) l = Inr sg'"
  shows "sys_ok sg' \<and> moves False sg sg'"
proof -
  have "sg' = sg\<lparr>holder := (holder sg)(l := 0), frames := (frames sg)(cur sg := Call_sema_up (Lock_sema l) # fs)\<rparr>" "holder sg l = cur sg"
    using r sys_ok_current [OF ok] by (simp_all add: lock_release_def lock_held_by_current_thread_def ASSERT_def push_def split: if_splits)
  then show ?thesis
    by (intro on_step [OF ok on ni, where fs = "Call_sema_up (Lock_sema l) # fs"]) (use pl tk cur_nonzero [OF ok] in auto)
qed

lemma signal_step:
  assumes ok: "sys_ok sg" and on: "level (kn sg) = INTR_ON" and ni: "cur sg \<noteq> idle_thread (kn sg)"
    and r: "cond_signal sg c l = Inr sg'"
  shows "sys_ok sg' \<and> moves False sg sg'"
proof -
  define fs where "fs = (case cond_waiters sg c of [] \<Rightarrow> [] | t # _ \<Rightarrow> [Call_sema_up (Cond_sema t)]) @ frames sg (cur sg)"
  have "kn sg' = kn sg" "semas sg' = semas sg" "holder sg' = holder sg" "frames sg' = (frames sg)(cur sg := fs)"
    using r sys_ok_current [OF ok]
    by (auto simp: cond_signal_def lock_held_by_current_thread_def ASSERT_def fs_def split: if_splits list.splits)
  then show ?thesis
    by (intro on_step [OF ok on ni, where fs = fs]) (use on_plain [OF ok on] in \<open>auto simp: fs_def split: list.split\<close>)
qed

lemma wait_step:
  assumes ok: "sys_ok sg" and on: "level (kn sg) = INTR_ON" and ni: "cur sg \<noteq> idle_thread (kn sg)"
    and r: "cond_wait sg c l = Inr sg'"
  shows "sys_ok sg' \<and> moves False sg sg'"
proof -
  let ?fs = "[Call_lock_release l, Call_sema_down (Cond_sema (cur sg)), Call_lock_acquire l] @ frames sg (cur sg)"
  have "kn sg' = kn sg" "holder sg' = holder sg" "frames sg' = (frames sg)(cur sg := ?fs)"
    "semas sg' = (semas sg)(Cond_sema (cur sg) := \<lparr>sema_value = 0, sema_waiters = []\<rparr>)"
    using r sys_ok_current [OF ok]
    by (auto simp: cond_wait_def lock_held_by_current_thread_def ASSERT_def sema_init_def Let_def split: if_splits)
  moreover have "waiters sg (Cond_sema (cur sg)) = []"
    using ok no_waiters_on_own by (auto simp: sys_ok_def)
  ultimately show ?thesis
    by (intro on_step [OF ok on ni, where fs = ?fs]) (use on_plain [OF ok on] in auto)
qed

lemma try_down_facts:
  assumes ok: "sys_ok sg" and on: "level (kn sg) = INTR_ON" and r: "sema_try_down sg s = Inr (sg', b)"
  shows "kn sg' = kn sg" and "holder sg' = holder sg" and "frames sg' = frames sg" and "b \<longleftrightarrow> sema_value (semas sg s) \<noteq> 0"
    and "waiters sg' x = waiters sg x" and "count_of sg' x = (if x = s \<and> b then count_of sg x - 1 else count_of sg x)"
proof -
  have e: "\<not> in_external_intr (kn sg)"
    using ok by (simp add: sys_ok_def)
  have b: "b \<longleftrightarrow> sema_value (semas sg s) \<noteq> 0"
    and sg': "sg' = (if b then upd_sema sg s (\<lambda>x. x\<lparr>sema_value := sema_value x - 1\<rparr>) else sg)\<lparr>kn := kn sg\<rparr>"
    using r on e by (auto simp: sema_try_down_def intr_disable_def intr_get_level_def restore_level_eq kern_level_same word_gt_0 Let_def)
  show "kn sg' = kn sg" "holder sg' = holder sg" "frames sg' = frames sg" "b \<longleftrightarrow> sema_value (semas sg s) \<noteq> 0" "waiters sg' x = waiters sg x"
    using b by (auto simp: sg')
  show "count_of sg' x = (if x = s \<and> b then count_of sg x - 1 else count_of sg x)"
    using b unat_pred [of "sema_value (semas sg s)"] by (auto simp: sg')
qed

lemma up_step:
  assumes ok: "sys_ok sg" and on: "level (kn sg) = INTR_ON" and ni: "cur sg \<noteq> idle_thread (kn sg)" and pl: "plain (cur sg) fs"
    and tk: "\<And>l. tokens l (frames sg (cur sg)) = tokens l fs + (if s = Lock_sema l then 1 else 0)"
    and r: "sema_up (sg\<lparr>frames := (frames sg)(cur sg := fs)\<rparr>) s = Inr sg'"
  shows "sys_ok sg' \<and> moves False sg sg'"
proof -
  let ?sg = "sg\<lparr>frames := (frames sg)(cur sg := fs)\<rparr>"
  have inv: "sys_inv INTR_ON sg" and lk: "locks_ok sg" and ext: "\<not> in_external_intr (kn sg)"
    using ok on by (simp_all add: sys_ok_def)
  then have so: "sched_ok (kn sg)"
    by (simp add: sys_inv_def)
  have inv': "sys_inv INTR_ON ?sg"
    by (rule local_inv [OF inv]) (use so pl ni plain_not_down [OF on_plain [OF ok on]] in \<open>auto simp: same_sched_def\<close>)
  have ctx: "in_external_intr (kn ?sg) \<Longrightarrow> level (kn ?sg) = INTR_OFF"
    using ext by simp
  note f = sema_up_facts [OF inv' ctx r]
  have "frames_ok INTR_ON sg"
    using inv by (simp add: sys_inv_def)
  then have small: "count_of ?sg s \<le> 1" if "s = Lock_sema a" for a
    using lock_bounds(1) [OF _ so, of INTR_ON a] lk that by (simp add: locks_ok_def)
  have t: "lock_total sg' l = lock_total ?sg l + (if s = Lock_sema l then 1 else 0)" for l
    by (rule sema_up_total [OF inv' ctx r]) (use small in auto)
  have "lock_total ?sg l = lock_total sg l - (if s = Lock_sema l then 1 else 0)" for l
    using total_push [OF so, where sg' = ?sg and fs = fs and l = l] tk [of l] by simp
  then have "lock_total sg' l = 1" for l
    using t [of l] lk by (simp add: locks_ok_def)
  then have "locks_ok sg'"
    by (simp add: locks_ok_def)
  moreover have "sys_inv INTR_ON sg'"
    by (rule sema_up_inv [OF inv' ctx r])
  moreover have "stays sg sg'"
    using f(2,10) unfolding stays_def by (intro conjI exI [of _ "take 1 (waiters sg s)"]) simp_all
  then have "moves False sg sg'"
    using f(5) by (simp add: moves_def)
  ultimately show ?thesis
    using f(3,4) ext on by (simp add: sys_ok_def same_sched_def)
qed

lemma set_holder_step:
  assumes ok: "sys_ok sg" and top: "frames sg (cur sg) = Set_holder l # fs" and r: "resume sg = Inr sg'"
  shows "sys_ok sg' \<and> moves False sg sg'"
proof -
  note on = sys_ok_on [OF ok top, simplified]
  have so: "sched_ok (kn sg)" and fo: "frames_ok INTR_ON sg" and lk: "lock_total sg l = 1"
    using ok on by (simp_all add: sys_ok_def sys_inv_def locks_ok_def)
  have "1 \<le> tokens l (frames sg (cur sg))"
    using tokens_plain [OF on_plain [OF ok on(1)], of l] top by simp
  then have h: "holder sg l = 0"
    using lock_bounds(2) [OF fo so lk cur_in_all [OF so]] by simp
  have "sg' = sg\<lparr>holder := (holder sg)(l := cur sg), frames := (frames sg)(cur sg := fs)\<rparr>"
    using r top sys_ok_current [OF ok] by (simp add: resume_def pop_def)
  then show ?thesis
    by (intro on_step [OF ok on(1,3), where fs = fs]) (use on top h cur_nonzero [OF ok] in auto)
qed

lemma level_step:
  assumes ok: "sys_ok sg" and top: "frames sg (cur sg) = f # fs" "f \<in> {Set_level i, Iret, Enable}"
    and r: "sg' = sg\<lparr>kn := (kn sg)\<lparr>level := l\<rparr>, frames := (frames sg)(cur sg := fs)\<rparr>"
    and l: "l = (case f of Set_level i \<Rightarrow> i | _ \<Rightarrow> INTR_ON)"
  shows "sys_ok sg' \<and> moves False sg sg'"
proof (rule local_ok [OF ok, where i = l and fs = fs])
  have off: "off_frames (cur sg) (f # fs)"
    using sys_ok_off [OF ok top(1)] top(2) by auto
  show "if l = INTR_ON then plain (cur sg) fs else off_frames (cur sg) fs"
    using off top(2) l by (cases fs; cases l) (auto split: if_splits)
  show "set fs \<subseteq> {Enable, Iret, Set_level INTR_OFF}" if "cur sg = idle_thread (kn sg)"
    using ok that top(1) by (auto simp: sys_ok_def sys_inv_def frames_ok_def)
qed (use top l r in auto)

lemma resume_step:
  assumes ok: "sys_ok sg" and ne: "frames sg (cur sg) \<noteq> []" and r: "resume sg = Inr sg'"
  shows "sys_ok sg' \<and> moves False sg sg'"
proof -
  obtain f fs where top: "frames sg (cur sg) = f # fs"
    using ne by (cases "frames sg (cur sg)") auto
  have pop: "pop sg = sg\<lparr>frames := (frames sg)(cur sg := fs)\<rparr>"
    by (simp add: pop_def top)
  have ext: "\<not> in_external_intr (kn sg)"
    using ok by (simp add: sys_ok_def)
  show ?thesis
  proof (cases f)
    case (Call_sema_down s)
    note on = sys_ok_on [OF ok top, unfolded Call_sema_down, simplified]
    show ?thesis
      by (rule sema_down_step [OF ok on(1,3), of s fs]) (use on r top pop Call_sema_down in \<open>auto simp: resume_def\<close>)
  next
    case (In_sema_down s old)
    then have e: "sema_down_loop sg s old = Inr sg'"
      using r top by (simp add: resume_def)
    show ?thesis
    proof (cases "sema_value (semas sg s) = 0")
      case True
      then show ?thesis
        using down_block_inv [OF ok top [unfolded In_sema_down] True] e by (auto simp: moves_def intro: switchesI)
    next
      case False
      then show ?thesis
        using down_take_inv [OF ok top [unfolded In_sema_down] False] e by (auto simp: moves_def stays_def)
    qed
  next
    case (Call_sema_up s)
    note on = sys_ok_on [OF ok top, unfolded Call_sema_up, simplified]
    show ?thesis
      by (rule up_step [OF ok on(1,3), of fs s]) (use on r top pop Call_sema_up in \<open>auto simp: resume_def\<close>)
  next
    case (Set_holder l)
    then show ?thesis
      using set_holder_step ok top r by simp
  next
    case (Call_lock_acquire l)
    note on = sys_ok_on [OF ok top, unfolded Call_lock_acquire, simplified]
    show ?thesis
      by (rule acquire_step [OF ok on(1,3), of fs l]) (use on r top pop Call_lock_acquire in \<open>auto simp: resume_def\<close>)
  next
    case (Call_lock_release l)
    note on = sys_ok_on [OF ok top, unfolded Call_lock_release, simplified]
    show ?thesis
      by (rule release_step [OF ok on(1,3), of fs l]) (use on r top pop Call_lock_release in \<open>auto simp: resume_def\<close>)
  next
    case (In_cond_broadcast c l)
    note on = sys_ok_on [OF ok top, unfolded In_cond_broadcast, simplified]
    show ?thesis
    proof (cases "cond_waiters sg c = []")
      case True
      then have "sg' = sg\<lparr>frames := (frames sg)(cur sg := fs)\<rparr>"
        using r top pop In_cond_broadcast by (simp add: resume_def)
      then show ?thesis
        by (intro on_step [OF ok on(1,3), where fs = fs]) (use on top In_cond_broadcast in auto)
    next
      case False
      then show ?thesis
        using signal_step [OF ok on(1,3), of c l] r top In_cond_broadcast by (simp add: resume_def)
    qed
  next
    case (Set_level i)
    show ?thesis
      by (rule level_step [OF ok top, of i _ i])
        (use sys_ok_off [OF ok top] Set_level r top ext in \<open>auto simp: resume_def restore_level_eq pop_def\<close>)
  next
    case Iret
    show ?thesis
      by (rule level_step [OF ok top, of _ _ INTR_ON]) (use Iret r top in \<open>auto simp: resume_def pop_def\<close>)
  next
    case Enable
    show ?thesis
      by (rule level_step [OF ok top, of _ _ INTR_ON])
        (use Enable r top ext in \<open>auto simp: resume_def pop_def intr_enable_def intr_context_def ASSERT_def\<close>)
  qed
qed

lemma call_step:
  assumes ok: "sys_ok sg" and fr: "frames sg (cur sg) = []" and on: "level (kn sg) = INTR_ON"
    and ni: "cur sg \<noteq> idle_thread (kn sg)" and r: "do_call c sg = Inr sg'"
  shows "sys_ok sg' \<and> moves False sg sg'"
proof -
  have self: "sg\<lparr>frames := (frames sg)(cur sg := [])\<rparr> = sg"
    using fr by (simp add: fun_upd_idem)
  show ?thesis
  proof (cases c)
    case (Down a)
    then show ?thesis
      using sema_down_step [OF ok on ni, of "Sema a" "[]" sg'] r fr self by simp
  next
    case (Up a)
    then show ?thesis
      using up_step [OF ok on ni, of "[]" "Sema a" sg'] r fr self by simp
  next
    case (Try_down a)
    then obtain b where "sema_try_down sg (Sema a) = Inr (sg', b)"
      using r by (auto simp: res_simps)
    note f = try_down_facts [OF ok on this]
    show ?thesis
      by (rule on_step [OF ok on ni, where fs = "[]"]) (use f fr in \<open>auto simp: fun_upd_idem\<close>)
  next
    case (Acquire l)
    then show ?thesis
      using acquire_step [OF ok on ni, of "[]" l sg'] r fr self by simp
  next
    case (Try_acquire l)
    then obtain p where p: "sema_try_down sg (Lock_sema l) = Inr p"
        "sg' = (case p of (sg1, b) \<Rightarrow> if b then push sg1 [Set_holder l] else sg1)"
      using r sys_ok_current [OF ok] by (cases "sema_try_down sg (Lock_sema l)")
        (auto simp: lock_try_acquire_def lock_held_by_current_thread_def ASSERT_def split: if_splits prod.splits)
    obtain sg1 b where "p = (sg1, b)"
      by fastforce
    then have t: "sema_try_down sg (Lock_sema l) = Inr (sg1, b)" and sg': "sg' = (if b then push sg1 [Set_holder l] else sg1)"
      using p by simp_all
    note f = try_down_facts [OF ok on t]
    have "count_of sg (Lock_sema l) \<noteq> 0" if b
      using f(4) that by (simp add: unat_eq_zero)
    then have n: "count_of sg (Lock_sema x) = count_of sg1 (Lock_sema x) + (if b \<and> x = l then 1 else 0)" for x
      using f(6) [of "Lock_sema x"] by auto
    have i: "int (count_of sg (Lock_sema x)) = int (count_of sg1 (Lock_sema x)) + (if b \<and> x = l then 1 else 0)" for x
      unfolding n by simp
    show ?thesis
    proof (rule on_step [OF ok on ni, where fs = "if b then [Set_holder l] else []"])
      show "int (count_of sg' (Lock_sema x)) + (if holder sg' x \<noteq> 0 then 1 else 0) + tokens x (if b then [Set_holder l] else [])
         = int (count_of sg (Lock_sema x)) + (if holder sg x \<noteq> 0 then 1 else 0) + tokens x (frames sg (cur sg))" for x
        unfolding i using f(2) fr by (auto simp: sg')
    qed (use f fr in \<open>auto simp: sg' fun_upd_idem\<close>)
  next
    case (Release l)
    then show ?thesis
      using release_step [OF ok on ni, of "[]" l sg'] r fr self by simp
  next
    case (Wait c l)
    then show ?thesis
      using wait_step [OF ok on ni] r by simp
  next
    case (Signal c l)
    then show ?thesis
      using signal_step [OF ok on ni] r by simp
  next
    case (Broadcast c l)
    then have "sg' = sg\<lparr>frames := (frames sg)(cur sg := [In_cond_broadcast c l])\<rparr>"
      using r fr by (simp add: cond_broadcast_def push_def)
    then show ?thesis
      by (intro on_step [OF ok on ni, where fs = "[In_cond_broadcast c l]"]) (use fr in auto)
  next
    case Yield
    have inv: "sys_inv INTR_ON sg" "locks_ok sg" "\<not> in_external_intr (kn sg)"
      using ok on by (simp_all add: sys_ok_def)
    from yield_inv [OF inv, of "[Set_level INTR_ON]"] obtain st where
      y: "thread_yield (kn sg) = Inr st" "sys_ok ((push sg [Set_level INTR_ON])\<lparr>kn := st\<rparr>)"
        "running_thread st = (case ready_list (kn sg) @ [cur sg] of [] \<Rightarrow> idle_thread (kn sg) | t # _ \<Rightarrow> t)"
        "ready_list st = tl (ready_list (kn sg) @ [cur sg])" "thread_ticks st = 0"
      using ni by auto
    have "sg' = (push sg [Set_level INTR_ON])\<lparr>kn := st\<rparr>"
      using r Yield y(1) on by (simp add: sys_yield_def intr_get_level_def)
    moreover from this have "switches sg sg'"
      using y(3-5) unfolding switches_def by (intro conjI exI [of _ "[cur sg]"]) simp_all
    ultimately show ?thesis
      using y(2) by (simp add: moves_def)
  qed
qed

text \<open>Interrupts. The handler runs in the context of the interrupted thread.\<close>

lemma handler_step:
  assumes ok: "sys_ok sg" and on: "level (kn sg) = INTR_ON" and vec: "vec_no \<ge> 0x20" "vec_no < 0x30"
    and h: "handler (sg\<lparr>kn := (kn sg)\<lparr>level := INTR_OFF, in_external_intr := True, yield_on_return := False\<rparr>\<rparr>) = Inr sg1"
    and inv: "sys_inv INTR_ON sg1" "locks_ok sg1" and st: "level (kn sg1) = INTR_OFF" "in_external_intr (kn sg1)"
    and keep: "stays sg sg1" "idle_thread (kn sg1) = idle_thread (kn sg)"
    and tick: "\<not> yield_on_return (kn sg1) \<Longrightarrow>
      (if tick then thread_ticks (kn sg1) = thread_ticks (kn sg) + 1 \<and> thread_ticks (kn sg1) < TIME_SLICE
       else thread_ticks (kn sg1) = thread_ticks (kn sg))"
  shows "\<exists>sg'. intr_handler sg vec_no (Some handler) = Inr sg' \<and> sys_ok sg' \<and> moves tick sg sg'"
proof -
  define sg2 where "sg2 = sg1\<lparr>kn := (kn sg1)\<lparr>in_external_intr := False\<rparr>\<rparr>"
  have ext: "\<not> in_external_intr (kn sg)"
    using ok by (simp add: sys_ok_def)
  have e: "intr_handler sg vec_no (Some handler) = (if yield_on_return (kn sg2) then sys_yield (push sg2 [Iret])
      else Inr (sg2\<lparr>kn := (kn sg2)\<lparr>level := INTR_ON\<rparr>\<rparr>))"
    using h st ext vec by (simp add: intr_handler_def invoke_handler_def pic_end_of_interrupt_def intr_get_level_def intr_context_def ASSERT_def Let_def sg2_def)
  have same: "waiting sg2 = waiting sg1" "woken sg2 = woken sg1" "lock_total sg2 = lock_total sg1" for s
    by (auto simp: sg2_def waiting_def woken_def lock_total_def fun_eq_iff)
  have inv2: "sys_inv INTR_ON sg2" "locks_ok sg2"
    using inv unfolding sys_inv_def queues_ok_def wake_ok_def locks_ok_def same by (simp_all add: sg2_def frames_ok_def)
  show ?thesis
  proof (cases "yield_on_return (kn sg2)")
    case True
    have "\<not> in_external_intr (kn sg2)"
      by (simp add: sg2_def)
    from yield_inv [OF inv2 this, of "[Set_level INTR_OFF, Iret]"] obtain st' ts where
      y: "thread_yield (kn sg2) = Inr st'" "sys_ok ((push sg2 [Set_level INTR_OFF, Iret])\<lparr>kn := st'\<rparr>)"
        "running_thread st' = (case ready_list (kn sg2) @ ts of [] \<Rightarrow> idle_thread (kn sg2) | t # _ \<Rightarrow> t)"
        "ready_list st' = tl (ready_list (kn sg2) @ ts)" "thread_ticks st' = 0"
      by auto
    have "sys_yield (push sg2 [Iret]) = Inr ((push sg2 [Set_level INTR_OFF, Iret])\<lparr>kn := st'\<rparr>)"
      using y(1) st by (simp add: sys_yield_def intr_get_level_def push_def sg2_def)
    moreover have i2: "idle_thread (kn sg2) = idle_thread (kn sg)"
      using keep(2) by (simp add: sg2_def)
    moreover obtain us where "ready_list (kn sg2) = ready_list (kn sg) @ us"
      using keep(1) by (auto simp: stays_def sg2_def)
    then have "switches sg ((push sg2 [Set_level INTR_OFF, Iret])\<lparr>kn := st'\<rparr>)"
      using y(3-5) unfolding switches_def i2 by (intro conjI exI [of _ "us @ ts"]) (simp_all add: sg2_def)
    ultimately show ?thesis
      using e True y(2) by (simp add: moves_def)
  next
    case False
    let ?sg' = "sg2\<lparr>kn := (kn sg2)\<lparr>level := INTR_ON\<rparr>\<rparr>"
    have same': "waiting ?sg' = waiting sg2" "woken ?sg' = woken sg2" "lock_total ?sg' = lock_total sg2" for s
      by (auto simp: waiting_def woken_def lock_total_def fun_eq_iff)
    have "sys_inv INTR_ON ?sg'" "locks_ok ?sg'"
      using inv2 unfolding sys_inv_def queues_ok_def wake_ok_def locks_ok_def same' by (simp_all add: frames_ok_def)
    moreover have "moves tick sg ?sg'"
      using False keep(1) tick by (auto simp: moves_def stays_def sg2_def)
    ultimately show ?thesis
      using e False by (simp add: sys_ok_def sg2_def)
  qed
qed

lemma tick_effect:
  assumes ok: "sched_ok st" and ext: "in_external_intr st"
  obtains st' where "thread_tick st = Inr st'" and "sched_ok st'" and "running_thread st' = running_thread st" and "threads st' = threads st"
    and "ready_list st' = ready_list st" and "same_sched st st'" and "level st' = level st" and "thread_ticks st' = thread_ticks st + 1"
    and "yield_on_return st' = (yield_on_return st \<or> thread_ticks st + 1 \<ge> TIME_SLICE)"
proof -
  define s1 where "s1 = (if running_thread st = idle_thread st then st\<lparr>idle_ticks := idle_ticks st + 1\<rparr>
     else if pagedir (threads st (running_thread st)) \<noteq> 0 then st\<lparr>user_ticks := user_ticks st + 1\<rparr>
     else st\<lparr>kernel_ticks := kernel_ticks st + 1\<rparr>)"
  have s1: "sched_ok s1" "running_thread s1 = running_thread st" "threads s1 = threads st" "ready_list s1 = ready_list st"
    "same_sched st s1" "level s1 = level st" "thread_ticks s1 = thread_ticks st" "yield_on_return s1 = yield_on_return st"
    using ok by (auto simp: s1_def same_sched_def)
  define s2 where "s2 = s1\<lparr>thread_ticks := thread_ticks st + 1, yield_on_return := yield_on_return st \<or> thread_ticks st + 1 \<ge> TIME_SLICE\<rparr>"
  have t: "thread_tick st = (let st = s1\<lparr>thread_ticks := thread_ticks s1 + 1\<rparr> in
      if thread_ticks st \<ge> TIME_SLICE then intr_yield_on_return st else Inr st)"
    using current_ok [OF ok] by (simp add: thread_tick_def s1_def)
  have "in_external_intr s1"
    using s1(5) ext by (simp add: same_sched_def)
  moreover have "s1\<lparr>thread_ticks := n, yield_on_return := yield_on_return st\<rparr> = s1\<lparr>thread_ticks := n\<rparr>" for n
    using s1(8) by simp
  ultimately have "thread_tick st = Inr s2"
    unfolding t by (simp add: s2_def s1(7) intr_yield_on_return_def intr_context_def ASSERT_def Let_def)
  then show thesis
    by (rule that) (use s1 in \<open>simp_all add: s2_def same_sched_def\<close>)
qed

lemma timer_step:
  assumes ok: "sys_ok sg" and on: "level (kn sg) = INTR_ON"
  shows "\<exists>sg'. intr_handler sg 0x20 (Some timer_interrupt) = Inr sg' \<and> sys_ok sg' \<and> moves True sg sg'"
proof -
  define st where "st = (kn sg)\<lparr>level := INTR_OFF, in_external_intr := True, yield_on_return := False\<rparr>"
  have inv: "sys_inv INTR_ON sg" "locks_ok sg" "sched_ok (kn sg)"
    using ok on by (simp_all add: sys_ok_def sys_inv_def)
  then have "sched_ok st" "in_external_intr st"
    by (simp_all add: st_def)
  then obtain st' where t: "thread_tick st = Inr st'" "sched_ok st'" "running_thread st' = running_thread st" "threads st' = threads st"
      "ready_list st' = ready_list st" "same_sched st st'" "level st' = level st" "thread_ticks st' = thread_ticks st + 1"
      "yield_on_return st' = (yield_on_return st \<or> thread_ticks st + 1 \<ge> TIME_SLICE)"
    by (rule tick_effect)
  let ?sg1 = "sg\<lparr>ticks := ticks sg + 1, kn := st'\<rparr>"
  have same: "all_list st' = all_list (kn sg)" "idle_thread st' = idle_thread (kn sg)" "running_thread st' = cur sg" "threads st' = threads (kn sg)"
    using t by (simp_all add: same_sched_def st_def)
  have w: "waiting ?sg1 = waiting sg" "woken ?sg1 = woken sg" "lock_total ?sg1 = lock_total sg"
    by (auto simp: waiting_def woken_def lock_total_def fun_eq_iff same)
  have "sys_inv INTR_ON ?sg1" "locks_ok ?sg1"
    using inv t(2) unfolding sys_inv_def queues_ok_def wake_ok_def locks_ok_def w by (simp_all add: frames_ok_def same)
  then show ?thesis
    using t same by (intro handler_step [OF ok on _ _, of _ _ ?sg1])
      (auto simp: timer_interrupt_def st_def [symmetric] stays_def, simp_all add: st_def same_sched_def not_le)
qed

lemma device_step:
  assumes ok: "sys_ok sg" and on: "level (kn sg) = INTR_ON" and vec: "vec_no \<ge> 0x20" "vec_no < 0x30"
  shows "\<exists>sg'. intr_handler sg vec_no (Some (\<lambda>sg. sema_up sg (Sema a))) = Inr sg' \<and> sys_ok sg' \<and> moves False sg sg'"
proof -
  define sg0 where "sg0 = sg\<lparr>kn := (kn sg)\<lparr>level := INTR_OFF, in_external_intr := True, yield_on_return := False\<rparr>\<rparr>"
  have inv: "sys_inv INTR_ON sg" "locks_ok sg" "sched_ok (kn sg)"
    using ok on by (simp_all add: sys_ok_def sys_inv_def)
  have w: "waiting sg0 = waiting sg" "woken sg0 = woken sg" "lock_total sg0 = lock_total sg"
    by (auto simp: waiting_def woken_def lock_total_def fun_eq_iff sg0_def)
  have inv0: "sys_inv INTR_ON sg0" "locks_ok sg0"
    using inv unfolding sys_inv_def queues_ok_def wake_ok_def locks_ok_def w by (simp_all add: frames_ok_def sg0_def)
  have ctx: "in_external_intr (kn sg0) \<Longrightarrow> level (kn sg0) = INTR_OFF"
    by (simp add: sg0_def)
  obtain sg1 where u: "sema_up sg0 (Sema a) = Inr sg1"
    using sema_up_effect [OF inv0(1) ctx, of "Sema a"] by metis
  note f = sema_up_facts [OF inv0(1) ctx u]
  have "lock_total sg1 l = lock_total sg0 l" for l
    using sema_up_total [OF inv0(1) ctx u, of l] by simp
  then have "locks_ok sg1"
    using inv0(2) by (simp add: locks_ok_def)
  moreover have "sys_inv INTR_ON sg1"
    by (rule sema_up_inv [OF inv0(1) ctx u])
  moreover have "stays sg sg1"
    using f(2,10) unfolding stays_def by (intro conjI exI [of _ "take 1 (waiters sg0 (Sema a))"]) (simp_all add: sg0_def)
  ultimately show ?thesis
    using f u by (intro handler_step [OF ok on vec, of _ sg1]) (simp_all add: sg0_def same_sched_def)
qed

text \<open>Every step keeps the invariant and moves the run queue as described.\<close>

lemma step_ok: "step sg e sg' \<Longrightarrow> sys_ok sg \<Longrightarrow> sys_ok sg' \<and> moves (e = Timer) sg sg'"
proof (induction rule: step.induct)
  case (call sg c sg')
  then show ?case
    using call_step [of sg c sg'] by simp
next
  case (continue sg sg')
  then show ?case
    using resume_step [of sg sg'] by simp
next
  case (timer sg sg')
  then show ?case
    using timer_step [of sg] by auto
next
  case (device sg vec_no a sg')
  then show ?case
    using device_step [of sg vec_no a] by auto
next
  case (idle sg sg')
  then show ?case
    using idle_inv [of sg] by (auto simp: moves_def intro: switchesI)
qed

lemma runs_ok: "runs sg es sg' \<Longrightarrow> sys_ok sg \<Longrightarrow> sys_ok sg'"
  by (induction rule: runs.induct) (auto dest: step_ok)

section \<open>Waiting times\<close>

lemma timer_runs_out:
  assumes "runs sg es sg'" and "sys_ok sg" and "unat (thread_ticks (kn sg)) < 4"
    and "k < length (ready_list (kn sg))" and "ready_list (kn sg) ! k = t"
    and "4 * k + 4 \<le> count_list es Timer + unat (thread_ticks (kn sg))"
  shows "\<exists>sg1 es1 es2. es = es1 @ es2 \<and> runs sg es1 sg1 \<and> runs sg1 es2 sg' \<and> cur sg1 = t"
  using assms
proof (induction arbitrary: k rule: runs.induct)
  case (more sg e sg1 es sg')
  have ok1: "sys_ok sg1" and mv: "moves (e = Timer) sg sg1"
    using step_ok [OF more.hyps(1) more.prems(1)] by simp_all
  have later: ?case if "\<exists>sg2 es1 es2. es = es1 @ es2 \<and> runs sg1 es1 sg2 \<and> runs sg2 es2 sg' \<and> cur sg2 = t"
  proof -
    from that obtain sg2 es1 es2 where "es = es1 @ es2" "runs sg1 es1 sg2" "runs sg2 es2 sg'" "cur sg2 = t"
      by blast
    then show ?thesis
      using runs.more [OF more.hyps(1), of es1 sg2] by (intro exI [of _ sg2] exI [of _ "e # es1"] exI [of _ es2]) simp
  qed
  from mv show ?case
    unfolding moves_def
  proof (elim disjE conjE)
    assume s: "stays sg sg1"
      and tick: "if e = Timer then thread_ticks (kn sg1) = thread_ticks (kn sg) + 1 \<and> thread_ticks (kn sg1) < TIME_SLICE
                 else thread_ticks (kn sg1) = thread_ticks (kn sg)"
    have pos: "k < length (ready_list (kn sg1))" "ready_list (kn sg1) ! k = t"
      using s more.prems(3,4) by (auto simp: stays_def nth_append)
    have "unat (thread_ticks (kn sg) + 1) = unat (thread_ticks (kn sg)) + 1"
      using more.prems(2) unat_plus_no_wrap [of "thread_ticks (kn sg)" 1] by simp
    then have "unat (thread_ticks (kn sg1)) < 4" "4 * k + 4 \<le> count_list es Timer + unat (thread_ticks (kn sg1))"
      using tick more.prems(2,5) by (auto simp: TIME_SLICE_def word_less_nat_alt split: if_splits)
    then show ?case
      using later more.IH [OF ok1 _ pos] by blast
  next
    assume "switches sg sg1"
    then obtain ts where z: "thread_ticks (kn sg1) = 0"
      and c: "cur sg1 = (case ready_list (kn sg) @ ts of [] \<Rightarrow> idle_thread (kn sg) | t # _ \<Rightarrow> t)"
      and r: "ready_list (kn sg1) = tl (ready_list (kn sg) @ ts)"
      by (auto simp: switches_def)
    obtain u us where q: "ready_list (kn sg) = u # us"
      using more.prems(3) by (cases "ready_list (kn sg)") auto
    show ?case
    proof (cases k)
      case 0
      then have "cur sg1 = t"
        using c q more.prems(4) by simp
      then show ?thesis
        using runs.more [OF more.hyps(1) runs.start] more.hyps(2) by (intro exI [of _ sg1] exI [of _ "[e]"] exI [of _ es]) simp
    next
      case (Suc j)
      have pos: "j < length (ready_list (kn sg1))" "ready_list (kn sg1) ! j = t"
        using Suc r q more.prems(3,4) by (auto simp: nth_append)
      have "4 * j + 4 \<le> count_list es Timer + unat (thread_ticks (kn sg1))"
        using Suc z more.prems(2,5) by (simp split: if_splits)
      then show ?thesis
        using later more.IH [OF ok1 _ pos] z by simp
    qed
  qed
qed simp

section \<open>Starting state\<close>

text \<open>The system after \<^verbatim>\<open>thread_start\<close>: every thread but the running one is about to start, no thread waits, and all locks are
  initialised.\<close>

definition sys_start :: "sys \<Rightarrow> bool" where
  "sys_start sg \<longleftrightarrow> sched_ok (kn sg) \<and> \<not> in_external_intr (kn sg) \<and> level (kn sg) = INTR_ON
     \<and> unat (thread_ticks (kn sg)) < 4
     \<and> (\<forall>t \<in> set (all_list (kn sg)). frames sg t = (if t = cur sg then [] else [Enable]))
     \<and> (\<forall>t \<in> set (all_list (kn sg)). t \<noteq> idle_thread (kn sg) \<longrightarrow> tstatus sg t \<noteq> THREAD_BLOCKED)
     \<and> (\<forall>s. waiters sg s = []) \<and> (\<forall>l. sema_value (semas sg (Lock_sema l)) = 1 \<and> holder sg l = 0)"

lemma start_ok: "sys_start sg \<Longrightarrow> sys_ok sg"
proof -
  assume s: "sys_start sg"
  then have fr: "frames sg t = (if t = cur sg then [] else [Enable])" if "t \<in> set (all_list (kn sg))" for t
    using that by (simp add: sys_start_def)
  have c: "cur sg \<in> set (all_list (kn sg))" "idle_thread (kn sg) \<in> set (all_list (kn sg))"
    using s by (simp_all add: sys_start_def sched_inv_def)
  have "frames_ok INTR_ON sg"
    using c by (auto simp: frames_ok_def fr)
  moreover have "\<not> waiting sg x t" for x t
    using fr [of t] by (auto simp: waiting_def)
  then have "queues_ok sg" "wake_ok sg"
    using s by (auto simp: queues_ok_def wake_ok_def sys_start_def)
  moreover have "tokens l (frames sg t) = 0" if "t \<in> set (all_list (kn sg))" for t l
    using that by (simp add: fr)
  then have "locks_ok sg"
    using s by (simp add: locks_ok_def lock_total_def sys_start_def)
  ultimately show "sys_ok sg"
    using s by (simp add: sys_ok_def sys_inv_def sys_start_def)
qed

lemma start_runs_ok: "sys_start sg \<Longrightarrow> runs sg es sg' \<Longrightarrow> sys_ok sg'"
  using runs_ok start_ok by blast

text \<open>A thread owns a lock from the moment its \<^verbatim>\<open>sema_down\<close> on the lock's semaphore succeeds until its \<^verbatim>\<open>sema_up\<close>.\<close>

definition owns :: "sys \<Rightarrow> addr \<Rightarrow> addr \<Rightarrow> bool" where
  "owns sg l t \<longleftrightarrow> t \<in> set (all_list (kn sg)) \<and> (holder sg l = t \<or> 1 \<le> tokens l (frames sg t))"

lemma owns_unique:
  assumes ok: "sys_ok sg" and own: "owns sg l t" "owns sg l t'"
  shows "t = t' \<and> sema_value (semas sg (Lock_sema l)) = 0"
proof -
  have so: "sched_ok (kn sg)" and fo: "frames_ok (level (kn sg)) sg" and lk: "lock_total sg l = 1"
    using ok by (simp_all add: sys_ok_def sys_inv_def locks_ok_def)
  have nz: "t \<noteq> 0" "t' \<noteq> 0"
    using so own by (auto simp: sched_inv_def owns_def)
  have "t = t'"
    using lock_bounds(2,3) [OF fo so lk] own nz unfolding owns_def by metis
  moreover have "count_of sg (Lock_sema l) = 0"
  proof (cases "holder sg l = t")
    case True
    have "0 \<le> (\<Sum>t \<in> set (all_list (kn sg)). tokens l (frames sg t))"
      using frames_ok_tokens [OF fo] by (rule sum_nonneg)
    moreover have "int (count_of sg (Lock_sema l)) + 1 + (\<Sum>t \<in> set (all_list (kn sg)). tokens l (frames sg t)) = 1"
      using lk True nz(1) by (simp only: lock_total_def) simp
    ultimately show ?thesis
      by linarith
  next
    case False
    then show ?thesis
      using lock_bounds(2) [OF fo so lk] own(1) by (auto simp: owns_def)
  qed
  ultimately show ?thesis
    by (simp add: unat_eq_zero)
qed

lemma no_stuck:
  assumes ok: "sys_ok sg"
  shows "\<exists>sg'. step sg (if level (kn sg) = INTR_ON then Timer else Continue) sg' \<and> sys_ok sg'"
proof (cases "level (kn sg)")
  case INTR_ON
  then show ?thesis
    using timer_step [OF ok] step.timer by auto
next
  case INTR_OFF
  have ext: "\<not> in_external_intr (kn sg)"
    using ok by (simp add: sys_ok_def)
  have off: "off_frames (cur sg) (frames sg (cur sg))"
    using ok INTR_OFF by (simp add: sys_ok_def sys_inv_def frames_ok_def)
  then obtain f fs where top: "frames sg (cur sg) = f # fs"
    by (cases "frames sg (cur sg)") auto
  have "\<exists>sg'. resume sg = Inr sg'"
  proof (cases f)
    case (In_sema_down s old)
    then show ?thesis
      using down_block_inv [OF ok top [unfolded In_sema_down]] down_take_inv [OF ok top [unfolded In_sema_down]] top
      by (cases "sema_value (semas sg s) = 0") (auto simp: resume_def)
  qed (use off top ext in \<open>simp_all add: resume_def restore_level_eq intr_enable_def intr_context_def ASSERT_def\<close>)
  then obtain sg' where "resume sg = Inr sg'"
    by blast
  then have "step sg Continue sg'"
    using top step.continue [of sg sg'] by simp
  then show ?thesis
    using INTR_OFF step_ok [OF _ ok] by auto
qed

text \<open>Taking a free lock without being interrupted.\<close>

lemma acquire_free:
  assumes ok: "sys_ok sg" and on: "level (kn sg) = INTR_ON" and fr: "frames sg (cur sg) = []"
    and ni: "cur sg \<noteq> idle_thread (kn sg)" and free: "sema_value (semas sg (Lock_sema l)) \<noteq> 0" and h: "holder sg l \<noteq> cur sg"
  shows "\<exists>sg'. runs sg [Call (Acquire l), Continue, Continue, Continue] sg' \<and> holder sg' l = cur sg' \<and> cur sg' = cur sg"
proof -
  have ext: "\<not> in_external_intr (kn sg)"
    using ok by (simp add: sys_ok_def)
  note cu = sys_ok_current [OF ok]
  define sg1 where "sg1 = push sg [Call_sema_down (Lock_sema l), Set_holder l]"
  define sg2 where "sg2 = sg1\<lparr>kn := (kn sg)\<lparr>level := INTR_OFF\<rparr>, frames := (frames sg1)(cur sg := [In_sema_down (Lock_sema l) INTR_ON, Set_holder l])\<rparr>"
  have s1: "step sg (Call (Acquire l)) sg1"
    by (rule step.call) (use fr on ni ext h cu in \<open>simp_all add: lock_acquire_def lock_held_by_current_thread_def ASSERT_def intr_context_def sg1_def\<close>)
  have s2: "step sg1 Continue sg2"
    by (rule step.continue) (use fr on ext in \<open>simp_all add: sg1_def sg2_def resume_def sema_down_def ASSERT_def intr_context_def
        intr_disable_def intr_get_level_def push_def pop_def\<close>)
  obtain sg3 where s3: "sema_down_loop sg2 (Lock_sema l) INTR_ON = Inr sg3" "kn sg3 = (kn sg2)\<lparr>level := INTR_ON\<rparr>"
      "frames sg3 (cur sg) = [Set_holder l]"
    using free ext by (simp add: sg2_def sg1_def sema_down_loop_def restore_level_eq)
  have "step sg2 Continue sg3"
    by (rule step.continue) (use s3 in \<open>simp_all add: sg2_def resume_def\<close>)
  moreover define sg4 where "sg4 = pop (sg3\<lparr>holder := (holder sg3)(l := cur sg)\<rparr>)"
  have "kn sg2 = (kn sg)\<lparr>level := INTR_OFF\<rparr>"
    by (simp add: sg2_def)
  then have c3: "cur sg3 = cur sg" "thread_current (kn sg3) = Inr (cur sg)"
    using s3(2) on cu by (simp_all add: kern_level_same)
  then have "step sg3 Continue sg4"
    by (intro step.continue) (use s3 in \<open>simp_all add: sg4_def resume_def\<close>)
  ultimately have "runs sg [Call (Acquire l), Continue, Continue, Continue] sg4"
    using s1 s2 by (blast intro: runs.intros)
  moreover have "holder sg4 l = cur sg4" "cur sg4 = cur sg"
    using c3 by (simp_all add: sg4_def)
  ultimately show ?thesis
    by blast
qed

text \<open>With interrupts off the running thread soon turns them on again, so timer interrupts never cease.\<close>

lemma runs_append: "runs sg es sg1 \<Longrightarrow> runs sg1 es' sg' \<Longrightarrow> runs sg (es @ es') sg'"
  by (induction rule: runs.induct) (auto intro: runs.more)

definition off_measure :: "sys \<Rightarrow> nat" where
  "off_measure sg = 3 * (2 * length (ready_list (kn sg)) + (if cur sg = idle_thread (kn sg) then 0 else 1))
     + (if frames sg (cur sg) \<noteq> [] \<and> hd (frames sg (cur sg)) = Set_level INTR_OFF then 2 else 1)"

lemma off_progress:
  assumes ok: "sys_ok sg" and off: "level (kn sg) = INTR_OFF"
  shows "\<exists>sg'. step sg Continue sg' \<and> sys_ok sg' \<and> (level (kn sg') = INTR_ON \<or> off_measure sg' < off_measure sg)"
proof -
  obtain sg' where s: "step sg Continue sg'" and ok': "sys_ok sg'"
    using no_stuck [OF ok] off by auto
  then have r: "resume sg = Inr sg'"
    by (auto elim: step.cases)
  have ext: "\<not> in_external_intr (kn sg)"
    using ok by (simp add: sys_ok_def)
  have o: "off_frames (cur sg) (frames sg (cur sg))"
    using ok off by (simp add: sys_ok_def sys_inv_def frames_ok_def)
  then obtain f fs where top: "frames sg (cur sg) = f # fs"
    by (cases "frames sg (cur sg)") auto
  have "level (kn sg') = INTR_ON \<or> off_measure sg' < off_measure sg"
  proof (cases f)
    case (In_sema_down s old)
    then have e: "sema_down_loop sg s old = Inr sg'"
      using r top by (simp add: resume_def)
    have ni: "cur sg \<noteq> idle_thread (kn sg)"
      using ok top In_sema_down by (auto simp: sys_ok_def sys_inv_def frames_ok_def)
    show ?thesis
    proof (cases "sema_value (semas sg s) = 0")
      case True
      then have b: "cur sg' = next_thread (kn sg)" "idle_thread (kn sg') = idle_thread (kn sg)" "ready_list (kn sg') = tl (ready_list (kn sg))"
        using down_block_inv [OF ok top [unfolded In_sema_down] True] e by (auto simp: same_sched_def)
      then show ?thesis
        using ni top In_sema_down by (cases "ready_list (kn sg)") (simp_all add: off_measure_def next_thread_def)
    next
      case False
      then show ?thesis
        using down_take_inv [OF ok top [unfolded In_sema_down] False] e by auto
    qed
  next
    case (Set_level l)
    then show ?thesis
      using r top o ext by (cases l) (auto simp: resume_def restore_level_eq off_measure_def)
  qed (use r top o ext in \<open>auto simp: resume_def intr_enable_def intr_context_def ASSERT_def\<close>)
  then show ?thesis
    using s ok' by blast
qed

lemma interrupts_return: "sys_ok sg \<Longrightarrow> \<exists>es sg'. runs sg es sg' \<and> sys_ok sg' \<and> level (kn sg') = INTR_ON"
proof (induction "off_measure sg" arbitrary: sg rule: less_induct)
  case less
  show ?case
  proof (cases "level (kn sg)")
    case INTR_ON
    then show ?thesis
      using less.prems runs.start by blast
  next
    case INTR_OFF
    then obtain sg1 where "step sg Continue sg1" "sys_ok sg1" "level (kn sg1) = INTR_ON \<or> off_measure sg1 < off_measure sg"
      using off_progress [OF less.prems] by blast
    then show ?thesis
      using less.hyps [of sg1] runs.more runs.start by blast
  qed
qed

lemma many_timers: "sys_ok sg \<Longrightarrow> \<exists>es sg'. runs sg es sg' \<and> n \<le> count_list es Timer"
proof (induction n arbitrary: sg)
  case 0
  then show ?case
    using runs.start by blast
next
  case (Suc n)
  obtain es1 sg1 where 1: "runs sg es1 sg1" "sys_ok sg1" "level (kn sg1) = INTR_ON"
    using interrupts_return [OF Suc.prems] by blast
  then obtain sg2 where 2: "step sg1 Timer sg2" "sys_ok sg2"
    using no_stuck [OF 1(2)] by auto
  obtain es3 sg3 where "runs sg2 es3 sg3" "n \<le> count_list es3 Timer"
    using Suc.IH [OF 2(2)] by blast
  then have "runs sg (es1 @ Timer # es3) sg3" "Suc n \<le> count_list (es1 @ Timer # es3) Timer"
    using runs_append [OF 1(1)] runs.more [OF 2(1)] by (auto simp: count_list_append)
  then show ?case
    by blast
qed

section \<open>An example\<close>

text \<open>Three threads: the running one, the idle one and one that is ready.\<close>

definition demo_kern :: kern where
  "demo_kern = \<lparr>vmem = demo_vm,
     threads = (\<lambda>t. zero_thread\<lparr>status := if t = 0xc0001000 then THREAD_RUNNING else if t = 0xc0002000 then THREAD_BLOCKED else THREAD_READY,
        stack := t + 0xe00, magic := THREAD_MAGIC\<rparr>),
     ready_list = [0xc0003000], all_list = [0xc0001000, 0xc0002000, 0xc0003000], idle_thread = 0xc0002000,
     initial_thread = 0xc0001000, next_tid = 4, idle_ticks = 0, kernel_ticks = 0, user_ticks = 0, thread_ticks = 0,
     esp = 0xc0001e00, level = INTR_ON, in_external_intr = False, yield_on_return = False, tss_esp0 = Some 0xc0002000\<rparr>"

definition demo_sys :: sys where
  "demo_sys = \<lparr>kn = demo_kern, semas = (\<lambda>s. \<lparr>sema_value = case s of Lock_sema l \<Rightarrow> 1 | _ \<Rightarrow> 0, sema_waiters = []\<rparr>),
     holder = (\<lambda>_. 0), cond_waiters = (\<lambda>_. []), frames = (\<lambda>t. if t = 0xc0001000 then [] else [Enable]), ticks = 0, unexpected_cnt = (\<lambda>_. 0)\<rparr>"

lemma demo_running: "running_thread demo_kern = 0xc0001000"
  by (simp add: running_thread_def demo_kern_def pg_round_down_eq pg_ofs_take_bit)

lemma demo_pages: "pg_round_down 0xc0002e10 = 0xc0002000" "pg_round_down 0xc0003e10 = 0xc0003000"
  by (simp_all add: pg_round_down_eq pg_ofs_take_bit)

lemma demo_sched: "sched_ok demo_kern"
  unfolding sched_inv_def demo_running
  by (auto simp: demo_kern_def thread_ok_def zero_thread_def demo_pages PHYS_BASE_def)

lemma demo_start: "sys_start demo_sys"
  using demo_sched demo_running unfolding sys_start_def by (simp add: demo_sys_def) (simp add: demo_kern_def)

section \<open>Correctness\<close>

text \<open>C3: A ready thread gets the processor after a bounded number of timer interrupts. For a thread at position \<open>k\<close> of the run queue there
  are runs with \<open>4 * (k + 1)\<close> timer interrupts, and in every such run, whatever the threads and devices do, the thread is
  running at some point.\<close>

theorem ready_thread_runs:
  assumes "sys_ok sg" and "unat (thread_ticks (kn sg)) < 4" and "k < length (ready_list (kn sg))"
  shows "(\<exists>es sg'. runs sg es sg' \<and> 4 * (k + 1) \<le> count_list es Timer)
     \<and> (\<forall>es sg'. runs sg es sg' \<longrightarrow> 4 * (k + 1) \<le> count_list es Timer \<longrightarrow>
         (\<exists>sg1 es1 es2. es = es1 @ es2 \<and> runs sg es1 sg1 \<and> runs sg1 es2 sg' \<and> running_thread (kn sg1) = ready_list (kn sg) ! k))"
proof (intro conjI allI impI)
  show "\<exists>es sg'. runs sg es sg' \<and> 4 * (k + 1) \<le> count_list es Timer"
    by (rule many_timers [OF assms(1)])
next
  fix es sg'
  assume "runs sg es sg'" and "4 * (k + 1) \<le> count_list es Timer"
  then show "\<exists>sg1 es1 es2. es = es1 @ es2 \<and> runs sg es1 sg1 \<and> runs sg1 es2 sg' \<and> cur sg1 = ready_list (kn sg) ! k"
    using timer_runs_out [OF _ assms refl] by simp
qed

theorem ready_thread_runs_witness: "\<exists>es sg. runs demo_sys es sg \<and> running_thread (kn sg) = 0xc0003000"
  using ready_thread_runs [OF start_ok [OF demo_start], of 0] by (simp add: demo_sys_def demo_kern_def) blast

text \<open>C1: Locks exclude each other. In every state reachable from the start, however the threads are preempted, at most one thread owns a
  lock, counting from the moment its \<^verbatim>\<open>sema_down\<close> succeeded to its \<^verbatim>\<open>sema_up\<close>; and while a thread owns it the semaphore is zero, so no
  other thread can take it.\<close>

theorem lock_mutual_exclusion:
  assumes "sys_start sg0" and "runs sg0 es sg" and "owns sg l t" and "owns sg l t'"
  shows "t = t' \<and> sema_value (semas sg (Lock_sema l)) = 0"
  using owns_unique [OF start_runs_ok [OF assms(1,2)] assms(3,4)] .

theorem lock_mutual_exclusion_witness:
  "\<exists>sg. runs demo_sys [Call (Acquire 1), Continue, Continue, Continue] sg \<and> owns sg 1 0xc0001000
     \<and> sema_value (semas sg (Lock_sema 1)) = 0"
proof -
  have c: "cur demo_sys = 0xc0001000"
    using demo_running by (simp add: demo_sys_def)
  obtain sg where r: "runs demo_sys [Call (Acquire 1), Continue, Continue, Continue] sg" and h: "holder sg 1 = cur sg" "cur sg = cur demo_sys"
    using acquire_free [OF start_ok [OF demo_start], of 1] c by (auto simp: demo_sys_def demo_kern_def)
  then have "owns sg 1 0xc0001000"
    using start_runs_ok [OF demo_start r] c by (simp add: owns_def sys_ok_def sys_inv_def sched_inv_def)
  then show ?thesis
    using r lock_mutual_exclusion [OF demo_start r] by blast
qed

text \<open>C2: Waiting threads and wakeups. In every state reachable from the start a thread on the wait list of a semaphore is blocked, on no other
  wait list and not on the run queue, so the one list element it has is used once; and no wakeup is lost: while threads
  wait, there are at least as many threads on their way to take the semaphore as its value.\<close>

theorem no_lost_wakeup:
  assumes "sys_start sg0" and "runs sg0 es sg" and "t \<in> set (sema_waiters (semas sg s))"
  shows "status (threads (kn sg) t) = THREAD_BLOCKED \<and> t \<notin> set (ready_list (kn sg))
     \<and> (\<forall>s'. t \<in> set (sema_waiters (semas sg s')) \<longrightarrow> s' = s) \<and> unat (sema_value (semas sg s)) \<le> card (woken sg s)"
proof -
  have ok: "sys_inv (level (kn sg)) sg"
    using start_runs_ok [OF assms(1,2)] by (simp add: sys_ok_def)
  then have q: "queues_ok sg" and so: "sched_ok (kn sg)" and w: "wake_ok sg"
    by (simp_all add: sys_inv_def)
  note f = waiter_facts [OF q assms(3)]
  have "t \<notin> set (ready_list (kn sg))"
    using so f(1-3) by (auto simp: sched_inv_def)
  moreover have "s' = s" if "t \<in> set (waiters sg s')" for s'
    using waiter_facts(4) [OF q that] f(4) by (rule down_on_unique [rotated])
  moreover have "count_of sg s \<le> card (woken sg s)"
    using w assms(3) unfolding wake_ok_def by (metis empty_iff empty_set)
  ultimately show ?thesis
    using f(3) by blast
qed

theorem no_lost_wakeup_witness:
  "\<exists>sg. runs demo_sys [Call (Down 5), Continue] sg \<and> 0xc0001000 \<in> set (sema_waiters (semas sg (Sema 5)))
     \<and> status (threads (kn sg) 0xc0001000) = THREAD_BLOCKED"
proof -
  have c: "cur demo_sys = 0xc0001000"
    using demo_running by (simp add: demo_sys_def)
  define sg1 where "sg1 = push (demo_sys\<lparr>kn := demo_kern\<lparr>level := INTR_OFF\<rparr>\<rparr>) [In_sema_down (Sema 5) INTR_ON]"
  have s1: "step demo_sys (Call (Down 5)) sg1"
    by (rule step.call) (use c in \<open>simp_all add: demo_sys_def\<close>,
      simp_all add: demo_kern_def sg1_def demo_sys_def sema_down_def ASSERT_def intr_context_def intr_disable_def intr_get_level_def)
  have top: "frames sg1 (cur sg1) = [In_sema_down (Sema 5) INTR_ON]"
    using c by (simp add: sg1_def demo_sys_def)
  have z: "sema_value (semas sg1 (Sema 5)) = 0"
    by (simp add: sg1_def demo_sys_def)
  have ok1: "sys_ok sg1"
    using step_ok [OF s1 start_ok [OF demo_start]] by simp
  obtain sg where l: "sema_down_loop sg1 (Sema 5) INTR_ON = Inr sg"
    using down_block_inv [OF ok1 top z] by blast
  then have s2: "step sg1 Continue sg"
    using top by (intro step.continue) (simp_all add: resume_def)
  have r: "runs demo_sys [Call (Down 5), Continue] sg"
    using s1 s2 by (blast intro: runs.intros)
  have "cur sg1 = 0xc0001000"
    using c by (simp add: sg1_def demo_sys_def)
  then have "0xc0001000 \<in> set (sema_waiters (semas sg (Sema 5)))"
    using l z sys_ok_current [OF ok1] by (auto simp: sema_down_loop_def res_simps)
  then show ?thesis
    using r no_lost_wakeup [OF demo_start r] by blast
qed

end
