(* ===== verification/Synch_Progress.thy ===== *)
theory Synch_Progress
  imports Synch_Steps
begin

text \<open>No assertion of the scheduler, the synchronization primitives and the interrupt code fails, as long as threads call the lock and
  condition operations the way their comments in \<^verbatim>\<open>threads/synch.c\<close> say: a lock is not taken twice, released only by its holder,
  and a condition is waited on, signalled and broadcast only with the lock held.\<close>

section \<open>Contracts\<close>

text \<open>What the machine can do next: an interrupt arrives while interrupts are on, a thread inside a primitive continues, a thread outside
  all primitives calls one, and the idle thread goes round its loop.\<close>

fun enabled :: "sys \<Rightarrow> event \<Rightarrow> bool" where
  "enabled sg (Call c) \<longleftrightarrow> frames sg (cur sg) = [] \<and> level (kn sg) = INTR_ON \<and> cur sg \<noteq> idle_thread (kn sg)"
| "enabled sg Continue \<longleftrightarrow> frames sg (cur sg) \<noteq> []"
| "enabled sg Timer \<longleftrightarrow> level (kn sg) = INTR_ON"
| "enabled sg (Device_up a) \<longleftrightarrow> level (kn sg) = INTR_ON"
| "enabled sg Idle \<longleftrightarrow> frames sg (cur sg) = [] \<and> level (kn sg) = INTR_ON \<and> cur sg = idle_thread (kn sg)"

text \<open>What the callers of the primitives promise.\<close>

fun lawful :: "sys \<Rightarrow> event \<Rightarrow> bool" where
  "lawful sg (Call (Acquire l)) \<longleftrightarrow> holder sg l \<noteq> cur sg"
| "lawful sg (Call (Try_acquire l)) \<longleftrightarrow> holder sg l \<noteq> cur sg"
| "lawful sg (Call (Release l)) \<longleftrightarrow> holder sg l = cur sg"
| "lawful sg (Call (Wait c l)) \<longleftrightarrow> holder sg l = cur sg"
| "lawful sg (Call (Signal c l)) \<longleftrightarrow> holder sg l = cur sg"
| "lawful sg (Call (Broadcast c l)) \<longleftrightarrow> holder sg l = cur sg"
| "lawful sg e \<longleftrightarrow> True"

inductive lawful_runs :: "sys \<Rightarrow> event list \<Rightarrow> sys \<Rightarrow> bool" where
  start: "lawful_runs sg [] sg"
| more: "lawful_runs sg0 es sg \<Longrightarrow> lawful sg e \<Longrightarrow> step sg e sg' \<Longrightarrow> lawful_runs sg0 (es @ [e]) sg'"

section \<open>The locks a thread counts on\<close>

text \<open>What a thread has still to do, checked against the locks \<open>H\<close> it holds: it releases and broadcasts under locks it holds by then, and
  takes back, at the end of \<^verbatim>\<open>cond_wait\<close>, a lock it does not hold.\<close>

fun counts_on :: "addr set \<Rightarrow> frame list \<Rightarrow> bool" where
  "counts_on H [] = True"
| "counts_on H (f # fs) =
     (case f of
        Call_lock_release l \<Rightarrow> l \<in> H \<and> counts_on (H - {l}) fs
      | Call_lock_acquire l \<Rightarrow> l \<notin> H \<and> counts_on (insert l H) fs
      | Set_holder l \<Rightarrow> counts_on (insert l H) fs
      | In_cond_broadcast c l \<Rightarrow> l \<in> H \<and> counts_on H fs
      | _ \<Rightarrow> counts_on H fs)"

definition held :: "sys \<Rightarrow> addr \<Rightarrow> addr set" where
  "held sg t = {l. holder sg l = t}"

definition held_ok :: "sys \<Rightarrow> bool" where
  "held_ok sg \<longleftrightarrow> (\<forall>t \<in> set (all_list (kn sg)). counts_on (held sg t) (frames sg t))"

lemma in_held [simp]: "l \<in> held sg t \<longleftrightarrow> holder sg l = t"
  by (simp add: held_def)

text \<open>A step changes the work of the running thread only, and which locks it holds.\<close>

definition touches :: "sys \<Rightarrow> sys \<Rightarrow> frame list \<Rightarrow> bool" where
  "touches sg sg' fs \<longleftrightarrow> all_list (kn sg') = all_list (kn sg) \<and> frames sg' = (frames sg)(cur sg := fs)
     \<and> (\<forall>t \<in> set (all_list (kn sg)). t \<noteq> cur sg \<longrightarrow> held sg' t = held sg t)"

lemma held_okI: "held_ok sg \<Longrightarrow> touches sg sg' fs \<Longrightarrow> counts_on (held sg' (cur sg)) fs \<Longrightarrow> held_ok sg'"
  by (auto simp: held_ok_def touches_def)

lemma touches_same_holder:
  "all_list (kn sg') = all_list (kn sg) \<Longrightarrow> frames sg' = (frames sg)(cur sg := fs) \<Longrightarrow> holder sg' = holder sg \<Longrightarrow> touches sg sg' fs"
  by (simp add: touches_def held_def)

lemma held_ok_same:
  "held_ok sg \<Longrightarrow> all_list (kn sg') = all_list (kn sg) \<Longrightarrow> frames sg' = (frames sg)(cur sg := fs) \<Longrightarrow> holder sg' = holder sg \<Longrightarrow>
   counts_on (held sg (cur sg)) fs \<Longrightarrow> held_ok sg'"
  by (erule held_okI [where fs = fs], erule (2) touches_same_holder) (simp add: held_def)

lemma all_list_restore: "restore_level st l = Inr st' \<Longrightarrow> all_list st' = all_list st \<and> running_thread st' = running_thread st"
  by (cases l) (auto simp: restore_level_def intr_set_level_def intr_enable_def intr_disable_def ASSERT_def split: if_splits)

lemma all_list_activate: "process_activate st = Inr st' \<Longrightarrow> all_list st' = all_list st"
  by (auto simp: process_activate_def tss_update_def ASSERT_def res_simps split: if_splits)

lemma all_list_tail: "thread_schedule_tail st prev = Inr st' \<Longrightarrow> all_list st' = all_list st"
  unfolding thread_schedule_tail_def Let_def res_simps
  by (elim conjE exE) (auto simp: res_simps dest!: all_list_activate split: if_splits)

lemma all_list_schedule: "schedule st = Inr st' \<Longrightarrow> all_list st' = all_list st"
  by (cases "ready_list st")
    (auto simp: schedule_def next_thread_to_run_def switch_threads_def Let_def res_simps dest!: all_list_tail split: if_splits)

lemma all_list_block: "thread_block st = Inr st' \<Longrightarrow> all_list st' = all_list st"
  by (auto simp: thread_block_def res_simps dest!: all_list_schedule)

lemma all_list_yield: "thread_yield st = Inr st' \<Longrightarrow> all_list st' = all_list st"
  by (auto simp: thread_yield_def intr_disable_def Let_def res_simps dest!: all_list_schedule split: if_splits)

lemma all_list_unblock: "thread_unblock st t = Inr st' \<Longrightarrow> all_list st' = all_list st \<and> running_thread st' = running_thread st"
  by (auto simp: thread_unblock_def intr_disable_def Let_def res_simps dest!: all_list_restore)

text \<open>What the operations that can switch threads or wake one leave alone.\<close>

lemma sema_up_keeps:
  "sema_up sg s = Inr sg' \<Longrightarrow> frames sg' = frames sg \<and> holder sg' = holder sg \<and> all_list (kn sg') = all_list (kn sg) \<and> cur sg' = cur sg"
  by (cases "waiters sg s") (auto simp: sema_up_def intr_disable_def res_simps dest!: all_list_unblock all_list_restore)

lemma sema_down_loop_keeps:
  "sema_down_loop sg s old = Inr sg' \<Longrightarrow> holder sg' = holder sg \<and> all_list (kn sg') = all_list (kn sg)
     \<and> frames sg' = (if sema_value (semas sg s) = 0 then frames sg else (frames sg)(cur sg := tl (frames sg (cur sg))))"
  by (cases "sema_value (semas sg s) = 0")
    (auto simp: sema_down_loop_def res_simps pop_def dest!: all_list_block all_list_restore)

lemma sys_yield_keeps:
  "sys_yield sg = Inr sg' \<Longrightarrow> holder sg' = holder sg \<and> all_list (kn sg') = all_list (kn sg)
     \<and> frames sg' = (frames sg)(cur sg := Set_level (level (kn sg)) # frames sg (cur sg))"
  by (auto simp: sys_yield_def intr_get_level_def res_simps dest!: all_list_yield)

lemma idle_loop_keeps:
  "idle_loop sg = Inr sg' \<Longrightarrow> holder sg' = holder sg \<and> all_list (kn sg') = all_list (kn sg)
     \<and> frames sg' = (frames sg)(cur sg := Enable # frames sg (cur sg))"
  by (auto simp: idle_loop_def intr_disable_def res_simps dest!: all_list_block)

lemma thread_tick_keeps: "thread_tick st = Inr st' \<Longrightarrow> all_list st' = all_list st \<and> running_thread st' = running_thread st"
  unfolding thread_tick_def intr_yield_on_return_def res_simps
  by (elim exE conjE) (simp add: Let_def ASSERT_def split: if_splits, (drule sym, simp)+)

lemma intr_handler_keeps:
  assumes r: "intr_handler sg vec_no (Some h) = Inr sg'" and vec: "vec_no \<ge> 0x20" "vec_no < 0x30"
    and h: "\<And>sg1 sg2. h sg1 = Inr sg2 \<Longrightarrow> frames sg2 = frames sg1 \<and> holder sg2 = holder sg1 \<and> all_list (kn sg2) = all_list (kn sg1)
       \<and> cur sg2 = cur sg1"
  obtains pre where "holder sg' = holder sg" and "all_list (kn sg') = all_list (kn sg)"
    and "frames sg' = (frames sg)(cur sg := pre @ frames sg (cur sg))" and "\<And>H fs. counts_on H (pre @ fs) = counts_on H fs"
proof -
  define sg0 where "sg0 = sg\<lparr>kn := (kn sg)\<lparr>level := INTR_OFF, in_external_intr := True, yield_on_return := False\<rparr>\<rparr>"
  define fin where "fin sg1 = (let sg2 = sg1\<lparr>kn := (kn sg1)\<lparr>in_external_intr := False\<rparr>\<rparr> in
     if yield_on_return (kn sg2) then sys_yield (push sg2 [Iret]) else Inr (sg2\<lparr>kn := (kn sg2)\<lparr>level := INTR_ON\<rparr>\<rparr>))" for sg1
  have "intr_handler sg vec_no (Some h) = ASSERT (\<not> in_external_intr (kn sg)) (bnd (h sg0) (\<lambda>sg1.
      ASSERT (level (kn sg1) = INTR_OFF) (ASSERT (in_external_intr (kn sg1)) (fin sg1))))"
    using vec by (simp add: intr_handler_def invoke_handler_def pic_end_of_interrupt_def intr_get_level_def intr_context_def ASSERT_def
        Let_def sg0_def fin_def)
  with r obtain sg1 where s1: "h sg0 = Inr sg1" and f: "fin sg1 = Inr sg'"
    by (auto simp: res_simps)
  define sg2 where sg2: "sg2 = sg1\<lparr>kn := (kn sg1)\<lparr>in_external_intr := False\<rparr>\<rparr>"
  have s2: "(if yield_on_return (kn sg2) then sys_yield (push sg2 [Iret]) else Inr (sg2\<lparr>kn := (kn sg2)\<lparr>level := INTR_ON\<rparr>\<rparr>)) = Inr sg'"
    using f by (simp only: fin_def Let_def sg2)
  have k: "frames sg2 = frames sg" "holder sg2 = holder sg" "all_list (kn sg2) = all_list (kn sg)" "cur sg2 = cur sg"
    using h [OF s1] by (simp_all add: sg2 sg0_def)
  show thesis
  proof (cases "yield_on_return (kn sg2)")
    case True
    then have "sys_yield (push sg2 [Iret]) = Inr sg'"
      using s2 by simp
    note y = sys_yield_keeps [OF this]
    show thesis
      by (rule that [of "[Set_level (level (kn sg2)), Iret]"]) (use y k in simp_all)
  next
    case False
    then have "sg' = sg2\<lparr>kn := (kn sg2)\<lparr>level := INTR_ON\<rparr>\<rparr>"
      using s2 by simp
    then show thesis
      by (intro that [of "[]"]) (use k in simp_all)
  qed
qed

section \<open>Every step keeps it\<close>

lemma acquire_held:
  assumes ok: "sys_ok sg" and h: "held_ok sg" and c: "counts_on (insert l (held sg (cur sg))) fs"
    and r: "lock_acquire (sg\<lparr>frames := (frames sg)(cur sg := fs)\<rparr>) l = Inr sg'"
  shows "held_ok sg'"
proof -
  have "sg' = sg\<lparr>frames := (frames sg)(cur sg := [Call_sema_down (Lock_sema l), Set_holder l] @ fs)\<rparr>"
    using r sys_ok_current [OF ok] by (simp add: lock_acquire_def lock_held_by_current_thread_def ASSERT_def push_def split: if_splits)
  then show ?thesis
    by (intro held_ok_same [OF h, where fs = "[Call_sema_down (Lock_sema l), Set_holder l] @ fs"]) (use c in simp_all)
qed

lemma release_held:
  assumes ok: "sys_ok sg" and h: "held_ok sg" and c: "counts_on (held sg (cur sg) - {l}) fs"
    and r: "lock_release (sg\<lparr>frames := (frames sg)(cur sg := fs)\<rparr>) l = Inr sg'"
  shows "held_ok sg'"
proof (rule held_okI [OF h])
  have e: "sg' = sg\<lparr>holder := (holder sg)(l := 0), frames := (frames sg)(cur sg := Call_sema_up (Lock_sema l) # fs)\<rparr>" "holder sg l = cur sg"
    using r sys_ok_current [OF ok] by (simp_all add: lock_release_def lock_held_by_current_thread_def ASSERT_def push_def split: if_splits)
  have "0 \<notin> set (all_list (kn sg))"
    using ok by (simp add: sys_ok_def sys_inv_def sched_inv_def)
  then show "touches sg sg' (Call_sema_up (Lock_sema l) # fs)"
    using e by (auto simp: touches_def held_def)
  have "held sg' (cur sg) = held sg (cur sg) - {l}"
    using cur_nonzero [OF ok] by (auto simp: held_def e(1))
  then show "counts_on (held sg' (cur sg)) (Call_sema_up (Lock_sema l) # fs)"
    using c by simp
qed

lemma set_holder_held:
  assumes ok: "sys_ok sg" and h: "held_ok sg" and top: "frames sg (cur sg) = Set_holder l # fs" and r: "resume sg = Inr sg'"
  shows "held_ok sg'"
proof (rule held_okI [OF h])
  note on = sys_ok_on [OF ok top, simplified]
  have so: "sched_ok (kn sg)" and fo: "frames_ok INTR_ON sg" and lk: "lock_total sg l = 1"
    using ok on by (simp_all add: sys_ok_def sys_inv_def locks_ok_def)
  have "1 \<le> tokens l (frames sg (cur sg))"
    using tokens_plain [OF on_plain [OF ok on(1)], of l] top by simp
  then have z: "holder sg l = 0"
    using lock_bounds(2) [OF fo so lk cur_in_all [OF so]] by simp
  have e: "sg' = sg\<lparr>holder := (holder sg)(l := cur sg), frames := (frames sg)(cur sg := fs)\<rparr>"
    using r top sys_ok_current [OF ok] by (simp add: resume_def pop_def)
  have "0 \<notin> set (all_list (kn sg))"
    using so by (simp add: sched_inv_def)
  then show "touches sg sg' fs"
    using z by (auto simp: touches_def held_def e)
  have "held sg' (cur sg) = insert l (held sg (cur sg))"
    by (auto simp: held_def e)
  then show "counts_on (held sg' (cur sg)) fs"
    using h top cur_in_all [OF so] by (auto simp: held_ok_def)
qed

lemma signal_held:
  assumes ok: "sys_ok sg" and h: "held_ok sg" and r: "cond_signal sg c l = Inr sg'"
  shows "held_ok sg'"
proof -
  define fs where "fs = (case cond_waiters sg c of [] \<Rightarrow> [] | t # _ \<Rightarrow> [Call_sema_up (Cond_sema t)]) @ frames sg (cur sg)"
  have "kn sg' = kn sg" "holder sg' = holder sg" "frames sg' = (frames sg)(cur sg := fs)"
    using r sys_ok_current [OF ok]
    by (auto simp: cond_signal_def lock_held_by_current_thread_def ASSERT_def fs_def split: if_splits list.splits)
  moreover have "counts_on (held sg (cur sg)) (frames sg (cur sg))"
    using ok h cur_in_all by (auto simp: held_ok_def sys_ok_def sys_inv_def)
  ultimately show ?thesis
    by (intro held_ok_same [OF h, where fs = fs]) (auto simp: fs_def split: list.split)
qed

lemma resume_held:
  assumes ok: "sys_ok sg" and h: "held_ok sg" and ne: "frames sg (cur sg) \<noteq> []" and r: "resume sg = Inr sg'"
  shows "held_ok sg'"
proof -
  obtain f fs where top: "frames sg (cur sg) = f # fs"
    using ne by (cases "frames sg (cur sg)") auto
  have pop: "pop sg = sg\<lparr>frames := (frames sg)(cur sg := fs)\<rparr>"
    by (simp add: pop_def top)
  have c: "counts_on (held sg (cur sg)) (f # fs)"
    using ok h top cur_in_all by (metis held_ok_def sys_ok_def sys_inv_def)
  note same = held_ok_same [OF h]
  show ?thesis
  proof (cases f)
    case (Call_sema_down s)
    then show ?thesis
      using r top pop c by (intro same [where fs = "In_sema_down s (level (kn sg)) # fs"])
        (auto simp: resume_def sema_down_def intr_disable_def intr_get_level_def ASSERT_def push_def split: if_splits)
  next
    case (In_sema_down s old)
    then have "sema_down_loop sg s old = Inr sg'"
      using r top by (simp add: resume_def)
    note k = sema_down_loop_keeps [OF this]
    show ?thesis
      by (rule same [where fs = "if sema_value (semas sg s) = 0 then frames sg (cur sg) else fs"])
        (use k top c In_sema_down in \<open>auto simp: fun_upd_idem\<close>)
  next
    case (Call_sema_up s)
    then have "sema_up (pop sg) s = Inr sg'"
      using r top by (simp add: resume_def)
    note k = sema_up_keeps [OF this]
    show ?thesis
      by (rule same [where fs = fs]) (use k pop c Call_sema_up in simp_all)
  next
    case (Set_holder l)
    then show ?thesis
      using set_holder_held ok h top r by simp
  next
    case (Call_lock_acquire l)
    then show ?thesis
      using acquire_held [OF ok h, of l fs sg'] r top pop c by (simp add: resume_def)
  next
    case (Call_lock_release l)
    then show ?thesis
      using release_held [OF ok h, of l fs sg'] r top pop c by (simp add: resume_def)
  next
    case (In_cond_broadcast x l)
    show ?thesis
    proof (cases "cond_waiters sg x = []")
      case True
      then show ?thesis
        using r top pop c In_cond_broadcast by (intro same [where fs = fs]) (auto simp: resume_def)
    next
      case False
      then show ?thesis
        using signal_held [OF ok h, of x l] r top In_cond_broadcast by (simp add: resume_def)
    qed
  next
    case (Set_level i)
    then obtain st where "restore_level (kn sg) i = Inr st" and e: "sg' = pop (sg\<lparr>kn := st\<rparr>)"
      using r top by (auto simp: resume_def res_simps)
    then show ?thesis
      using all_list_restore [of "kn sg" i st] top c Set_level by (intro same [where fs = fs]) simp_all
  next
    case Iret
    then show ?thesis
      using r top c by (intro same [where fs = fs]) (auto simp: resume_def)
  next
    case Enable
    then show ?thesis
      using r top c by (intro same [where fs = fs]) (auto simp: resume_def intr_enable_def res_simps)
  qed
qed

lemma call_held:
  assumes ok: "sys_ok sg" and h: "held_ok sg" and fr: "frames sg (cur sg) = []" and on: "level (kn sg) = INTR_ON"
    and law: "lawful sg (Call c)" and r: "do_call c sg = Inr sg'"
  shows "held_ok sg'"
proof -
  have self: "sg\<lparr>frames := (frames sg)(cur sg := [])\<rparr> = sg"
    using fr by (simp add: fun_upd_idem)
  note same = held_ok_same [OF h]
  show ?thesis
  proof (cases c)
    case (Down a)
    then show ?thesis
      using r fr by (intro same [where fs = "[In_sema_down (Sema a) (level (kn sg))]"])
        (auto simp: sema_down_def intr_disable_def intr_get_level_def ASSERT_def split: if_splits)
  next
    case (Up a)
    then show ?thesis
      using r fr sema_up_keeps [of sg "Sema a" sg'] by (intro same [where fs = "[]"]) (simp_all add: fun_upd_idem)
  next
    case (Try_down a)
    then obtain b where "sema_try_down sg (Sema a) = Inr (sg', b)"
      using r by (auto simp: res_simps)
    note f = try_down_facts [OF ok on this]
    show ?thesis
      by (rule same [where fs = "[]"]) (use f fr in \<open>simp_all add: fun_upd_idem\<close>)
  next
    case (Acquire l)
    then show ?thesis
      using acquire_held [OF ok h, of l "[]" sg'] r self by simp
  next
    case (Try_acquire l)
    then obtain sg1 b where t: "sema_try_down sg (Lock_sema l) = Inr (sg1, b)" and sg': "sg' = (if b then push sg1 [Set_holder l] else sg1)"
      using r by (auto simp: lock_try_acquire_def res_simps)
    note f = try_down_facts [OF ok on t]
    show ?thesis
      by (rule same [where fs = "if b then [Set_holder l] else []"]) (use f fr in \<open>auto simp: sg' fun_upd_idem\<close>)
  next
    case (Release l)
    then show ?thesis
      using release_held [OF ok h, of l "[]" sg'] r self by simp
  next
    case (Wait x l)
    then show ?thesis
      using r fr law sys_ok_current [OF ok]
      by (intro same [where fs = "[Call_lock_release l, Call_sema_down (Cond_sema (cur sg)), Call_lock_acquire l]"])
        (auto simp: cond_wait_def lock_held_by_current_thread_def ASSERT_def sema_init_def Let_def split: if_splits)
  next
    case (Signal x l)
    then show ?thesis
      using signal_held [OF ok h] r by simp
  next
    case (Broadcast x l)
    then show ?thesis
      using r fr law by (intro same [where fs = "[In_cond_broadcast x l]"]) (auto simp: cond_broadcast_def)
  next
    case Yield
    then show ?thesis
      using sys_yield_keeps [of sg sg'] r fr by (intro same [where fs = "[Set_level (level (kn sg))]"]) simp_all
  qed
qed

lemma step_held: "step sg e sg' \<Longrightarrow> sys_ok sg \<Longrightarrow> held_ok sg \<Longrightarrow> lawful sg e \<Longrightarrow> held_ok sg'"
proof (induction rule: step.induct)
  case (call sg c sg')
  then show ?case
    using call_held [of sg c sg'] by simp
next
  case (continue sg sg')
  then show ?case
    using resume_held [of sg sg'] by simp
next
  case (timer sg sg')
  have c: "counts_on (held sg (cur sg)) (frames sg (cur sg))"
    using timer.prems cur_in_all by (auto simp: held_ok_def sys_ok_def sys_inv_def)
  show ?case
  proof (rule intr_handler_keeps [OF timer.hyps(2)])
    show "frames sg2 = frames sg1 \<and> holder sg2 = holder sg1 \<and> all_list (kn sg2) = all_list (kn sg1) \<and> cur sg2 = cur sg1"
      if "timer_interrupt sg1 = Inr sg2" for sg1 sg2
      using that thread_tick_keeps by (auto simp: timer_interrupt_def res_simps)
  qed (use held_ok_same [OF timer.prems(2)] c in auto)
next
  case (device sg vec_no a sg')
  have c: "counts_on (held sg (cur sg)) (frames sg (cur sg))"
    using device.prems cur_in_all by (auto simp: held_ok_def sys_ok_def sys_inv_def)
  show ?case
    by (rule intr_handler_keeps [OF device.hyps(4,2,3)]) (use held_ok_same [OF device.prems(2)] c sema_up_keeps in auto)
next
  case (idle sg sg')
  then show ?case
    using idle_loop_keeps [of sg sg'] by (intro held_ok_same [of sg sg' "[Enable]"]) auto
qed

lemma start_held: "sys_start sg \<Longrightarrow> held_ok sg"
  by (auto simp: sys_start_def held_ok_def)

lemma lawful_runs_ok: "lawful_runs sg0 es sg \<Longrightarrow> sys_start sg0 \<Longrightarrow> sys_ok sg \<and> held_ok sg"
  by (induction rule: lawful_runs.induct) (use start_ok start_held step_ok step_held in blast)+

section \<open>Progress\<close>

lemma call_progress:
  assumes ok: "sys_ok sg" and on: "level (kn sg) = INTR_ON" and ni: "cur sg \<noteq> idle_thread (kn sg)" and law: "lawful sg (Call c)"
  shows "\<exists>sg'. do_call c sg = Inr sg'"
proof -
  have inv: "sys_inv INTR_ON sg" "locks_ok sg" and ext: "\<not> in_external_intr (kn sg)"
    using ok on by (simp_all add: sys_ok_def)
  note c = sys_ok_current [OF ok]
  have td: "\<exists>r. sema_try_down sg s = Inr r" for s
    using ext by (simp add: sema_try_down_def intr_disable_def restore_level_eq Let_def)
  show ?thesis
  proof (cases c)
    case (Up a)
    then show ?thesis
      using sema_up_effect [OF inv(1), of "Sema a"] ext by (metis do_call.simps(2))
  next
    case Yield
    then show ?thesis
      using yield_inv [OF inv ext, of "[Set_level INTR_ON]"] ni on by (auto simp: sys_yield_def intr_get_level_def)
  next
    case (Try_acquire l)
    then show ?thesis
      using td [of "Lock_sema l"] c law by (auto simp: lock_try_acquire_def lock_held_by_current_thread_def ASSERT_def)
  next
    case (Try_down a)
    then show ?thesis
      using td [of "Sema a"] by auto
  qed (use c law ext in \<open>simp_all add: sema_down_def lock_acquire_def lock_release_def lock_held_by_current_thread_def cond_wait_def
      cond_signal_def intr_context_def intr_disable_def ASSERT_def Let_def\<close>)
qed

lemma resume_progress:
  assumes ok: "sys_ok sg" and h: "held_ok sg" and ne: "frames sg (cur sg) \<noteq> []"
  shows "\<exists>sg'. resume sg = Inr sg'"
proof -
  obtain f fs where top: "frames sg (cur sg) = f # fs"
    using ne by (cases "frames sg (cur sg)") auto
  have ext: "\<not> in_external_intr (kn sg)"
    using ok by (simp add: sys_ok_def)
  have pop: "pop sg = sg\<lparr>frames := (frames sg)(cur sg := fs)\<rparr>"
    by (simp add: pop_def top)
  have c: "counts_on (held sg (cur sg)) (f # fs)"
    using ok h top cur_in_all by (metis held_ok_def sys_ok_def sys_inv_def)
  note cu = sys_ok_current [OF ok]
  show ?thesis
  proof (cases f)
    case (In_sema_down s old)
    then show ?thesis
      using down_block_inv [OF ok top [unfolded In_sema_down]] down_take_inv [OF ok top [unfolded In_sema_down]] top
      by (cases "sema_value (semas sg s) = 0") (auto simp: resume_def)
  next
    case (Call_sema_up s)
    note on = sys_ok_on [OF ok top, unfolded Call_sema_up, simplified]
    have "sys_inv INTR_ON (pop sg)"
    proof (rule local_inv)
      show "sys_inv INTR_ON sg"
        using ok on by (simp add: sys_ok_def)
    qed (use ok on pop plain_not_down [OF on_plain [OF ok on(1)]] in \<open>auto simp: same_sched_def sys_ok_def sys_inv_def\<close>)
    then have "\<exists>sg'. sema_up (pop sg) s = Inr sg'"
      by (rule sema_up_effect [where s = s]) (use ext in auto)
    then show ?thesis
      using Call_sema_up top by (simp add: resume_def)
  qed (use c cu ext top pop in \<open>simp_all add: resume_def sema_down_def lock_acquire_def lock_release_def lock_held_by_current_thread_def cond_signal_def
      restore_level_eq intr_enable_def intr_context_def intr_disable_def ASSERT_def\<close>)
qed

lemma progress:
  assumes ok: "sys_ok sg" and h: "held_ok sg" and en: "enabled sg e" and law: "lawful sg e"
  shows "\<exists>sg'. step sg e sg'"
proof (cases e)
  case (Call c)
  then show ?thesis
    using call_progress [OF ok, of c] en law by (auto intro: step.call)
next
  case Continue
  then show ?thesis
    using resume_progress [OF ok h] en by (auto intro: step.continue)
next
  case Timer
  then show ?thesis
    using timer_step [OF ok] en by (auto intro: step.timer)
next
  case (Device_up a)
  then show ?thesis
    using device_step [OF ok, of "0x2e" a] step.device [of sg "0x2e" a] en by auto
next
  case Idle
  then show ?thesis
    using idle_inv [OF ok] en by (auto intro: step.idle)
qed

lemma some_enabled: "sys_ok sg \<Longrightarrow> \<exists>e. enabled sg e \<and> lawful sg e"
  using no_stuck [of sg] by (cases "level (kn sg)") (auto elim!: step.cases intro: exI [of _ Timer] exI [of _ Continue])

text \<open>C4: No assertion of the scheduler, the semaphores, locks and condition variables or the interrupt code fails. In every state a lawful run
  reaches from the start, something can happen, and whatever happens next is carried out without a failed assertion: a timer
  interrupt or a device interrupt that wakes a thread, whenever interrupts are on; the next action of a thread inside a
  primitive, with interrupts on or off; a round of the idle loop; and each call of a primitive that keeps the rules of its
  comment, so that for instance the thread \<^verbatim>\<open>sema_up\<close> hands to \<^verbatim>\<open>thread_unblock\<close> is always blocked, and the lock that \<^verbatim>\<open>cond_wait\<close>
  releases and \<^verbatim>\<open>cond_broadcast\<close> signals under is still held. Thread creation and exit and \<^verbatim>\<open>process_wait\<close>, which block and unblock
  threads without a semaphore, are not among the steps.\<close>

theorem processor_never_stuck:
  assumes "sys_start sg0" and "lawful_runs sg0 es sg"
  shows "(\<exists>e. enabled sg e \<and> lawful sg e) \<and> (\<forall>e. enabled sg e \<longrightarrow> lawful sg e \<longrightarrow> (\<exists>sg'. step sg e sg'))"
  using lawful_runs_ok [OF assms(2,1)] some_enabled progress by blast

theorem processor_never_stuck_witness:
  "\<exists>sg1 sg2 sg3. lawful_runs demo_sys [Call (Down 5)] sg1 \<and> step sg1 Continue sg2 \<and> step demo_sys (Call (Acquire 7)) sg3"
proof -
  have c: "cur demo_sys = 0xc0001000"
    using demo_running by (simp add: demo_sys_def)
  have d: "enabled demo_sys (Call x)" "holder demo_sys l = 0" for x l
    using c by (simp_all add: demo_sys_def demo_kern_def)
  obtain sg1 where s1: "step demo_sys (Call (Down 5)) sg1"
    using processor_never_stuck [OF demo_start lawful_runs.start] d by (metis lawful.simps(7))
  have r: "lawful_runs demo_sys [Call (Down 5)] sg1"
    using lawful_runs.more [OF lawful_runs.start _ s1] by simp
  have "frames sg1 (cur sg1) \<noteq> []"
    using s1 by cases (auto simp: sema_down_def intr_disable_def ASSERT_def split: if_splits)
  then have "\<exists>sg2. step sg1 Continue sg2"
    using processor_never_stuck [OF demo_start r] by (metis enabled.simps(2) lawful.simps)
  moreover have "\<exists>sg3. step demo_sys (Call (Acquire 7)) sg3"
    using processor_never_stuck [OF demo_start lawful_runs.start] d(1) [of "Acquire 7"] d(2) [of 7] c by simp
  ultimately show ?thesis
    using r by blast
qed

end
