(* ===== verification/Descriptors.thy ===== *)
theory Descriptors
  imports Prelude
begin

text \<open>
  The descriptors the processor reads: segment descriptors of \<^verbatim>\<open>userprog/gdt.c\<close> and interrupt gates of
  \<^verbatim>\<open>threads/interrupt.c\<close>. The functions \<open>desc_base\<close> to \<open>gate_type\<close> read a descriptor the
  way the processor manual lays it out; the lemmas show that the processor sees what the kernel asked for.
\<close>

section \<open>Segment descriptors\<close>

definition SEL_KCSEG :: u32 where
  "SEL_KCSEG = 0x08"

definition CLS_SYSTEM :: u32 where
  "CLS_SYSTEM = 0"

definition CLS_CODE_DATA :: u32 where
  "CLS_CODE_DATA = 1"

definition GRAN_BYTE :: u32 where
  "GRAN_BYTE = 0"

definition GRAN_PAGE :: u32 where
  "GRAN_PAGE = 1"

definition make_seg_desc :: "u32 \<Rightarrow> u32 \<Rightarrow> u32 \<Rightarrow> u32 \<Rightarrow> u32 \<Rightarrow> u32 \<Rightarrow> u64 res" where
  "make_seg_desc base limit cls type dpl granularity =
     ASSERT (limit \<le> 0xfffff) (ASSERT (cls = CLS_SYSTEM \<or> cls = CLS_CODE_DATA)
       (ASSERT (0 \<le>s type \<and> type \<le>s 15) (ASSERT (0 \<le>s dpl \<and> dpl \<le>s 3)
       (ASSERT (granularity = GRAN_BYTE \<or> granularity = GRAN_PAGE)
         (let e0 = (limit AND 0xffff) OR push_bit 16 base;
              e1 = (drop_bit 16 base AND 0xff) OR push_bit 8 type OR push_bit 12 cls OR push_bit 13 dpl OR push_bit 15 1
                   OR (limit AND 0xf0000) OR push_bit 22 1 OR push_bit 23 granularity OR (base AND 0xff000000)
          in Inr (ucast e0 OR push_bit 32 (ucast e1)))))))"

definition make_code_desc :: "u32 \<Rightarrow> u64 res" where
  "make_code_desc dpl = make_seg_desc 0 0xfffff CLS_CODE_DATA 10 dpl GRAN_PAGE"

definition make_data_desc :: "u32 \<Rightarrow> u64 res" where
  "make_data_desc dpl = make_seg_desc 0 0xfffff CLS_CODE_DATA 2 dpl GRAN_PAGE"

definition make_tss_desc :: "addr \<Rightarrow> u64 res" where
  "make_tss_desc laddr = make_seg_desc laddr 0x67 CLS_SYSTEM 9 0 GRAN_BYTE"

definition make_gdtr_operand :: "u16 \<Rightarrow> addr \<Rightarrow> u64" where
  "make_gdtr_operand limit base = ucast limit OR push_bit 16 (ucast base)"

text \<open>\<^verbatim>\<open>gdt_init\<close>, with the address of the task-state segment. The table has six entries, by selector divided by 8.\<close>

definition gdt_init :: "addr \<Rightarrow> u64 list res" where
  "gdt_init tss =
     bnd (make_code_desc 0) (\<lambda>kc. bnd (make_data_desc 0) (\<lambda>kd. bnd (make_code_desc 3) (\<lambda>uc. bnd (make_data_desc 3) (\<lambda>ud.
     ASSERT (tss \<noteq> 0) (bnd (make_tss_desc tss) (\<lambda>ts. Inr [0, kc, kd, uc, ud, ts]))))))"

text \<open>Bits 15:0, 39:16 and so on of a segment descriptor.\<close>

definition desc_base :: "u64 \<Rightarrow> u32" where
  "desc_base d = ucast (take_bit 24 (drop_bit 16 d)) OR push_bit 24 (ucast (take_bit 8 (drop_bit 56 d)))"

definition desc_limit :: "u64 \<Rightarrow> u32" where
  "desc_limit d = ucast (take_bit 16 d) OR push_bit 16 (ucast (take_bit 4 (drop_bit 48 d)))"

definition desc_type :: "u64 \<Rightarrow> u32" where
  "desc_type d = ucast (take_bit 4 (drop_bit 40 d))"

definition desc_class :: "u64 \<Rightarrow> u32" where
  "desc_class d = ucast (take_bit 1 (drop_bit 44 d))"

definition desc_dpl :: "u64 \<Rightarrow> u32" where
  "desc_dpl d = ucast (take_bit 2 (drop_bit 45 d))"

definition desc_present :: "u64 \<Rightarrow> bool" where
  "desc_present d = bit d 47"

definition desc_gran :: "u64 \<Rightarrow> u32" where
  "desc_gran d = ucast (take_bit 1 (drop_bit 55 d))"

section \<open>Interrupt gates\<close>

definition make_gate :: "addr \<Rightarrow> u32 \<Rightarrow> u32 \<Rightarrow> u64 res" where
  "make_gate function_addr dpl type =
     ASSERT (function_addr \<noteq> 0) (ASSERT (0 \<le>s dpl \<and> dpl \<le>s 3) (ASSERT (0 \<le>s type \<and> type \<le>s 15)
       (let e0 = (function_addr AND 0xffff) OR push_bit 16 SEL_KCSEG;
            e1 = (function_addr AND 0xffff0000) OR push_bit 15 1 OR push_bit 13 dpl OR push_bit 12 0 OR push_bit 8 type
        in Inr (ucast e0 OR push_bit 32 (ucast e1)))))"

definition make_intr_gate :: "addr \<Rightarrow> u32 \<Rightarrow> u64 res" where
  "make_intr_gate function_addr dpl = make_gate function_addr dpl 14"

definition make_trap_gate :: "addr \<Rightarrow> u32 \<Rightarrow> u64 res" where
  "make_trap_gate function_addr dpl = make_gate function_addr dpl 15"

definition make_idtr_operand :: "u16 \<Rightarrow> addr \<Rightarrow> u64" where
  "make_idtr_operand limit base = ucast limit OR push_bit 16 (ucast base)"

definition gate_offset :: "u64 \<Rightarrow> u32" where
  "gate_offset g = ucast (take_bit 16 g) OR push_bit 16 (ucast (take_bit 16 (drop_bit 48 g)))"

definition gate_selector :: "u64 \<Rightarrow> u32" where
  "gate_selector g = ucast (take_bit 16 (drop_bit 16 g))"

definition gate_type :: "u64 \<Rightarrow> u32" where
  "gate_type g = ucast (take_bit 5 (drop_bit 40 g))"

section \<open>Reading back\<close>

lemma bit_small: "unat x < 2 ^ k \<Longrightarrow> bit x n \<Longrightarrow> n < k" for x :: u32
proof -
  assume "unat x < 2 ^ k" and "bit x n"
  then have "bit (take_bit k (unat x)) n"
    by (simp add: take_bit_nat_eq_self bit_unsigned_iff)
  then show "n < k"
    by (simp add: bit_take_bit_iff)
qed

lemma nonneg_unat: "unat x = nat (sint x)" if "0 \<le>s x" for x :: u32
proof -
  have p: "\<not> bit (uint x) 31" and s: "sint x = take_bit 31 (uint x)"
    using that by (simp_all add: word_sle_eq sint_uint signed_take_bit_eq_if_positive)
  have "take_bit 31 (uint x) = take_bit 32 (uint x)"
    using take_bit_Suc_from_most [of 31 "uint x"] p by simp
  also have "\<dots> = uint x"
    using uint_bounded [of x] by (intro take_bit_int_eq_self) simp_all
  finally have "sint x = uint x"
    using s by simp
  then show ?thesis
    by (simp only: unat_eq_nat_uint)
qed

lemma masks: "(0xffff :: u32) = mask 16" "(0xff :: u32) = mask 8" "(0xf0000 :: u32) = push_bit 16 (mask 4)"
  "(0xff000000 :: u32) = push_bit 24 (mask 8)" "(0xffff0000 :: u32) = push_bit 16 (mask 16)"
  by (simp_all add: mask_eq_exp_minus_1 push_bit_eq_mult)

lemma field_bits:
  fixes x :: u32
  assumes "n < 32"
  shows "bit (drop_bit 16 x AND mask 8) n \<longleftrightarrow> n < 8 \<and> bit x (n + 16)"
    and "bit (push_bit k x) n \<longleftrightarrow> k \<le> n \<and> bit x (n - k)"
    and "bit (push_bit k (1 :: u32)) n \<longleftrightarrow> n = k"
    and "bit (x AND push_bit 16 (mask 4)) n \<longleftrightarrow> 16 \<le> n \<and> n < 20 \<and> bit x n"
    and "bit (x AND push_bit 24 (mask 8)) n \<longleftrightarrow> 24 \<le> n \<and> bit x n"
  using assms by (auto simp: bit_simps add.commute)

lemma seg_fields:
  fixes base limit type cls dpl gran :: u32
  assumes "unat limit < 2 ^ 20" "unat type < 2 ^ 4" "unat cls < 2 ^ 1" "unat dpl < 2 ^ 2" "unat gran < 2 ^ 1"
  defines "e0 \<equiv> (limit AND 0xffff) OR push_bit 16 base"
  defines "e1 \<equiv> (drop_bit 16 base AND 0xff) OR push_bit 8 type OR push_bit 12 cls OR push_bit 13 dpl OR push_bit 15 1
                   OR (limit AND 0xf0000) OR push_bit 22 1 OR push_bit 23 gran OR (base AND 0xff000000)"
  defines "d \<equiv> ucast e0 OR push_bit 32 (ucast e1) :: u64"
  shows "desc_type d = type" "desc_base d = base" "desc_limit d = limit" "desc_class d = cls" "desc_dpl d = dpl" "desc_gran d = gran" "desc_present d"
proof -
  note small = bit_small [OF assms(1)] bit_small [OF assms(2)] bit_small [OF assms(3)] bit_small [OF assms(4)] bit_small [OF assms(5)]
  note defs = d_def e1_def e0_def masks
  have lo: "bit d n \<longleftrightarrow> (n < 16 \<and> bit limit n) \<or> (16 \<le> n \<and> bit base (n - 16))" if "n < 32" for n
    using that by (auto simp: defs bit_simps)
  have hi: "bit d (32 + n) \<longleftrightarrow> bit e1 n" for n
    by (auto simp: d_def bit_simps dest: bit_imp_le_length)
  have e1: "bit e1 n \<longleftrightarrow> (n < 8 \<and> bit base (n + 16)) \<or> (8 \<le> n \<and> bit type (n - 8)) \<or> (12 \<le> n \<and> bit cls (n - 12)) \<or> (13 \<le> n \<and> bit dpl (n - 13))
      \<or> n = 15 \<or> (16 \<le> n \<and> n < 20 \<and> bit limit n) \<or> n = 22 \<or> (23 \<le> n \<and> bit gran (n - 23)) \<or> (24 \<le> n \<and> bit base n)" if "n < 32" for n
    unfolding e1_def masks bit_or_iff field_bits(3) [OF that] unfolding field_bits [OF that] by (rule refl)
  show "desc_present d"
    using hi [of 15] e1 [of 15] by (simp add: desc_present_def)
  have "bit d (40 + n) \<longleftrightarrow> bit type n" if "n < 4" for n
    using hi [of "8 + n"] e1 [of "8 + n"] that by (auto dest: small)
  then show "desc_type d = type"
    by (intro bit_word_eqI) (auto simp: desc_type_def bit_simps add.commute dest: small)
  have "bit d (44 + n) \<longleftrightarrow> bit cls n" if "n < 1" for n
    using hi [of "12 + n"] e1 [of "12 + n"] that by (auto dest: small)
  then show "desc_class d = cls"
    using bit_iff_odd_drop_bit [of d 44] by (intro bit_word_eqI) (auto simp: desc_class_def bit_simps add.commute dest: small)
  have "bit d (45 + n) \<longleftrightarrow> bit dpl n" if "n < 2" for n
    using hi [of "13 + n"] e1 [of "13 + n"] that by (auto dest: small)
  then show "desc_dpl d = dpl"
    by (intro bit_word_eqI) (auto simp: desc_dpl_def bit_simps add.commute dest: small)
  have "bit d (55 + n) \<longleftrightarrow> bit gran n" if "n < 1" for n
    using hi [of "23 + n"] e1 [of "23 + n"] that by (auto dest: small)
  then show "desc_gran d = gran"
    using bit_iff_odd_drop_bit [of d 55] by (intro bit_word_eqI) (auto simp: desc_gran_def bit_simps add.commute dest: small)
  have "bit d n \<longleftrightarrow> bit limit n" if "n < 16" for n
    using lo [of n] that by auto
  moreover have "bit d (32 + n) \<longleftrightarrow> bit limit n" if "16 \<le> n" "n < 20" for n
    using hi [of n] e1 [of n] that by (auto dest: small)
  moreover have "48 + (n - 16) = 32 + n" if "16 \<le> n" for n :: nat
    using that by simp
  ultimately have "bit (desc_limit d) n \<longleftrightarrow> bit limit n" if "n < 32" for n
    using that small(1) [of n] by (cases "n < 16"; cases "n < 20") (auto simp: desc_limit_def bit_simps)
  then show "desc_limit d = limit"
    by (intro bit_word_eqI) simp
  have b1: "bit d (16 + n) \<longleftrightarrow> bit base n" if "n < 16" for n
    using lo [of "16 + n"] that by auto
  have b0: "bit d (32 + n) \<longleftrightarrow> bit base (16 + n)" if "n < 8" for n
    unfolding hi using e1 [of n] that by (simp add: add.commute)
  have "32 + (n - 16) = 16 + n" if "16 \<le> n" for n :: nat
    using that by simp
  then have b2: "bit d (16 + n) \<longleftrightarrow> bit base n" if "16 \<le> n" "n < 24" for n
    using b0 [of "n - 16"] that by auto
  have "bit e1 n \<longleftrightarrow> bit base n" if "24 \<le> n" "n < 32" for n
    using e1 [of n] small(2) [of "n - 8"] small(3) [of "n - 12"] small(4) [of "n - 13"] small(5) [of "n - 23"] that by auto
  then have b3: "bit d (32 + n) \<longleftrightarrow> bit base n" if "24 \<le> n" "n < 32" for n
    using that by (simp add: hi)
  have "56 + (n - 24) = 32 + n" if "24 \<le> n" for n :: nat
    using that by simp
  then have "bit (desc_base d) n \<longleftrightarrow> bit base n" if "n < 32" for n
    using that b1 [of n] b2 [of n] b3 [of n] by (cases "n < 16"; cases "n < 24") (auto simp: desc_base_def bit_simps)
  then show "desc_base d = base"
    by (intro bit_word_eqI) simp
qed

lemma gate_fields:
  fixes f dpl type :: u32
  assumes "unat dpl < 2 ^ 2" "unat type < 2 ^ 4"
  defines "e0 \<equiv> (f AND 0xffff) OR push_bit 16 SEL_KCSEG"
  defines "e1 \<equiv> (f AND 0xffff0000) OR push_bit 15 1 OR push_bit 13 dpl OR push_bit 12 0 OR push_bit 8 type"
  defines "g \<equiv> ucast e0 OR push_bit 32 (ucast e1) :: u64"
  shows "gate_offset g = f" "gate_selector g = SEL_KCSEG" "gate_type g = type" "desc_dpl g = dpl" "desc_present g"
proof -
  note small = bit_small [OF assms(1)] bit_small [OF assms(2)]
  have sel: "bit SEL_KCSEG n \<longleftrightarrow> n = 3" for n
    using bit_push_bit_iff [of 3 "1 :: u32" n] by (auto simp: SEL_KCSEG_def push_bit_eq_mult bit_1_iff)
  have lo: "bit g n \<longleftrightarrow> (n < 16 \<and> bit f n) \<or> n = 19" if "n < 32" for n
    using that by (auto simp: g_def e0_def e1_def masks bit_simps sel)
  have hi: "bit g (32 + n) \<longleftrightarrow> bit e1 n" for n
    by (auto simp: g_def bit_simps dest: bit_imp_le_length)
  have "bit (f AND push_bit 16 (mask 16)) n \<longleftrightarrow> 16 \<le> n \<and> bit f n" if "n < 32" for n
    using that by (auto simp: bit_simps)
  then have e1: "bit e1 n \<longleftrightarrow> (16 \<le> n \<and> bit f n) \<or> n = 15 \<or> (13 \<le> n \<and> bit dpl (n - 13)) \<or> (8 \<le> n \<and> bit type (n - 8))" if "n < 32" for n
    using that by (simp add: e1_def masks bit_or_iff field_bits(3) [OF that] del: push_bit_of_1) (simp add: field_bits [OF that])
  show "desc_present g"
    using hi [of 15] e1 [of 15] by (simp add: desc_present_def)
  have "bit g (40 + n) \<longleftrightarrow> bit type n" if "n < 5" for n
    using hi [of "8 + n"] e1 [of "8 + n"] that by (auto dest: small)
  then have "bit (gate_type g) n \<longleftrightarrow> bit type n" if "n < 32" for n
    using that small(2) [of n] by (cases "n < 5") (auto simp: gate_type_def bit_simps add.commute)
  then show "gate_type g = type"
    by (intro bit_word_eqI) simp
  have "bit g (45 + n) \<longleftrightarrow> bit dpl n" if "n < 2" for n
    using hi [of "13 + n"] e1 [of "13 + n"] that by (auto dest: small)
  then show "desc_dpl g = dpl"
    by (intro bit_word_eqI) (auto simp: desc_dpl_def bit_simps add.commute dest: small)
  have "bit g (16 + n) \<longleftrightarrow> n = 3" if "n < 16" for n
    using lo [of "16 + n"] that by auto
  then have "bit (gate_selector g) n \<longleftrightarrow> bit SEL_KCSEG n" if "n < 32" for n
    using that by (cases "n < 16") (simp_all add: gate_selector_def bit_simps sel)
  then show "gate_selector g = SEL_KCSEG"
    by (intro bit_word_eqI) simp
  have f1: "bit g n \<longleftrightarrow> bit f n" if "n < 16" for n
    using lo [of n] that by auto
  have "bit e1 n \<longleftrightarrow> bit f n" if "16 \<le> n" "n < 32" for n
    using e1 [of n] small(1) [of "n - 13"] small(2) [of "n - 8"] that by auto
  then have f2: "bit g (32 + n) \<longleftrightarrow> bit f n" if "16 \<le> n" "n < 32" for n
    using that by (simp add: hi)
  have "48 + (n - 16) = 32 + n" if "16 \<le> n" for n :: nat
    using that by simp
  then have "bit (gate_offset g) n \<longleftrightarrow> bit f n" if "n < 32" for n
    using that f1 [of n] f2 [of n] by (cases "n < 16") (auto simp: gate_offset_def bit_simps)
  then show "gate_offset g = f"
    by (intro bit_word_eqI) simp
qed

section \<open>Correctness\<close>

lemma dpl_small: "0 \<le>s dpl \<Longrightarrow> dpl \<le>s 3 \<Longrightarrow> unat dpl < 4" for dpl :: u32
  by (simp add: nonneg_unat word_sle_eq)

lemma type_small: "0 \<le>s type \<Longrightarrow> type \<le>s 15 \<Longrightarrow> unat type < 16" for type :: u32
  by (simp add: nonneg_unat word_sle_eq)

lemma make_seg_desc_fields:
  assumes "make_seg_desc base limit cls type dpl gran = Inr d"
  shows "desc_base d = base" "desc_limit d = limit" "desc_class d = cls" "desc_type d = type" "desc_dpl d = dpl" "desc_gran d = gran"
    "desc_present d"
proof -
  have a: "limit \<le> 0xfffff" "cls \<le> 1" "0 \<le>s type" "type \<le>s 15" "0 \<le>s dpl" "dpl \<le>s 3" "gran \<le> 1"
    using assms by (auto simp: make_seg_desc_def ASSERT_def CLS_SYSTEM_def CLS_CODE_DATA_def GRAN_BYTE_def GRAN_PAGE_def split: if_splits)
  have "unat limit < 2 ^ 20" "unat type < 2 ^ 4" "unat cls < 2 ^ 1" "unat dpl < 2 ^ 2" "unat gran < 2 ^ 1"
    using a dpl_small [of dpl] type_small [of type] by (simp_all add: word_le_nat_alt)
  note f = seg_fields [OF this, of base]
  show "desc_base d = base" "desc_limit d = limit" "desc_class d = cls" "desc_type d = type" "desc_dpl d = dpl" "desc_gran d = gran"
    "desc_present d"
    using f assms by (auto simp: make_seg_desc_def ASSERT_def Let_def split: if_splits)
qed

lemma make_gate_fields:
  assumes "make_gate f dpl type = Inr g"
  shows "gate_offset g = f" "gate_selector g = SEL_KCSEG" "gate_type g = type" "desc_dpl g = dpl" "desc_present g"
proof -
  have "0 \<le>s type" "type \<le>s 15" "0 \<le>s dpl" "dpl \<le>s 3"
    using assms by (auto simp: make_gate_def ASSERT_def split: if_splits)
  then have "unat dpl < 2 ^ 2" "unat type < 2 ^ 4"
    using dpl_small [of dpl] type_small [of type] by simp_all
  note f = gate_fields [OF this, of f]
  show "gate_offset g = f" "gate_selector g = SEL_KCSEG" "gate_type g = type" "desc_dpl g = dpl" "desc_present g"
    using f assms by (auto simp: make_gate_def ASSERT_def Let_def split: if_splits)
qed

text \<open>The table of \<^verbatim>\<open>gdt_init\<close> is built without a failed assertion; user segments have privilege level 3.\<close>

lemma seg_asserts: "0 \<le>s (2 :: u32)" "(2 :: u32) \<le>s 15" "0 \<le>s (9 :: u32)" "(9 :: u32) \<le>s 15" "0 \<le>s (10 :: u32)" "(10 :: u32) \<le>s 15"
  "0 \<le>s (3 :: u32)" "0 \<le>s (14 :: u32)" "(14 :: u32) \<le>s 15" "(0 :: u32) \<le>s 3"
  by (simp_all add: word_sle_eq)

lemma seg_desc_ok:
  "dpl = 0 \<or> dpl = 3 \<Longrightarrow> \<exists>d. make_code_desc dpl = Inr d" "dpl = 0 \<or> dpl = 3 \<Longrightarrow> \<exists>d. make_data_desc dpl = Inr d"
  "\<exists>d. make_tss_desc a = Inr d" "f \<noteq> 0 \<Longrightarrow> \<exists>g. make_intr_gate f 3 = Inr g"
  by (auto simp: make_code_desc_def make_data_desc_def make_tss_desc_def make_seg_desc_def make_intr_gate_def make_gate_def ASSERT_def Let_def
      CLS_SYSTEM_def CLS_CODE_DATA_def GRAN_BYTE_def GRAN_PAGE_def seg_asserts)

lemma gdt_init_ok:
  assumes "tss \<noteq> 0"
  shows "\<exists>kc kd uc ud ts. gdt_init tss = Inr [0, kc, kd, uc, ud, ts]
     \<and> desc_dpl kc = 0 \<and> desc_dpl kd = 0 \<and> desc_dpl uc = 3 \<and> desc_dpl ud = 3 \<and> desc_base ts = tss"
proof -
  obtain kc kd uc ud ts where d: "make_code_desc 0 = Inr kc" "make_data_desc 0 = Inr kd" "make_code_desc 3 = Inr uc" "make_data_desc 3 = Inr ud"
    "make_tss_desc tss = Inr ts"
    using seg_desc_ok(1,2) [of 0] seg_desc_ok(1,2) [of 3] seg_desc_ok(3) [of tss] by blast
  note f = d [unfolded make_code_desc_def make_data_desc_def make_tss_desc_def, THEN make_seg_desc_fields(5)]
    make_seg_desc_fields(1) [OF d(5) [unfolded make_tss_desc_def]]
  show ?thesis
    by (intro exI [of _ kc] exI [of _ kd] exI [of _ uc] exI [of _ ud] exI [of _ ts]) (use d f assms in \<open>simp add: gdt_init_def ASSERT_def\<close>)
qed

text \<open>C39: The processor sees the segments and gates the kernel asks for. A segment descriptor decodes to the base, limit, class, type,
  privilege level and granularity it was made with, and is present; an interrupt gate leads to its function in the kernel code
  segment with the type and privilege level asked for.\<close>

theorem descriptors_decode:
  assumes "make_seg_desc base limit cls type dpl gran = Inr d" and "make_gate f dpl' type' = Inr g"
  shows "desc_base d = base \<and> desc_limit d = limit \<and> desc_class d = cls \<and> desc_type d = type \<and> desc_dpl d = dpl \<and> desc_gran d = gran
     \<and> desc_present d
     \<and> gate_offset g = f \<and> gate_selector g = SEL_KCSEG \<and> gate_type g = type' \<and> desc_dpl g = dpl' \<and> desc_present g"
  using make_seg_desc_fields [OF assms(1)] make_gate_fields [OF assms(2)] by simp

theorem descriptors_decode_witness:
  "\<exists>d g. make_tss_desc 0xc0105000 = Inr d \<and> make_intr_gate 0xc0020000 3 = Inr g
     \<and> desc_base d = 0xc0105000 \<and> desc_limit d = 0x67 \<and> gate_offset g = 0xc0020000 \<and> gate_type g = 14 \<and> desc_dpl g = 3"
proof -
  obtain d g where d: "make_tss_desc 0xc0105000 = Inr d" "make_intr_gate 0xc0020000 3 = Inr g"
    using seg_desc_ok(3,4) by fastforce
  show ?thesis
    using descriptors_decode [OF d [unfolded make_tss_desc_def make_intr_gate_def]] d by blast
qed

end
