(* ===== verification/Interrupt_Table.thy ===== *)
theory Interrupt_Table
  imports Threads Descriptors
begin

text \<open>
  The interrupt descriptor table and the registration of handlers: the rest of \<^verbatim>\<open>threads/interrupt.c\<close>. The addresses of the assembly
  stubs are the function \<open>intr_stubs\<close> and that of the table is \<open>idt_addr\<close>; handlers are any type, and no handler is the null pointer. Port output is the list of bytes written, by port. The lemmas show that
  every vector leads to its stub and that a handler is registered once, external ones on the vectors of the interrupt controller only.
\<close>

record 'h intr_table =
  idt :: "u8 \<Rightarrow> u64"
  intr_handlers :: "u8 \<Rightarrow> 'h option"
  intr_names :: "u8 \<Rightarrow> string"
  idtr :: u64
  ports :: "(u16 \<times> u8) list"

definition PIC0_CTRL :: u16 where
  "PIC0_CTRL = 0x20"

definition PIC0_DATA :: u16 where
  "PIC0_DATA = 0x21"

definition PIC1_CTRL :: u16 where
  "PIC1_CTRL = 0xa0"

definition PIC1_DATA :: u16 where
  "PIC1_DATA = 0xa1"

definition pic_init :: "'h intr_table \<Rightarrow> 'h intr_table" where
  "pic_init tab = tab\<lparr>ports := ports tab @
     [(PIC0_DATA, 0xff), (PIC1_DATA, 0xff),
      (PIC0_CTRL, 0x11), (PIC0_DATA, 0x20), (PIC0_DATA, 0x04), (PIC0_DATA, 0x01),
      (PIC1_CTRL, 0x11), (PIC1_DATA, 0x28), (PIC1_DATA, 0x02), (PIC1_DATA, 0x01),
      (PIC0_DATA, 0x00), (PIC1_DATA, 0x00)]\<rparr>"

definition exception_names :: "(u8 \<times> string) list" where
  "exception_names =
     [(0, ''#DE Divide Error''), (1, ''#DB Debug Exception''), (2, ''NMI Interrupt''), (3, ''#BP Breakpoint Exception''),
      (4, ''#OF Overflow Exception''), (5, ''#BR BOUND Range Exceeded Exception''), (6, ''#UD Invalid Opcode Exception''),
      (7, ''#NM Device Not Available Exception''), (8, ''#DF Double Fault Exception''), (9, ''Coprocessor Segment Overrun''),
      (10, ''#TS Invalid TSS Exception''), (11, ''#NP Segment Not Present''), (12, ''#SS Stack Fault Exception''),
      (13, ''#GP General Protection Exception''), (14, ''#PF Page-Fault Exception''), (16, ''#MF x87 FPU Floating-Point Error''),
      (17, ''#AC Alignment Check Exception''), (18, ''#MC Machine-Check Exception''), (19, ''#XF SIMD Floating-Point Exception'')]"

text \<open>The loop over the vectors in \<^verbatim>\<open>intr_init\<close>.\<close>

fun fill_idt :: "(u8 \<Rightarrow> addr) \<Rightarrow> (u8 \<Rightarrow> u64) \<Rightarrow> u8 list \<Rightarrow> (u8 \<Rightarrow> u64) res" where
  "fill_idt intr_stubs t [] = Inr t"
| "fill_idt intr_stubs t (i # is) = bnd (make_intr_gate (intr_stubs i) 0) (\<lambda>g. fill_idt intr_stubs (t(i := g)) is)"

definition intr_init :: "addr \<Rightarrow> (u8 \<Rightarrow> addr) \<Rightarrow> 'h intr_table \<Rightarrow> 'h intr_table res" where
  "intr_init idt_addr intr_stubs tab =
     (let tab = pic_init tab in
      bnd (fill_idt intr_stubs (idt tab) (map of_nat [0..<256])) (\<lambda>t.
      Inr (tab\<lparr>idt := t, idtr := make_idtr_operand 2047 idt_addr, intr_names := (\<lambda>v. case map_of exception_names v of Some n \<Rightarrow> n | None \<Rightarrow> ''unknown'')\<rparr>)))"

definition register_handler ::
  "(u8 \<Rightarrow> addr) \<Rightarrow> 'h intr_table \<Rightarrow> u8 \<Rightarrow> u32 \<Rightarrow> intr_level \<Rightarrow> 'h option \<Rightarrow> string \<Rightarrow> 'h intr_table res" where
  "register_handler intr_stubs tab vec_no dpl l handler name =
     ASSERT (intr_handlers tab vec_no = None)
       (bnd (if l = INTR_ON then make_trap_gate (intr_stubs vec_no) dpl else make_intr_gate (intr_stubs vec_no) dpl) (\<lambda>g.
        Inr (tab\<lparr>idt := (idt tab)(vec_no := g), intr_handlers := (intr_handlers tab)(vec_no := handler),
                 intr_names := (intr_names tab)(vec_no := name)\<rparr>)))"

definition intr_register_ext :: "(u8 \<Rightarrow> addr) \<Rightarrow> 'h intr_table \<Rightarrow> u8 \<Rightarrow> 'h option \<Rightarrow> string \<Rightarrow> 'h intr_table res" where
  "intr_register_ext intr_stubs tab vec_no handler name =
     ASSERT (vec_no \<ge> 0x20 \<and> vec_no \<le> 0x2f) (register_handler intr_stubs tab vec_no 0 INTR_OFF handler name)"

definition intr_register_int ::
  "(u8 \<Rightarrow> addr) \<Rightarrow> 'h intr_table \<Rightarrow> u8 \<Rightarrow> u32 \<Rightarrow> intr_level \<Rightarrow> 'h option \<Rightarrow> string \<Rightarrow> 'h intr_table res" where
  "intr_register_int intr_stubs tab vec_no dpl l handler name =
     ASSERT (vec_no < 0x20 \<or> vec_no > 0x2f) (register_handler intr_stubs tab vec_no dpl l handler name)"

definition intr_name :: "'h intr_table \<Rightarrow> u8 \<Rightarrow> string" where
  "intr_name tab vec = intr_names tab vec"

section \<open>The table\<close>

text \<open>Every vector leads to its stub; the gates of external interrupts are interrupt gates, which turn interrupts off, and cannot be
  used by user code.\<close>

definition table_ok :: "(u8 \<Rightarrow> addr) \<Rightarrow> 'h intr_table \<Rightarrow> bool" where
  "table_ok intr_stubs tab \<longleftrightarrow>
     (\<forall>v. gate_offset (idt tab v) = intr_stubs v \<and> gate_selector (idt tab v) = SEL_KCSEG \<and> desc_present (idt tab v))
     \<and> (\<forall>v. v \<ge> 0x20 \<and> v \<le> 0x2f \<longrightarrow> gate_type (idt tab v) = 14 \<and> desc_dpl (idt tab v) = 0)"

lemma make_gates:
  assumes "make_intr_gate f dpl = Inr g" shows "gate_offset g = f" "gate_selector g = SEL_KCSEG" "gate_type g = 14" "desc_dpl g = dpl" "desc_present g"
  using make_gate_fields assms by (auto simp: make_intr_gate_def)

lemma make_trap_gates:
  assumes "make_trap_gate f dpl = Inr g" shows "gate_offset g = f" "gate_selector g = SEL_KCSEG" "desc_present g"
  using make_gate_fields assms by (auto simp: make_trap_gate_def)

lemma gate_made: "f \<noteq> 0 \<Longrightarrow> \<exists>g. make_intr_gate f 0 = Inr g"
  by (auto simp: make_intr_gate_def make_gate_def ASSERT_def Let_def seg_asserts)

lemma fill_idt_ok:
  assumes "\<forall>v. intr_stubs v \<noteq> 0"
  shows "\<exists>t'. fill_idt intr_stubs t vs = Inr t'
     \<and> (\<forall>v. if v \<in> set vs then make_intr_gate (intr_stubs v) 0 = Inr (t' v) else t' v = t v)"
proof (induction vs arbitrary: t)
  case (Cons v vs)
  obtain g where g: "make_intr_gate (intr_stubs v) 0 = Inr g"
    using gate_made assms by blast
  obtain t' where t': "fill_idt intr_stubs (t(v := g)) vs = Inr t'"
      "\<forall>u. if u \<in> set vs then make_intr_gate (intr_stubs u) 0 = Inr (t' u) else t' u = (t(v := g)) u"
    using Cons.IH [of "t(v := g)"] by blast
  have "if u \<in> set (v # vs) then make_intr_gate (intr_stubs u) 0 = Inr (t' u) else t' u = t u" for u
    using t'(2) [rule_format, of u] g by (auto split: if_splits)
  then show ?case
    using g t'(1) by auto
qed simp

lemma all_vectors: "v \<in> set (map of_nat [0..<256])" for v :: u8
  using unat_less_size [of v] by (auto simp: image_iff intro!: bexI [of _ "unat v"])

lemma intr_init_ok:
  assumes "\<forall>v. intr_stubs v \<noteq> 0"
  shows "\<exists>tab'. intr_init idt_addr intr_stubs tab = Inr tab' \<and> table_ok intr_stubs tab' \<and> intr_handlers tab' = intr_handlers tab"
proof -
  obtain t where t: "fill_idt intr_stubs (idt (pic_init tab)) (map of_nat [0..<256]) = Inr t"
      "\<forall>v. make_intr_gate (intr_stubs v) 0 = Inr (t v)"
    using fill_idt_ok [OF assms, of "idt (pic_init tab)" "map of_nat [0..<256]"] all_vectors by auto
  note f = make_gates [OF t(2) [rule_format]]
  show ?thesis
    using t(1) f by (auto simp: intr_init_def Let_def table_ok_def pic_init_def)
qed

lemma register_ok:
  assumes "table_ok intr_stubs tab" and "register_handler intr_stubs tab v dpl l h name = Inr tab'"
    and "v \<ge> 0x20 \<and> v \<le> 0x2f \<Longrightarrow> l = INTR_OFF \<and> dpl = 0"
  shows "table_ok intr_stubs tab' \<and> intr_handlers tab v = None
     \<and> intr_handlers tab' = (intr_handlers tab)(v := h) \<and> intr_name tab' v = name"
proof -
  obtain g where g: "(if l = INTR_ON then make_trap_gate (intr_stubs v) dpl else make_intr_gate (intr_stubs v) dpl) = Inr g"
      "tab' = tab\<lparr>idt := (idt tab)(v := g), intr_handlers := (intr_handlers tab)(v := h), intr_names := (intr_names tab)(v := name)\<rparr>"
      "intr_handlers tab v = None"
    using assms(2) unfolding register_handler_def by (auto simp: ASSERT_def res_simps split: if_splits)
  have "gate_offset g = intr_stubs v" "gate_selector g = SEL_KCSEG" "desc_present g"
    using g(1) make_gates make_trap_gates by (auto split: if_splits)
  moreover have "gate_type g = 14 \<and> desc_dpl g = 0" if "v \<ge> 0x20 \<and> v \<le> 0x2f"
    using g(1) assms(3) [OF that] make_gates [of "intr_stubs v" dpl g] by auto
  ultimately show ?thesis
    using assms(1) g(2,3) by (auto simp: table_ok_def intr_name_def)
qed

text \<open>What a sequence of registrations leaves: a handler may be given for an external or an internal vector.\<close>

datatype 'h registration = External u8 'h string | Internal u8 u32 intr_level 'h string

fun reg_vec :: "'h registration \<Rightarrow> u8" where
  "reg_vec (External v h n) = v"
| "reg_vec (Internal v d l h n) = v"

fun reg_handler :: "'h registration \<Rightarrow> 'h" where
  "reg_handler (External v h n) = h"
| "reg_handler (Internal v d l h n) = h"

fun register :: "(u8 \<Rightarrow> addr) \<Rightarrow> 'h intr_table \<Rightarrow> 'h registration \<Rightarrow> 'h intr_table res" where
  "register intr_stubs tab (External v h n) = intr_register_ext intr_stubs tab v (Some h) n"
| "register intr_stubs tab (Internal v d l h n) = intr_register_int intr_stubs tab v d l (Some h) n"

fun register_all :: "(u8 \<Rightarrow> addr) \<Rightarrow> 'h intr_table \<Rightarrow> 'h registration list \<Rightarrow> 'h intr_table res" where
  "register_all intr_stubs tab [] = Inr tab"
| "register_all intr_stubs tab (r # rs) = bnd (register intr_stubs tab r) (\<lambda>tab. register_all intr_stubs tab rs)"

fun reg_valid :: "'h registration \<Rightarrow> bool" where
  "reg_valid (External v h n) \<longleftrightarrow> v \<ge> 0x20 \<and> v \<le> 0x2f"
| "reg_valid (Internal v d l h n) \<longleftrightarrow> (v < 0x20 \<or> v > 0x2f) \<and> 0 \<le>s d \<and> d \<le>s 3"

lemma sle_15: "0 \<le>s (15 :: u32)"
  by (simp add: word_sle_eq)

lemma register_handler_iff:
  assumes "f v \<noteq> 0"
  shows "(\<exists>tab'. register_handler f tab v d l h n = Inr tab') \<longleftrightarrow> intr_handlers tab v = None \<and> 0 \<le>s d \<and> d \<le>s 3"
  using assms by (auto simp: register_handler_def make_trap_gate_def make_intr_gate_def make_gate_def ASSERT_def Let_def seg_asserts sle_15 split: if_splits)

lemma register_iff:
  assumes "\<forall>v. f v \<noteq> 0"
  shows "(\<exists>tab'. register f tab r = Inr tab') \<longleftrightarrow> intr_handlers tab (reg_vec r) = None \<and> reg_valid r"
proof -
  have "0 \<le>s (0 :: u32)" "(0 :: u32) \<le>s 3"
    by (simp_all add: word_sle_eq)
  then show ?thesis
    by (cases r) (auto simp: intr_register_ext_def intr_register_int_def ASSERT_eq_Inr_iff register_handler_iff [OF assms [rule_format]])
qed

lemma register_result:
  assumes "table_ok f tab" and "register f tab r = Inr tab'"
  shows "table_ok f tab' \<and> intr_handlers tab' = (intr_handlers tab)(reg_vec r \<mapsto> reg_handler r)"
proof (cases r)
  case (External v h n)
  then show ?thesis
    using assms(2) register_ok [OF assms(1), of v 0 INTR_OFF "Some h" n] by (simp add: intr_register_ext_def ASSERT_eq_Inr_iff)
next
  case (Internal v d l h n)
  then have "register_handler f tab v d l (Some h) n = Inr tab'" "\<not> (v \<ge> 0x20 \<and> v \<le> 0x2f)"
    using assms(2) by (auto simp: intr_register_int_def ASSERT_eq_Inr_iff)
  then show ?thesis
    using register_ok [OF assms(1), of v d l "Some h" n tab'] Internal by fastforce
qed

lemma register_all_iff:
  assumes "\<forall>v. f v \<noteq> 0" and "table_ok f tab"
  shows "(\<exists>tab'. register_all f tab rs = Inr tab')
    \<longleftrightarrow> (\<forall>r\<in>set rs. reg_valid r \<and> intr_handlers tab (reg_vec r) = None) \<and> distinct (map reg_vec rs)"
  using assms(2)
proof (induction rs arbitrary: tab)
  case (Cons r rs)
  show ?case
  proof (cases "register f tab r")
    case (Inl e)
    then show ?thesis
      using register_iff [OF assms(1), of tab r] by auto
  next
    case (Inr t)
    note t = register_result [OF Cons.prems Inr]
    then have "(\<exists>tab'. register_all f t rs = Inr tab')
        \<longleftrightarrow> (\<forall>q\<in>set rs. reg_valid q \<and> intr_handlers tab (reg_vec q) = None \<and> reg_vec q \<noteq> reg_vec r) \<and> distinct (map reg_vec rs)"
      using Cons.IH [of t] by (auto split: if_splits)
    then show ?thesis
      using register_iff [OF assms(1), of tab r] Inr by (auto simp: image_iff)
  qed
qed simp

lemma register_all_result:
  assumes "table_ok f tab" and "register_all f tab rs = Inr tab'" and "distinct (map reg_vec rs)"
  shows "table_ok f tab' \<and> (\<forall>r\<in>set rs. intr_handlers tab' (reg_vec r) = Some (reg_handler r))
    \<and> (\<forall>v. v \<notin> reg_vec ` set rs \<longrightarrow> intr_handlers tab' v = intr_handlers tab v)"
  using assms
proof (induction rs arbitrary: tab)
  case (Cons r rs)
  obtain t where t: "register f tab r = Inr t" "register_all f t rs = Inr tab'"
    using Cons.prems(2) by (auto simp: bnd_eq_Inr_iff)
  note u = register_result [OF Cons.prems(1) t(1)]
  show ?case
    using Cons.IH [OF _ t(2)] u Cons.prems(3) by auto
qed simp

text \<open>C40: After \<^verbatim>\<open>intr_init\<close> every one of the 256 vectors leads to its own stub in the kernel code segment. A sequence of handler
  registrations then goes through without a failed assertion exactly when no vector is registered twice, external handlers are on
  vectors 0x20 to 0x2f and internal ones are not, with a privilege level from 0 to 3; it leaves each registered vector with its handler
  and every other one without, keeps every gate at its stub, and external interrupts always enter with interrupts off.\<close>

theorem interrupt_registration:
  assumes "\<forall>v. intr_stubs v \<noteq> 0" and "\<forall>v. intr_handlers tab v = None"
  shows "\<exists>t0. intr_init idt_addr intr_stubs tab = Inr t0 \<and> table_ok intr_stubs t0
    \<and> (if (\<forall>r\<in>set rs. reg_valid r) \<and> distinct (map reg_vec rs)
       then \<exists>t. register_all intr_stubs t0 rs = Inr t \<and> table_ok intr_stubs t
         \<and> (\<forall>v. intr_handlers t v = map_of (map (\<lambda>r. (reg_vec r, reg_handler r)) rs) v)
       else \<exists>e. register_all intr_stubs t0 rs = Inl e)"
proof -
  obtain t0 where t0: "intr_init idt_addr intr_stubs tab = Inr t0" "table_ok intr_stubs t0" "\<forall>v. intr_handlers t0 v = None"
    using intr_init_ok [OF assms(1), of idt_addr tab] assms(2) by auto
  note iff = register_all_iff [OF assms(1) t0(2), of rs]
  show ?thesis
  proof (cases "(\<forall>r\<in>set rs. reg_valid r) \<and> distinct (map reg_vec rs)")
    case h: True
    then obtain t where t: "register_all intr_stubs t0 rs = Inr t"
      using iff t0(3) by auto
    have d: "distinct (map fst (map (\<lambda>r. (reg_vec r, reg_handler r)) rs))"
      using h by (simp add: comp_def)
    have "intr_handlers t v = map_of (map (\<lambda>r. (reg_vec r, reg_handler r)) rs) v" for v
    proof (cases "v \<in> reg_vec ` set rs")
      case True
      then obtain r where r: "r \<in> set rs" "v = reg_vec r"
        by auto
      then have "map_of (map (\<lambda>r. (reg_vec r, reg_handler r)) rs) v = Some (reg_handler r)"
        using map_of_is_SomeI [OF d] by auto
      then show ?thesis
        using register_all_result [OF t0(2) t] r h by simp
    next
      case False
      then have "map_of (map (\<lambda>r. (reg_vec r, reg_handler r)) rs) v = None"
        by (auto simp: map_of_eq_None_iff)
      then show ?thesis
        using register_all_result [OF t0(2) t] False t0(3) h by simp
    qed
    then show ?thesis
      using h t t0(1,2) register_all_result [OF t0(2) t] by auto
  next
    case False
    then have "\<nexists>t. register_all intr_stubs t0 rs = Inr t"
      using iff by auto
    then show ?thesis
      using False t0(1,2) by (metis (lifting) sum.exhaust)
  qed
qed

definition empty_table :: "nat intr_table" where
  "empty_table = \<lparr>idt = (\<lambda>_. 0), intr_handlers = (\<lambda>_. None), intr_names = (\<lambda>_. []), idtr = 0, ports = []\<rparr>"

definition example_stubs :: "u8 \<Rightarrow> addr" where
  "example_stubs v = 0xc0021000 + 16 * ucast v"

lemma example_stubs_nonzero: "example_stubs v \<noteq> 0"
proof -
  have "unat (ucast v :: u32) = unat v" "unat v < 256"
    using unat_less_size [of v] by (simp_all add: unsigned_ucast_eq take_bit_nat_eq_self)
  then have "unat (example_stubs v) = 0xc0021000 + 16 * unat v"
    by (simp add: example_stubs_def unat_word_ariths)
  then show ?thesis
    by auto
qed

theorem interrupt_registration_witness:
  "\<exists>t0. intr_init 0xc0020000 example_stubs empty_table = Inr t0
     \<and> (\<exists>t. register_all example_stubs t0 [External 0x20 7 ''timer'', Internal 0x30 3 INTR_ON 8 ''syscall''] = Inr t
       \<and> intr_handlers t 0x20 = Some 7 \<and> intr_handlers t 0x30 = Some 8 \<and> intr_handlers t 0x21 = None)"
proof -
  have v: "0 \<le>s (3 :: u32)"
    by (simp add: word_sle_eq)
  show ?thesis
    using interrupt_registration [of example_stubs empty_table "0xc0020000"
        "[External 0x20 7 ''timer'', Internal 0x30 3 INTR_ON 8 ''syscall'']"] example_stubs_nonzero v
    by (auto simp: empty_table_def)
qed

end
