(* ===== verification/Kernel_String.thy ===== *)
theory Kernel_String
  imports Memory
begin

text \<open>
  The functions of \<^verbatim>\<open>lib/string.c\<close> on byte-addressed memory. A string is the address of its first
  byte. A loop that looks for a null terminator runs for ever where there is none, so the functions
  with such loops return an option. The lemmas relate them to the list of bytes a string holds.
\<close>

section \<open>Blocks of memory\<close>

text \<open>\<^verbatim>\<open>memcpy\<close> and \<^verbatim>\<open>memset\<close> with their assertions and results; the loops are in \<open>Memory\<close>.\<close>

definition memcpy_fn :: "memory \<Rightarrow> addr \<Rightarrow> addr \<Rightarrow> u32 \<Rightarrow> (memory \<times> addr) res" where
  "memcpy_fn m dst src sz =
     ASSERT (dst \<noteq> 0 \<or> sz = 0) (ASSERT (src \<noteq> 0 \<or> sz = 0) (Inr (memcpy m dst src (unat sz), dst)))"

definition memset_fn :: "memory \<Rightarrow> addr \<Rightarrow> u8 \<Rightarrow> u32 \<Rightarrow> (memory \<times> addr) res" where
  "memset_fn m dst val sz = ASSERT (dst \<noteq> 0 \<or> sz = 0) (Inr (memset m dst val (unat sz), dst))"

text \<open>The second loop of \<^verbatim>\<open>memmove\<close>, which copies downwards.\<close>

primrec copy_down :: "memory \<Rightarrow> addr \<Rightarrow> addr \<Rightarrow> nat \<Rightarrow> memory" where
  "copy_down m dst src 0 = m"
| "copy_down m dst src (Suc n) = copy_down (m(dst - 1 := m (src - 1))) (dst - 1) (src - 1) n"

text \<open>The result is the local variable \<^verbatim>\<open>dst\<close>, which the loops change.\<close>

definition memmove :: "memory \<Rightarrow> addr \<Rightarrow> addr \<Rightarrow> u32 \<Rightarrow> (memory \<times> addr) res" where
  "memmove m dst src sz =
     ASSERT (dst \<noteq> 0 \<or> sz = 0) (ASSERT (src \<noteq> 0 \<or> sz = 0)
       (if dst < src then Inr (memcpy m dst src (unat sz), dst + sz)
        else Inr (copy_down m (dst + sz) (src + sz) (unat sz), dst + sz - sz)))"

primrec memcmp_loop :: "memory \<Rightarrow> addr \<Rightarrow> addr \<Rightarrow> nat \<Rightarrow> int" where
  "memcmp_loop m a b 0 = 0"
| "memcmp_loop m a b (Suc n) =
     (if m a \<noteq> m b then (if m a > m b then 1 else - 1) else memcmp_loop m (a + 1) (b + 1) n)"

definition memcmp :: "memory \<Rightarrow> addr \<Rightarrow> addr \<Rightarrow> u32 \<Rightarrow> int res" where
  "memcmp m a b sz = ASSERT (a \<noteq> 0 \<or> sz = 0) (ASSERT (b \<noteq> 0 \<or> sz = 0) (Inr (memcmp_loop m a b (unat sz))))"

primrec memchr_loop :: "memory \<Rightarrow> addr \<Rightarrow> u8 \<Rightarrow> nat \<Rightarrow> addr" where
  "memchr_loop m block ch 0 = 0"
| "memchr_loop m block ch (Suc n) = (if m block = ch then block else memchr_loop m (block + 1) ch n)"

definition memchr :: "memory \<Rightarrow> addr \<Rightarrow> u8 \<Rightarrow> u32 \<Rightarrow> addr res" where
  "memchr m block ch sz = ASSERT (block \<noteq> 0 \<or> sz = 0) (Inr (memchr_loop m block ch (unat sz)))"

section \<open>Strings\<close>

partial_function (option) strcmp_loop :: "memory \<Rightarrow> addr \<Rightarrow> addr \<Rightarrow> int run" where
  "strcmp_loop m a b =
     (if m a \<noteq> 0 \<and> m a = m b then strcmp_loop m (a + 1) (b + 1)
      else Some (Inr (if m a < m b then - 1 else if m a > m b then 1 else 0)))"

definition strcmp :: "memory \<Rightarrow> addr \<Rightarrow> addr \<Rightarrow> int run" where
  "strcmp m a b = check (a \<noteq> 0) (check (b \<noteq> 0) (strcmp_loop m a b))"

partial_function (option) strchr_loop :: "memory \<Rightarrow> addr \<Rightarrow> u8 \<Rightarrow> addr run" where
  "strchr_loop m string c =
     (if m string = c then Some (Inr string)
      else if m string = 0 then Some (Inr 0)
      else strchr_loop m (string + 1) c)"

definition strchr :: "memory \<Rightarrow> addr \<Rightarrow> u8 \<Rightarrow> addr run" where
  "strchr m string c = check (string \<noteq> 0) (strchr_loop m string c)"

partial_function (option) strcspn_loop :: "memory \<Rightarrow> addr \<Rightarrow> addr \<Rightarrow> u32 \<Rightarrow> u32 run" where
  "strcspn_loop m string stop len =
     (if m (string + len) \<noteq> 0 then
        andThen (strchr m stop (m (string + len))) (\<lambda>p.
          if p \<noteq> 0 then Some (Inr len) else strcspn_loop m string stop (len + 1))
      else Some (Inr len))"

definition strcspn :: "memory \<Rightarrow> addr \<Rightarrow> addr \<Rightarrow> u32 run" where
  "strcspn m string stop = strcspn_loop m string stop 0"

partial_function (option) strpbrk :: "memory \<Rightarrow> addr \<Rightarrow> addr \<Rightarrow> addr run" where
  "strpbrk m string stop =
     (if m string \<noteq> 0 then
        andThen (strchr m stop (m string)) (\<lambda>p.
          if p \<noteq> 0 then Some (Inr string) else strpbrk m (string + 1) stop)
      else Some (Inr 0))"

partial_function (option) strrchr_loop :: "memory \<Rightarrow> addr \<Rightarrow> u8 \<Rightarrow> addr \<Rightarrow> addr run" where
  "strrchr_loop m string c p =
     (if m string \<noteq> 0 then strrchr_loop m (string + 1) c (if m string = c then string else p)
      else Some (Inr p))"

definition strrchr :: "memory \<Rightarrow> addr \<Rightarrow> u8 \<Rightarrow> addr run" where
  "strrchr m string c = strrchr_loop m string c 0"

partial_function (option) strspn_loop :: "memory \<Rightarrow> addr \<Rightarrow> addr \<Rightarrow> u32 \<Rightarrow> u32 run" where
  "strspn_loop m string skip len =
     (if m (string + len) \<noteq> 0 then
        andThen (strchr m skip (m (string + len))) (\<lambda>p.
          if p = 0 then Some (Inr len) else strspn_loop m string skip (len + 1))
      else Some (Inr len))"

definition strspn :: "memory \<Rightarrow> addr \<Rightarrow> addr \<Rightarrow> u32 run" where
  "strspn m string skip = strspn_loop m string skip 0"

partial_function (option) strlen_loop :: "memory \<Rightarrow> addr \<Rightarrow> addr run" where
  "strlen_loop m p = (if m p \<noteq> 0 then strlen_loop m (p + 1) else Some (Inr p))"

definition strlen :: "memory \<Rightarrow> addr \<Rightarrow> u32 run" where
  "strlen m string = check (string \<noteq> 0) (andThen (strlen_loop m string) (\<lambda>p. Some (Inr (p - string))))"

partial_function (option) strnlen_loop :: "memory \<Rightarrow> addr \<Rightarrow> u32 \<Rightarrow> u32 \<Rightarrow> u32 run" where
  "strnlen_loop m string maxlen len =
     (if m (string + len) \<noteq> 0 \<and> len < maxlen then strnlen_loop m string maxlen (len + 1)
      else Some (Inr len))"

definition strnlen :: "memory \<Rightarrow> addr \<Rightarrow> u32 \<Rightarrow> u32 run" where
  "strnlen m string maxlen = strnlen_loop m string maxlen 0"

text \<open>The loop of \<^verbatim>\<open>strstr\<close>, with the last position to try.\<close>

partial_function (option) strstr_loop :: "memory \<Rightarrow> addr \<Rightarrow> addr \<Rightarrow> u32 \<Rightarrow> u32 \<Rightarrow> u32 \<Rightarrow> addr run" where
  "strstr_loop m haystack needle needle_len stop i =
     (if i \<le> stop then
        andThen (Some (memcmp m (haystack + i) needle needle_len)) (\<lambda>c.
          if c = 0 then Some (Inr (haystack + i)) else strstr_loop m haystack needle needle_len stop (i + 1))
      else Some (Inr 0))"

definition strstr :: "memory \<Rightarrow> addr \<Rightarrow> addr \<Rightarrow> addr run" where
  "strstr m haystack needle =
     andThen (strlen m haystack) (\<lambda>haystack_len.
     andThen (strlen m needle) (\<lambda>needle_len.
       if haystack_len \<ge> needle_len
       then strstr_loop m haystack needle needle_len (haystack_len - needle_len) 0
       else Some (Inr 0)))"

section \<open>Tokens\<close>

text \<open>The first loop of \<^verbatim>\<open>strtok_r\<close> ends at the first byte that is no delimiter, or, when \<^verbatim>\<open>None\<close> is
  returned beside it, at the end of the string.\<close>

partial_function (option) skip_delims :: "memory \<Rightarrow> addr \<Rightarrow> addr \<Rightarrow> (addr \<times> bool) run" where
  "skip_delims m delimiters s =
     andThen (strchr m delimiters (m s)) (\<lambda>p.
       if p \<noteq> 0 then if m s = 0 then Some (Inr (s, False)) else skip_delims m delimiters (s + 1)
       else Some (Inr (s, True)))"

partial_function (option) skip_token :: "memory \<Rightarrow> addr \<Rightarrow> addr \<Rightarrow> addr run" where
  "skip_token m delimiters s =
     andThen (strchr m delimiters (m s)) (\<lambda>p.
       if p = 0 then skip_token m delimiters (s + 1) else Some (Inr s))"

text \<open>\<^verbatim>\<open>*save_ptr\<close> is passed and returned by value. The result is the memory, the new saved
  position and the token.\<close>

definition strtok_r :: "memory \<Rightarrow> addr \<Rightarrow> addr \<Rightarrow> addr \<Rightarrow> (memory \<times> addr \<times> addr) run" where
  "strtok_r m s delimiters saved =
     check (delimiters \<noteq> 0)
       (let s = (if s = 0 then saved else s) in
        check (s \<noteq> 0)
          (andThen (skip_delims m delimiters s) (\<lambda>(token, more).
             if \<not> more then Some (Inr (m, token, 0))
             else
               andThen (skip_token m delimiters token) (\<lambda>s.
                 if m s \<noteq> 0 then Some (Inr (m(s := 0), s + 1, token))
                 else Some (Inr (m, s, token))))))"

section \<open>Bounded copying\<close>

definition strlcpy :: "memory \<Rightarrow> addr \<Rightarrow> addr \<Rightarrow> u32 \<Rightarrow> (memory \<times> u32) run" where
  "strlcpy m dst src sz =
     check (dst \<noteq> 0) (check (src \<noteq> 0)
       (andThen (strlen m src) (\<lambda>src_len.
          if sz > 0 then
            let dst_len = sz - 1;
                dst_len = (if src_len < dst_len then src_len else dst_len)
            in andThen (Some (memcpy_fn m dst src dst_len)) (\<lambda>(m, _).
                 Some (Inr (m(dst + dst_len := 0), src_len)))
          else Some (Inr (m, src_len)))))"

definition strlcat :: "memory \<Rightarrow> addr \<Rightarrow> addr \<Rightarrow> u32 \<Rightarrow> (memory \<times> u32) run" where
  "strlcat m dst src sz =
     check (dst \<noteq> 0) (check (src \<noteq> 0)
       (andThen (strlen m src) (\<lambda>src_len.
        andThen (strlen m dst) (\<lambda>dst_len.
          if sz > 0 \<and> dst_len < sz then
            let copy_cnt = sz - dst_len - 1;
                copy_cnt = (if src_len < copy_cnt then src_len else copy_cnt)
            in andThen (Some (memcpy_fn m (dst + dst_len) src copy_cnt)) (\<lambda>(m, _).
                 Some (Inr (m(dst + (dst_len + copy_cnt) := 0), src_len + dst_len)))
          else Some (Inr (m, src_len + dst_len))))))"

section \<open>Strings as lists of bytes\<close>

text \<open>The bytes of the string at an address, which does not run into the end of the address space.\<close>

fun cstring :: "memory \<Rightarrow> addr \<Rightarrow> u8 list \<Rightarrow> bool" where
  "cstring m s [] \<longleftrightarrow> s \<noteq> 0 \<and> m s = 0"
| "cstring m s (c # cs) \<longleftrightarrow> s \<noteq> 0 \<and> c \<noteq> 0 \<and> m s = c \<and> cstring m (s + 1) cs"

lemma cstring_nonnull [simp]: "cstring m s cs \<Longrightarrow> s \<noteq> 0"
  by (cases cs) simp_all

lemma unat_Suc: "a + 1 \<noteq> 0 \<Longrightarrow> unat (a + 1) = Suc (unat a)" for a :: addr
proof -
  assume "a + 1 \<noteq> 0"
  then have "a \<noteq> - 1"
    by (auto simp: add_eq_0_iff2)
  then have "a < - 1"
    by (simp add: order.strict_iff_order)
  then show ?thesis
    by (rule unat_plus_1)
qed

lemma cstring_no_wrap: "cstring m s cs \<Longrightarrow> unat s + length cs < 2 ^ 32"
proof (induction cs arbitrary: s)
  case Nil
  then show ?case
    using unat_less_size [of s] by simp
next
  case (Cons c cs)
  then have "cstring m (s + 1) cs"
    by simp
  then show ?case
    using Cons.IH [of "s + 1"] unat_Suc [of s] by simp
qed

lemma cstring_addr: "cstring m s cs \<Longrightarrow> i \<le> length cs \<Longrightarrow> unat (s + of_nat i) = unat s + i"
  using cstring_no_wrap [of m s cs] unat_plus_no_wrap [of s "of_nat i"] by (simp add: unat_of_nat)

lemma cstring_iff:
  "cstring m s cs \<longleftrightarrow> (\<forall>i < length cs. s + of_nat i \<noteq> 0 \<and> cs ! i \<noteq> 0 \<and> m (s + of_nat i) = cs ! i)
     \<and> s + of_nat (length cs) \<noteq> 0 \<and> m (s + of_nat (length cs)) = 0"
proof (induction cs arbitrary: s)
  case (Cons c cs)
  show ?case
    unfolding cstring.simps Cons.IH by (auto simp: less_Suc_eq_0_disj ac_simps)
qed simp

lemma cstring_cong:
  assumes "cstring m s cs" and "\<And>a. unat s \<le> unat a \<Longrightarrow> unat a \<le> unat s + length cs \<Longrightarrow> m' a = m a"
  shows "cstring m' s cs"
proof -
  have "m' (s + of_nat i) = m (s + of_nat i)" if "i \<le> length cs" for i
    using assms(2) [of "s + of_nat i"] cstring_addr [OF assms(1) that] that by simp
  then show ?thesis
    using assms(1) unfolding cstring_iff by simp
qed

lemma cstring_append: "cstring m s (as @ bs) \<Longrightarrow> cstring m (s + of_nat (length as)) bs"
proof (induction as arbitrary: s)
  case (Cons a as)
  then show ?case
    using Cons.IH [of "s + 1"] by (simp add: ac_simps)
qed simp

lemma cstring_take:
  assumes a: "cstring m s (as @ bs)"
  shows "cstring (m(s + of_nat (length as) := 0)) s as"
proof -
  note adr = cstring_addr [OF a]
  have "s + of_nat i \<noteq> s + of_nat (length as)" if "i < length as" for i
  proof -
    have "unat (s + of_nat i) \<noteq> unat (s + of_nat (length as))"
      using adr [of i] adr [of "length as"] that by simp
    then show ?thesis
      by metis
  qed
  moreover have "s + of_nat (length as) \<noteq> 0"
    using cstring_append [OF a] by (rule cstring_nonnull)
  moreover have "s + of_nat i \<noteq> 0 \<and> as ! i \<noteq> 0 \<and> m (s + of_nat i) = as ! i" if "i < length as" for i
    using a that unfolding cstring_iff by (auto simp: nth_append dest!: spec [of _ i])
  ultimately show ?thesis
    unfolding cstring_iff by simp
qed

section \<open>Searching\<close>

lemma strchr_ok:
  assumes "cstring m s cs"
  shows "\<exists>p. strchr m s c = Some (Inr p) \<and> (p \<noteq> 0 \<longleftrightarrow> c = 0 \<or> c \<in> set cs)"
proof -
  have "\<exists>p. strchr_loop m s c = Some (Inr p) \<and> (p \<noteq> 0 \<longleftrightarrow> c = 0 \<or> c \<in> set cs)"
    using assms
  proof (induction cs arbitrary: s)
    case Nil
    then show ?case
      by (subst strchr_loop.simps) auto
  next
    case (Cons d cs)
    then show ?case
      by (subst strchr_loop.simps) auto
  qed
  then show ?thesis
    using assms by (simp add: strchr_def)
qed

lemma strlen_ok:
  assumes "cstring m s cs"
  shows "strlen m s = Some (Inr (of_nat (length cs)))"
proof -
  have "strlen_loop m s = Some (Inr (s + of_nat (length cs)))"
    using assms
  proof (induction cs arbitrary: s)
    case Nil
    then show ?case
      by (subst strlen_loop.simps) simp
  next
    case (Cons d cs)
    then show ?case
      by (subst strlen_loop.simps) (simp add: ac_simps)
  qed
  then show ?thesis
    using assms by (simp add: strlen_def)
qed

lemma skip_delims_ok:
  assumes d: "cstring m d ds" and s: "cstring m s cs"
  defines "skip \<equiv> takeWhile (\<lambda>c. c \<in> set ds) cs"
  shows "skip_delims m d s = Some (Inr (s + of_nat (length skip), skip \<noteq> cs))"
  using s unfolding skip_def
proof (induction cs arbitrary: s)
  case Nil
  then show ?case
    using strchr_ok [OF d, of "m s"] by (subst skip_delims.simps) auto
next
  case (Cons c cs)
  then show ?case
    using strchr_ok [OF d, of "m s"] by (subst skip_delims.simps) (auto simp: ac_simps)
qed

lemma skip_token_ok:
  assumes d: "cstring m d ds" and s: "cstring m s cs"
  shows "skip_token m d s = Some (Inr (s + of_nat (length (takeWhile (\<lambda>c. c \<notin> set ds) cs))))"
  using s
proof (induction cs arbitrary: s)
  case Nil
  then show ?case
    using strchr_ok [OF d, of "m s"] by (subst skip_token.simps) auto
next
  case (Cons c cs)
  then show ?case
    using strchr_ok [OF d, of "m s"] by (subst skip_token.simps) (auto simp: ac_simps)
qed

section \<open>Tokens\<close>

text \<open>The maximal runs of bytes that are no delimiters.\<close>

function tokens :: "u8 set \<Rightarrow> u8 list \<Rightarrow> u8 list list" where
  "tokens D cs =
     (let rest = dropWhile (\<lambda>c. c \<in> D) cs in
      if rest = [] then []
      else takeWhile (\<lambda>c. c \<notin> D) rest # tokens D (dropWhile (\<lambda>c. c \<notin> D) rest))"
  by pat_completeness auto
termination
proof (relation "measure (\<lambda>(D, cs). length cs)")
  fix D :: "u8 set" and cs rest
  assume rest: "rest = dropWhile (\<lambda>c. c \<in> D) cs" "\<not> rest = []"
  then have "hd rest \<notin> D"
    using hd_dropWhile [of "\<lambda>c. c \<in> D" cs] by simp
  then have "length (dropWhile (\<lambda>c. c \<notin> D) rest) < length rest"
    using rest(2) by (cases rest) (simp_all add: le_imp_less_Suc length_dropWhile_le)
  moreover have "length rest \<le> length cs"
    using rest(1) by (simp add: length_dropWhile_le)
  ultimately show "((D, dropWhile (\<lambda>c. c \<notin> D) rest), (D, cs)) \<in> measure (\<lambda>(D, cs). length cs)"
    by simp
qed simp

declare tokens.simps [simp del]

lemma tokens_skip: "set as \<subseteq> D \<Longrightarrow> tokens D (as @ cs) = tokens D cs"
  by (subst (1 2) tokens.simps) (simp add: dropWhile_append2 subset_code(1))

lemma tokens_Nil: "tokens D [] = []"
  by (subst tokens.simps) simp

lemma tokens_Cons:
  assumes "tok \<noteq> []" and "set tok \<inter> D = {}" and "rest = [] \<or> hd rest \<in> D"
  shows "tokens D (tok @ rest) = tok # tokens D (tl rest)"
proof -
  have "dropWhile (\<lambda>c. c \<in> D) (tok @ rest) = tok @ rest"
    using assms(1,2) by (cases tok) auto
  moreover have t: "takeWhile (\<lambda>c. c \<notin> D) (tok @ rest) = tok" "dropWhile (\<lambda>c. c \<notin> D) (tok @ rest) = rest"
  proof -
    have "\<forall>x \<in> set tok. x \<notin> D"
      using assms(2) by blast
    then show "takeWhile (\<lambda>c. c \<notin> D) (tok @ rest) = tok" "dropWhile (\<lambda>c. c \<notin> D) (tok @ rest) = rest"
      using assms(3) by (cases rest; simp add: takeWhile_append2 dropWhile_append2)+
  qed
  ultimately have "tokens D (tok @ rest) = tok # tokens D rest"
    using assms(1) by (subst tokens.simps) simp
  moreover have "tokens D rest = tokens D (tl rest)"
    using assms(3) tokens_skip [of "[hd rest]" D "tl rest"] by (cases rest) simp_all
  ultimately show ?thesis
    by simp
qed

text \<open>One call: either no token is left, or it returns the first one and saves the position after it.\<close>

lemma strtok_r_ok:
  assumes d: "cstring m d ds" and s: "cstring m s cs" and arg: "s' = s \<or> s' = 0 \<and> saved = s"
  obtains (none) "strtok_r m s' d saved = Some (Inr (m, s + of_nat (length cs), 0))" and "tokens (set ds) cs = []"
  | (token) skip tok rest save where "cs = skip @ tok @ rest" and "tok \<noteq> []"
      and "tokens (set ds) cs = tok # tokens (set ds) (tl rest)"
      and "save = s + of_nat (length (skip @ tok)) + (if rest = [] then 0 else 1)"
      and "strtok_r m s' d saved = Some (Inr (m(s + of_nat (length (skip @ tok)) := 0), save, s + of_nat (length skip)))"
      and "cstring m save (tl rest)"
proof -
  let ?D = "set ds"
  define skip where "skip = takeWhile (\<lambda>c. c \<in> ?D) cs"
  define more where "more = dropWhile (\<lambda>c. c \<in> ?D) cs"
  have cs: "cs = skip @ more"
    by (simp add: skip_def more_def)
  have "d \<noteq> 0" "s \<noteq> 0"
    using cstring_nonnull [OF d] cstring_nonnull [OF s] by simp_all
  then have run: "strtok_r m s' d saved = andThen (skip_delims m d s) (\<lambda>(token, more).
             if \<not> more then Some (Inr (m, token, 0))
             else
               andThen (skip_token m d token) (\<lambda>s.
                 if m s \<noteq> 0 then Some (Inr (m(s := 0), s + 1, token))
                 else Some (Inr (m, s, token))))"
    using arg by (auto simp: strtok_r_def Let_def)
  note sd = skip_delims_ok [OF d s, folded skip_def]
  show thesis
  proof (cases "more = []")
    case True
    then have "tokens ?D cs = []"
      by (subst tokens.simps) (simp add: more_def)
    then show thesis
      using run sd cs True none by simp
  next
    case False
    define tok where "tok = takeWhile (\<lambda>c. c \<notin> ?D) more"
    define rest where "rest = dropWhile (\<lambda>c. c \<notin> ?D) more"
    have more: "more = tok @ rest"
      by (simp add: tok_def rest_def)
    have "hd more \<notin> ?D"
      using hd_dropWhile [of "\<lambda>c. c \<in> ?D" cs] False by (simp add: more_def)
    then have tok: "tok \<noteq> []"
      using False by (cases more) (simp_all add: tok_def)
    have D: "set tok \<inter> ?D = {}" "rest = [] \<or> hd rest \<in> ?D" "set skip \<subseteq> ?D"
      using hd_dropWhile [of "\<lambda>c. c \<notin> ?D" more] by (auto simp: tok_def rest_def skip_def dest: set_takeWhileD)
    have t: "cstring m (s + of_nat (length skip)) more"
      using s cstring_append unfolding cs by blast
    have r: "cstring m (s + of_nat (length (skip @ tok))) rest"
      using s cstring_append [of m s "skip @ tok" rest] unfolding cs more by simp
    have st: "skip_token m d (s + of_nat (length skip)) = Some (Inr (s + of_nat (length (skip @ tok))))"
      using skip_token_ok [OF d t, folded tok_def] by (simp add: ac_simps)
    show thesis
    proof (rule token)
      show "cs = skip @ tok @ rest" "tok \<noteq> []"
        using cs more tok by simp_all
      show "tokens ?D cs = tok # tokens ?D (tl rest)"
        unfolding cs more tokens_skip [OF D(3)] using tok D by (intro tokens_Cons)
      show "cstring m (s + of_nat (length (skip @ tok)) + (if rest = [] then 0 else 1)) (tl rest)"
        using r by (cases rest) simp_all
      have "skip \<noteq> cs"
        using cs False by simp
      then show "strtok_r m s' d saved = Some (Inr (m(s + of_nat (length (skip @ tok)) := 0),
          s + of_nat (length (skip @ tok)) + (if rest = [] then 0 else 1), s + of_nat (length skip)))"
        using run sd st r by (cases rest) (simp_all add: fun_upd_idem)
    qed simp
  qed
qed

text \<open>The loop over all tokens of a string, as the comment on \<^verbatim>\<open>strtok_r\<close> gives it and
  \<^verbatim>\<open>setup_stack\<close> runs it: the addresses of the tokens.\<close>

partial_function (option) strtok_all :: "memory \<Rightarrow> addr \<Rightarrow> addr \<Rightarrow> addr \<Rightarrow> (memory \<times> addr list) run" where
  "strtok_all m s d saved =
     andThen (strtok_r m s d saved) (\<lambda>(m, saved, token).
       if token = 0 then Some (Inr (m, []))
       else andThen (strtok_all m 0 d saved) (\<lambda>(m, tokens). Some (Inr (m, token # tokens))))"

lemma strtok_all_ok:
  assumes "cstring m d ds" and "cstring m s cs" and "s' = s \<or> s' = 0 \<and> saved = s"
    and "{unat d..unat d + length ds} \<inter> {unat s..unat s + length cs} = {}"
  shows "\<exists>m' ptrs. strtok_all m s' d saved = Some (Inr (m', ptrs))
     \<and> list_all2 (cstring m') ptrs (tokens (set ds) cs)
     \<and> (\<forall>a. unat a \<notin> {unat s..<unat s + length cs} \<longrightarrow> m' a = m a)"
  using assms
proof (induction cs arbitrary: m s s' saved rule: length_induct)
  case (1 cs)
  note d = 1(2) and s = 1(3) and arg = 1(4) and apart = 1(5)
  show ?case
  proof (cases rule: strtok_r_ok [OF d s arg, case_names none token])
    case none
    then show ?thesis
      by (subst strtok_all.simps) simp
  next
    case (token skip tok rest save)
    define e where "e = s + of_nat (length (skip @ tok))"
    define t where "t = s + of_nat (length skip)"
    define m1 where "m1 = m(e := 0)"
    have len: "length (tl rest) < length cs" "length (skip @ tok) + length rest = length cs"
      using token(1,2) by (cases rest; simp)+
    have ut: "unat e = unat s + length (skip @ tok)" "unat t = unat s + length skip"
      unfolding e_def t_def using len(2) by (intro cstring_addr [OF s], simp)+
    have tt: "cstring m t (tok @ rest)"
      unfolding t_def using s token(1) cstring_append by blast
    have et: "e = t + of_nat (length tok)"
      by (simp add: e_def t_def ac_simps)
    have save: "unat save = unat e + (if rest = [] then 0 else 1)" "rest = [] \<Longrightarrow> save = e" "save \<noteq> 0"
      using token(4) [folded e_def] cstring_nonnull [OF token(6)] unat_Suc [of e] by auto
    have m1: "m1 a = m a" if "unat a \<notin> {unat s..<unat s + length cs}" for a
    proof (cases "rest = []")
      case True
      then have "m e = 0"
        using token(6) save(2) by simp
      then show ?thesis
        by (simp add: m1_def)
    next
      case False
      then have "unat e \<in> {unat s..<unat s + length cs}"
        using ut(1) len(2) by (cases rest) auto
      then show ?thesis
        using that by (auto simp: m1_def)
    qed
    have d1: "cstring m1 d ds"
      using apart by (intro cstring_cong [OF d] m1) auto
    have s1: "cstring m1 save (tl rest)"
    proof (cases "rest = []")
      case True
      then show ?thesis
        using save(2,3) by (simp add: m1_def)
    next
      case False
      then show ?thesis
        using save(1) by (intro cstring_cong [OF token(6)]) (auto simp: m1_def)
    qed
    have sub: "{unat save..unat save + length (tl rest)} \<subseteq> {unat s..unat s + length cs}"
      "{unat save..<unat save + length (tl rest)} \<subseteq> {unat s..<unat s + length cs}"
      using save(1) ut len by (cases rest; simp)+
    then have "{unat d..unat d + length ds} \<inter> {unat save..unat save + length (tl rest)} = {}"
      using apart by blast
    then obtain m' ptrs where r: "strtok_all m1 0 d save = Some (Inr (m', ptrs))"
      "list_all2 (cstring m') ptrs (tokens (set ds) (tl rest))"
      "\<forall>a. unat a \<notin> {unat save..<unat save + length (tl rest)} \<longrightarrow> m' a = m1 a"
      using 1(1) len(1) d1 s1 by blast
    have "cstring m1 t tok"
      using cstring_take [OF tt] by (simp add: m1_def et)
    then have "cstring m' t tok"
    proof (rule cstring_cong)
      fix a :: addr
      assume "unat t \<le> unat a" and "unat a \<le> unat t + length tok"
      then have "unat a \<notin> {unat save..<unat save + length (tl rest)}"
        using ut save(1) by (cases "rest = []") simp_all
      then show "m' a = m1 a"
        using r(3) by blast
    qed
    moreover have "m' a = m a" if out: "unat a \<notin> {unat s..<unat s + length cs}" for a
    proof -
      have "m' a = m1 a"
        using r(3) out sub(2) by (meson subsetD)
      then show ?thesis
        using m1 [OF out] by simp
    qed
    moreover have "strtok_all m s' d saved = Some (Inr (m', t # ptrs))"
      using token(5) [folded e_def t_def, folded m1_def] r(1) cstring_nonnull [OF tt]
      by (subst strtok_all.simps) simp
    ultimately show ?thesis
      using r(2) token(3) by auto
  qed
qed

section \<open>Copying\<close>

lemma memcpy_other: "(\<And>i. i < n \<Longrightarrow> a \<noteq> dst + of_nat i) \<Longrightarrow> memcpy m dst src n a = m a"
proof (induction n arbitrary: m dst src)
  case (Suc n)
  have "a \<noteq> dst"
    using Suc.prems [of 0] by simp
  moreover have "a \<noteq> dst + 1 + of_nat i" if "i < n" for i
    using Suc.prems [of "Suc i"] that by (simp add: ac_simps)
  ultimately show ?case
    using Suc.IH [of "dst + 1" "m(dst := m src)" "src + 1"] by simp (simp add: fun_upd_def)
qed simp

lemma of_nat_inj: "i < 2 ^ 32 \<Longrightarrow> j < 2 ^ 32 \<Longrightarrow> (of_nat i :: addr) = of_nat j \<longleftrightarrow> i = j"
  by (auto simp: word_unat_eq_iff unat_of_nat)

text \<open>Copying upwards is right as long as no byte is overwritten before it is read.\<close>

lemma memcpy_in:
  assumes "\<And>i j. i < j \<Longrightarrow> j < n \<Longrightarrow> dst + of_nat i \<noteq> src + of_nat j" and "n \<le> 2 ^ 32" and "k < n"
  shows "memcpy m dst src n (dst + of_nat k) = m (src + of_nat k)"
  using assms
proof (induction n arbitrary: m dst src k)
  case (Suc n)
  have keep: "dst + 1 + of_nat i \<noteq> src + 1 + of_nat j" if "i < j" "j < n" for i j
    using Suc.prems(1) [of "Suc i" "Suc j"] that by (simp add: ac_simps)
  show ?case
  proof (cases k)
    case 0
    have "dst \<noteq> dst + 1 + of_nat i" if "i < n" for i
    proof -
      have "(of_nat (Suc i) :: addr) \<noteq> of_nat 0"
        using that Suc.prems(2) of_nat_inj [of "Suc i" 0] by simp
      then show ?thesis
        by (simp add: add.assoc)
    qed
    then have "memcpy (m(dst := m src)) (dst + 1) (src + 1) n dst = (m(dst := m src)) dst"
      by (intro memcpy_other)
    then show ?thesis
      using 0 by simp
  next
    case (Suc k')
    then have "memcpy (m(dst := m src)) (dst + 1) (src + 1) n (dst + 1 + of_nat k') = (m(dst := m src)) (src + 1 + of_nat k')"
      using keep Suc.prems(2,3) by (intro Suc.IH) auto
    moreover have "dst \<noteq> src + 1 + of_nat k'"
      using Suc.prems(1) [of 0 "Suc k'"] Suc.prems(3) \<open>k = Suc k'\<close> by (simp add: ac_simps)
    ultimately show ?thesis
      using Suc by (simp add: ac_simps fun_upd_def)
  qed
qed simp

lemma copy_down_Suc [simp]:
  "copy_down m (dst + of_nat (Suc n)) (src + of_nat (Suc n)) (Suc n)
     = copy_down (m(dst + of_nat n := m (src + of_nat n))) (dst + of_nat n) (src + of_nat n) n"
  by (simp add: algebra_simps)

lemma copy_down_other:
  "(\<And>i. i < n \<Longrightarrow> a \<noteq> dst + of_nat i) \<Longrightarrow> copy_down m (dst + of_nat n) (src + of_nat n) n a = m a"
proof (induction n arbitrary: m)
  case (Suc n)
  then show ?case
    using Suc.prems [of n] unfolding copy_down_Suc by simp
qed simp

text \<open>Copying downwards likewise.\<close>

lemma copy_down_in:
  assumes "\<And>i j. i < j \<Longrightarrow> j < n \<Longrightarrow> dst + of_nat j \<noteq> src + of_nat i" and "n \<le> 2 ^ 32" and "k < n"
  shows "copy_down m (dst + of_nat n) (src + of_nat n) n (dst + of_nat k) = m (src + of_nat k)"
  using assms
proof (induction n arbitrary: m)
  case (Suc n)
  let ?m = "m(dst + of_nat n := m (src + of_nat n))"
  show ?case
  proof (cases "k = n")
    case True
    have "dst + of_nat n \<noteq> dst + of_nat i" if "i < n" for i
      using of_nat_inj [of n i] that Suc.prems(2) by simp
    then have "copy_down ?m (dst + of_nat n) (src + of_nat n) n (dst + of_nat n) = ?m (dst + of_nat n)"
      by (intro copy_down_other)
    then show ?thesis
      unfolding copy_down_Suc using True by simp
  next
    case False
    then have k: "k < n"
      using Suc.prems(3) by simp
    then have "copy_down ?m (dst + of_nat n) (src + of_nat n) n (dst + of_nat k) = ?m (src + of_nat k)"
      using Suc.prems(1,2) by (intro Suc.IH) simp_all
    then show ?thesis
      unfolding copy_down_Suc using Suc.prems(1) [OF k] by simp
  qed
qed simp

lemma unat_eq_0_iff: "unat a = 0 \<longleftrightarrow> a = 0" for a :: addr
  by (simp add: word_unat_eq_iff)

lemma strlcpy_ok:
  assumes src: "cstring m src cs" and dst: "dst \<noteq> 0" and room: "unat dst + unat sz \<le> 2 ^ 32"
    and apart: "{unat src..unat src + length cs} \<inter> {unat dst..<unat dst + unat sz} = {}"
  shows "\<exists>m'. strlcpy m dst src sz = Some (Inr (m', of_nat (length cs)))
     \<and> (sz \<noteq> 0 \<longrightarrow> cstring m' dst (take (unat sz - 1) cs))
     \<and> (\<forall>a. unat a \<notin> {unat dst..<unat dst + unat sz} \<longrightarrow> m' a = m a)"
proof (cases "sz = 0")
  case True
  then show ?thesis
    using strlen_ok [OF src] dst cstring_nonnull [OF src] by (simp add: strlcpy_def)
next
  case False
  define n where "n = min (length cs) (unat sz - 1)"
  define w :: u32 where "w = (if of_nat (length cs) < sz - 1 then of_nat (length cs) else sz - 1)"
  have sz: "unat (sz - 1) = unat sz - 1" "0 < unat sz"
    using False by (simp_all add: unat_minus_one unat_gt_0)
  have len: "unat (of_nat (length cs) :: u32) = length cs"
    using cstring_no_wrap [OF src] by (simp add: unat_of_nat)
  have "unat w = n"
    using sz len by (auto simp: w_def n_def word_less_nat_alt)
  then have w: "w = of_nat n" "unat (of_nat n :: u32) = n"
    by auto
  have n: "n < unat sz" "n \<le> length cs" "n < 2 ^ 32"
    using sz unat_less_size [of sz] by (auto simp: n_def)
  have adr: "unat (dst + of_nat i) = unat dst + i" if "i \<le> n" for i
    using unat_plus_no_wrap [of dst "of_nat i"] that n room by (simp add: unat_of_nat)
  define m1 where "m1 = memcpy m dst src n"
  define m' where "m' = m1(dst + of_nat n := 0)"
  have run: "strlcpy m dst src sz = Some (Inr (m', of_nat (length cs)))"
    using strlen_ok [OF src] dst cstring_nonnull [OF src] False
    by (simp add: strlcpy_def Let_def w_def [symmetric] memcpy_fn_def m'_def m1_def w word_gt_0)
  have diff: "dst + of_nat i \<noteq> src + of_nat j" if "i \<le> n" "j < n" for i j
  proof -
    have "unat dst + i \<in> {unat dst..<unat dst + unat sz}" "unat src + j \<in> {unat src..unat src + length cs}"
      using that n by simp_all
    then have "unat dst + i \<noteq> unat src + j"
      using apart by (metis IntI emptyE)
    then have "unat (dst + of_nat i) \<noteq> unat (src + of_nat j)"
      using adr [OF that(1)] cstring_addr [OF src, of j] that(2) n by simp
    then show ?thesis
      by metis
  qed
  have m1: "m1 (dst + of_nat k) = cs ! k" "cs ! k \<noteq> 0" if "k < n" for k
    using memcpy_in [of n dst src k m] diff that n src unfolding m1_def cstring_iff by simp_all
  have ne: "dst + of_nat k \<noteq> dst + of_nat n" "dst + of_nat k \<noteq> 0" if "k < n" for k
    using of_nat_inj [of k n] that n adr [of k] dst by (simp_all add: unat_eq_0_iff [symmetric])
  have take: "take (unat sz - 1) cs = take n cs"
    by (simp add: n_def min_def)
  have "dst + of_nat n \<noteq> 0"
    using adr [of n] dst by (simp add: unat_eq_0_iff [symmetric])
  then have "cstring m' dst (take n cs)"
    unfolding cstring_iff m'_def using m1 ne n(2) by simp
  moreover have "m' a = m a" if out: "unat a \<notin> {unat dst..<unat dst + unat sz}" for a
  proof -
    have "a \<noteq> dst + of_nat i" if "i \<le> n" for i
    proof
      assume "a = dst + of_nat i"
      then have "unat a = unat dst + i"
        using adr [OF that] by simp
      then show False
        using out n that by simp
    qed
    then show ?thesis
      unfolding m'_def m1_def by (subst fun_upd_apply, simp) (intro memcpy_other, simp)
  qed
  ultimately show ?thesis
    using run take by auto
qed

section \<open>Properties\<close>

text \<open>Two strings in memory: the one at \<open>0x1000\<close> is a blank, \<open>ab\<close>, two blanks and \<open>c\<close>; the one at
  \<open>0x2000\<close> is a blank.\<close>

definition demo_strings :: memory where
  "demo_strings = (\<lambda>_. 0)(0x1000 := 32, 0x1001 := 97, 0x1002 := 98, 0x1003 := 32, 0x1004 := 32, 0x1005 := 99,
     0x2000 := 32)"

lemma demo_strings_ok: "cstring demo_strings 0x1000 [32, 97, 98, 32, 32, 99]" "cstring demo_strings 0x2000 [32]"
  by (simp_all add: demo_strings_def)

text \<open>C31: \<^verbatim>\<open>strtok_r\<close> called in a loop, first with the string and then with a null pointer, always ends. The
  pointers it returns are strings in the final memory, equal to the maximal runs of bytes of the original string that
  are no delimiters, in their order and none empty, and it changes no byte outside the string. The string
  of delimiters must not overlap the one that is cut up.\<close>

theorem strtok_r_tokens:
  assumes "cstring m d ds" and "cstring m s cs"
    and "{unat d..unat d + length ds} \<inter> {unat s..unat s + length cs} = {}"
  shows "\<exists>m' ptrs. strtok_all m s d saved = Some (Inr (m', ptrs))
     \<and> list_all2 (cstring m') ptrs (tokens (set ds) cs) \<and> [] \<notin> set (tokens (set ds) cs)
     \<and> (\<forall>a. unat a \<notin> {unat s..<unat s + length cs} \<longrightarrow> m' a = m a)"
proof -
  have "[] \<notin> set (tokens D cs)" for D cs
  proof (induction D cs rule: tokens.induct)
    case (1 D cs)
    show ?case
    proof (cases "dropWhile (\<lambda>c. c \<in> D) cs")
      case Nil
      then show ?thesis
        by (subst tokens.simps) simp
    next
      case (Cons c rest)
      then have "c \<notin> D"
        using hd_dropWhile [of "\<lambda>c. c \<in> D" cs] by simp
      then show ?thesis
        using 1 Cons by (subst tokens.simps) simp
    qed
  qed
  then show ?thesis
    using strtok_all_ok [OF assms(1,2) _ assms(3), of s saved] by blast
qed

theorem strtok_r_tokens_witness:
  "\<exists>m' p q. strtok_all demo_strings 0x1000 0x2000 0 = Some (Inr (m', [p, q]))
     \<and> cstring m' p [97, 98] \<and> cstring m' q [99]"
proof -
  have "tokens (set [32]) [32, 97, 98, 32, 32, 99] = [[97, 98], [99]]"
    by code_simp
  then obtain m' ptrs where "strtok_all demo_strings 0x1000 0x2000 0 = Some (Inr (m', ptrs))"
    "list_all2 (cstring m') ptrs [[97, 98], [99]]"
    using strtok_r_tokens [OF demo_strings_ok(2,1), of 0] by auto
  then show ?thesis
    by (auto simp: list_all2_Cons2)
qed

text \<open>C32: \<^verbatim>\<open>strlcpy\<close> into a buffer of \<^verbatim>\<open>size\<close> bytes that does not overlap the source writes only inside the
  buffer; unless \<^verbatim>\<open>size\<close> is 0 the buffer then holds a terminated string, the first \<^verbatim>\<open>size - 1\<close> bytes of the
  source; the result is the length of the source.\<close>

theorem strlcpy_bounded:
  assumes "cstring m src cs" and "dst \<noteq> 0" and "unat dst + unat sz \<le> 2 ^ 32"
    and "{unat src..unat src + length cs} \<inter> {unat dst..<unat dst + unat sz} = {}"
  shows "\<exists>m'. strlcpy m dst src sz = Some (Inr (m', of_nat (length cs)))
     \<and> (sz \<noteq> 0 \<longrightarrow> cstring m' dst (take (unat sz - 1) cs))
     \<and> (\<forall>a. unat a \<notin> {unat dst..<unat dst + unat sz} \<longrightarrow> m' a = m a)"
  using strlcpy_ok [OF assms] .

theorem strlcpy_bounded_witness:
  "\<exists>m'. strlcpy demo_strings 0x3000 0x1000 4 = Some (Inr (m', 6)) \<and> cstring m' 0x3000 [32, 97, 98]"
proof -
  have "{4096..4102} \<inter> {12288..<12292} = ({} :: nat set)"
    by auto
  then show ?thesis
    using strlcpy_bounded [OF demo_strings_ok(1), of "0x3000" 4] by auto
qed

text \<open>C33: \<^verbatim>\<open>memmove\<close> copies the source block to the destination even where the two overlap, and changes nothing
  outside the destination. It does not return the destination as its comment says: when the destination lies below the
  source, the result is the address after it.\<close>

theorem memmove_overlap:
  assumes "dst \<noteq> 0" and "src \<noteq> 0" and "unat dst + unat sz \<le> 2 ^ 32" and "unat src + unat sz \<le> 2 ^ 32"
  shows "\<exists>m' r. memmove m dst src sz = Inr (m', r)
     \<and> (\<forall>k < unat sz. m' (dst + of_nat k) = m (src + of_nat k))
     \<and> (\<forall>a. unat a \<notin> {unat dst..<unat dst + unat sz} \<longrightarrow> m' a = m a)
     \<and> r = (if dst < src then dst + sz else dst)"
proof -
  let ?n = "unat sz"
  have adr: "unat (dst + of_nat i) = unat dst + i" "unat (src + of_nat i) = unat src + i" if "i < ?n" for i
    using unat_plus_no_wrap [of dst "of_nat i"] unat_plus_no_wrap [of src "of_nat i"] that assms(3,4) unat_less_size [of sz]
    by (simp_all add: unat_of_nat)
  have sz: "dst + sz = dst + of_nat ?n" "src + sz = src + of_nat ?n"
    by simp_all
  have out: "a \<noteq> dst + of_nat i" if "unat a \<notin> {unat dst..<unat dst + ?n}" "i < ?n" for a i
  proof
    assume "a = dst + of_nat i"
    then have "unat a = unat dst + i"
      using adr(1) [OF that(2)] by simp
    then show False
      using that by simp
  qed
  have lim: "?n \<le> 2 ^ 32"
    using unat_less_size [of sz] by simp
  show ?thesis
  proof (cases "dst < src")
    case True
    have "dst + of_nat i \<noteq> src + of_nat j" if "i < j" "j < ?n" for i j
    proof -
      have "unat (dst + of_nat i) \<noteq> unat (src + of_nat j)"
        using adr [of i] adr [of j] that True by (simp add: word_less_nat_alt)
      then show ?thesis
        by metis
    qed
    then show ?thesis
      using memcpy_in [OF _ lim, where dst = dst and src = src and m = m] memcpy_other [of ?n _ dst m src] out assms(1,2) True
      by (auto simp: memmove_def)
  next
    case False
    have "dst + of_nat j \<noteq> src + of_nat i" if "i < j" "j < ?n" for i j
    proof -
      have "unat (dst + of_nat j) \<noteq> unat (src + of_nat i)"
        using adr [of i] adr [of j] that False by (simp add: word_less_nat_alt)
      then show ?thesis
        by metis
    qed
    then show ?thesis
      using copy_down_in [OF _ lim, where dst = dst and src = src and m = m] copy_down_other [of ?n _ dst m src] out assms(1,2) False
      unfolding memmove_def sz by simp
  qed
qed

theorem memmove_overlap_witness:
  "\<exists>m'. memmove demo_strings 0x1000 0x1001 5 = Inr (m', 0x1005) \<and> m' 0x1000 = 97 \<and> m' 0x1004 = 99"
proof -
  obtain m' r where m': "memmove demo_strings 0x1000 0x1001 5 = Inr (m', r)" "r = 0x1005"
    and k: "\<forall>k < unat (5 :: u32). m' (0x1000 + of_nat k) = demo_strings (0x1001 + of_nat k)"
    using memmove_overlap [of "0x1000" "0x1001" 5 demo_strings] by auto
  have "m' 0x1000 = 97" "m' 0x1004 = 99"
    using k [THEN spec, of 0] k [THEN spec, of 4] by (simp_all add: demo_strings_def)
  then show ?thesis
    using m' by simp
qed

end
