(* ===== verification/Malloc.thy ===== *)
theory Malloc
  imports Palloc Kernel_String
begin

text \<open>
  The block allocator of \<^verbatim>\<open>threads/malloc.c\<close> on top of the page allocator. Arena headers are three words of the memory the pages are
  in, so that a header that is overwritten or released is lost as it is in the kernel. The free list of a descriptor is the list that
  \<^verbatim>\<open>list.c\<close> implements; its links, which the kernel keeps in the free blocks themselves, are not part of the memory of the model. The
  descriptor locks bracket single operations and are left out. The lemmas show that the allocator refines a map from the addresses of
  the blocks in use to their sizes, and that the blocks never overlap each other or an arena header.
\<close>

section \<open>State and operations\<close>

record desc =
  desc_block_size :: u32
  blocks_per_arena :: u32
  free_list :: "addr list"

text \<open>The descriptors in use are the first \<^verbatim>\<open>desc_cnt\<close> of the array at \<open>descs_at\<close>, whose elements have 48 bytes.\<close>

record mstate =
  pal :: palloc
  descs :: "desc list"
  descs_at :: addr

definition ARENA_MAGIC :: u32 where
  "ARENA_MAGIC = 0x9a548eed"

definition sizeof_arena :: u32 where
  "sizeof_arena = 12"

definition desc_ptr :: "mstate \<Rightarrow> nat \<Rightarrow> addr" where
  "desc_ptr st i = descs_at st + 48 * of_nat i"

definition desc_index :: "mstate \<Rightarrow> addr \<Rightarrow> nat res" where
  "desc_index st p =
     (let i = unat (p - descs_at st) div 48 in
      if p = 0 then Inl Null_deref
      else if i < length (descs st) \<and> p = desc_ptr st i then Inr i
      else Inl Out_of_bounds)"

definition upd_desc :: "mstate \<Rightarrow> nat \<Rightarrow> (addr list \<Rightarrow> addr list) \<Rightarrow> mstate" where
  "upd_desc st i f = st\<lparr>descs := (descs st)[i := (descs st ! i)\<lparr>free_list := f (free_list (descs st ! i))\<rparr>]\<rparr>"

text \<open>The fields of an arena, and stores to memory.\<close>

definition arena_magic :: "mstate \<Rightarrow> addr \<Rightarrow> u32" where
  "arena_magic st a = load32 (ram (pal st)) a"

definition arena_desc :: "mstate \<Rightarrow> addr \<Rightarrow> addr" where
  "arena_desc st a = load32 (ram (pal st)) (a + 4)"

definition arena_free_cnt :: "mstate \<Rightarrow> addr \<Rightarrow> u32" where
  "arena_free_cnt st a = load32 (ram (pal st)) (a + 8)"

definition upd_ram :: "mstate \<Rightarrow> (memory \<Rightarrow> memory) \<Rightarrow> mstate" where
  "upd_ram st f = st\<lparr>pal := (pal st)\<lparr>ram := f (ram (pal st))\<rparr>\<rparr>"

definition set_free_cnt :: "mstate \<Rightarrow> addr \<Rightarrow> u32 \<Rightarrow> mstate" where
  "set_free_cnt st a n = upd_ram st (\<lambda>m. store32 m (a + 8) n)"

definition set_arena :: "mstate \<Rightarrow> addr \<Rightarrow> addr \<Rightarrow> u32 \<Rightarrow> mstate" where
  "set_arena st a d n = upd_ram st (\<lambda>m. store32 (store32 (store32 m a ARENA_MAGIC) (a + 4) d) (a + 8) n)"

partial_function (option) malloc_init_loop :: "mstate \<Rightarrow> u32 \<Rightarrow> mstate run" where
  "malloc_init_loop st sz =
     (if sz < PGSIZE div 2 then
        check (length (descs st) + 1 \<le> 10)
          (malloc_init_loop
             (st\<lparr>descs := descs st @ [\<lparr>desc_block_size = sz, blocks_per_arena = (PGSIZE - sizeof_arena) div sz, free_list = []\<rparr>]\<rparr>)
             (sz * 2))
      else Some (Inr st))"

definition malloc_init :: "mstate \<Rightarrow> mstate run" where
  "malloc_init st = malloc_init_loop st 16"

text \<open>The search for the smallest descriptor: its index, or \<^verbatim>\<open>desc_cnt\<close>.\<close>

fun find_desc :: "desc list \<Rightarrow> u32 \<Rightarrow> nat" where
  "find_desc [] sz = 0"
| "find_desc (d # ds) sz = (if desc_block_size d \<ge> sz then 0 else Suc (find_desc ds sz))"

definition block_to_arena :: "mstate \<Rightarrow> addr \<Rightarrow> addr res" where
  "block_to_arena st b =
     (let a = pg_round_down b in
      ASSERT (a \<noteq> 0) (ASSERT (arena_magic st a = ARENA_MAGIC)
        (bnd (if arena_desc st a = 0 then Inr True
              else bnd (desc_index st (arena_desc st a)) (\<lambda>i. Inr ((pg_ofs b - sizeof_arena) mod desc_block_size (descs st ! i) = 0)))
           (\<lambda>aligned. ASSERT aligned
             (ASSERT (arena_desc st a \<noteq> 0 \<or> pg_ofs b = sizeof_arena) (Inr a))))))"

definition arena_to_block :: "mstate \<Rightarrow> addr \<Rightarrow> u32 \<Rightarrow> addr res" where
  "arena_to_block st a idx =
     ASSERT (a \<noteq> 0) (ASSERT (arena_magic st a = ARENA_MAGIC)
       (bnd (desc_index st (arena_desc st a)) (\<lambda>i.
          ASSERT (idx < blocks_per_arena (descs st ! i)) (Inr (a + sizeof_arena + idx * desc_block_size (descs st ! i))))))"

text \<open>The loops over the blocks of arena \<open>a\<close> of descriptor \<open>d\<close>, whose \<^verbatim>\<open>blocks_per_arena\<close> is \<open>n\<close>.\<close>

function add_blocks :: "mstate \<Rightarrow> nat \<Rightarrow> addr \<Rightarrow> u32 \<Rightarrow> u32 \<Rightarrow> mstate res" where
  "add_blocks st d a n i =
     (if i < n then bnd (arena_to_block st a i) (\<lambda>b. add_blocks (upd_desc st d (\<lambda>l. l @ [b])) d a n (i + 1))
      else Inr st)"
  by pat_completeness auto
termination
  by (relation "measure (\<lambda>(st, d, a, n, i). unat n - unat i)") auto

function remove_blocks :: "mstate \<Rightarrow> nat \<Rightarrow> addr \<Rightarrow> u32 \<Rightarrow> u32 \<Rightarrow> mstate res" where
  "remove_blocks st d a n i =
     (if i < n then bnd (arena_to_block st a i) (\<lambda>b.
        if b \<in> set (free_list (descs st ! d)) then remove_blocks (upd_desc st d (remove1 b)) d a n (i + 1) else Inl Out_of_bounds)
      else Inr st)"
  by pat_completeness auto
termination
  by (relation "measure (\<lambda>(st, d, a, n, i). unat n - unat i)") auto

declare add_blocks.simps [simp del] remove_blocks.simps [simp del]

text \<open>A new arena for descriptor \<open>d\<close>; \<open>False\<close> when there is no page for it.\<close>

definition new_arena :: "mstate \<Rightarrow> nat \<Rightarrow> (mstate \<times> bool) run" where
  "new_arena st d =
     andThen (palloc_get_page (pal st) 0) (\<lambda>(p, a).
       let st = st\<lparr>pal := p\<rparr> in
       if a = 0 then Some (Inr (st, False))
       else Some (bnd (add_blocks (set_arena st a (desc_ptr st d) (blocks_per_arena (descs st ! d))) d a (blocks_per_arena (descs st ! d)) 0)
              (\<lambda>st. Inr (st, True))))"

definition pop_block :: "mstate \<Rightarrow> nat \<Rightarrow> (mstate \<times> addr) res" where
  "pop_block st d =
     (case free_list (descs st ! d) of
        [] \<Rightarrow> Inl Assert_failed
      | b # bs \<Rightarrow>
          let st = upd_desc st d (\<lambda>_. bs) in
          bnd (block_to_arena st b) (\<lambda>a. Inr (set_free_cnt st a (arena_free_cnt st a - 1), b)))"

definition malloc :: "mstate \<Rightarrow> u32 \<Rightarrow> (mstate \<times> addr) run" where
  "malloc st sz =
     (if sz = 0 then Some (Inr (st, 0))
      else
        let d = find_desc (descs st) sz in
        if d = length (descs st) then
          let page_cnt = DIV_ROUND_UP (sz + sizeof_arena) PGSIZE in
          andThen (palloc_get_multiple (pal st) 0 page_cnt) (\<lambda>(p, a).
            let st = st\<lparr>pal := p\<rparr> in
            if a = 0 then Some (Inr (st, 0))
            else Some (Inr (set_arena st a 0 page_cnt, a + sizeof_arena)))
        else
          andThen (if free_list (descs st ! d) = [] then new_arena st d else Some (Inr (st, True))) (\<lambda>(st, got).
            if got then Some (pop_block st d) else Some (Inr (st, 0))))"

definition calloc :: "mstate \<Rightarrow> u32 \<Rightarrow> u32 \<Rightarrow> (mstate \<times> addr) run" where
  "calloc st a b =
     (let sz = a * b in
      if sz < a \<or> sz < b then Some (Inr (st, 0))
      else andThen (malloc st sz) (\<lambda>(st, p).
        if p \<noteq> 0 then Some (Inr (upd_ram st (\<lambda>m. memset m p 0 (unat sz)), p)) else Some (Inr (st, p))))"

definition block_size :: "mstate \<Rightarrow> addr \<Rightarrow> u32 res" where
  "block_size st block =
     bnd (block_to_arena st block) (\<lambda>a.
       if arena_desc st a \<noteq> 0 then bnd (desc_index st (arena_desc st a)) (\<lambda>d. Inr (desc_block_size (descs st ! d)))
       else Inr (PGSIZE * arena_free_cnt st a - pg_ofs block))"

definition free :: "mstate \<Rightarrow> addr \<Rightarrow> mstate res" where
  "free st p =
     (if p \<noteq> 0 then
        bnd (block_to_arena st p) (\<lambda>a.
          if arena_desc st a \<noteq> 0 then
            bnd (desc_index st (arena_desc st a)) (\<lambda>d.
              let st = upd_ram st (\<lambda>m. memset m p 0xcc (unat (desc_block_size (descs st ! d))));
                  st = upd_desc st d (\<lambda>l. p # l);
                  st = set_free_cnt st a (arena_free_cnt st a + 1);
                  n = blocks_per_arena (descs st ! d)
              in if arena_free_cnt st a \<ge> n then
                   ASSERT (arena_free_cnt st a = n)
                     (bnd (remove_blocks st d a n 0) (\<lambda>st.
                      bnd (palloc_free_page (pal st) a) (\<lambda>p. Inr (st\<lparr>pal := p\<rparr>))))
                 else Inr st)
          else bnd (palloc_free_multiple (pal st) a (arena_free_cnt st a)) (\<lambda>p. Inr (st\<lparr>pal := p\<rparr>)))
      else Inr st)"

definition realloc :: "mstate \<Rightarrow> addr \<Rightarrow> u32 \<Rightarrow> (mstate \<times> addr) run" where
  "realloc st old_block new_size =
     (if new_size = 0 then Some (bnd (free st old_block) (\<lambda>st. Inr (st, 0)))
      else
        andThen (malloc st new_size) (\<lambda>(st, new_block).
          if old_block \<noteq> 0 \<and> new_block \<noteq> 0 then
            Some (bnd (block_size st old_block) (\<lambda>old_size.
              let min_size = (if new_size < old_size then new_size else old_size);
                  st = upd_ram st (\<lambda>m. memcpy m new_block old_block (unat min_size))
              in bnd (free st old_block) (\<lambda>st. Inr (st, new_block))))
          else Some (Inr (st, new_block))))"

section \<open>Where memory changes\<close>

text \<open>\<open>m'\<close> differs from \<open>m\<close> at most at the addresses \<open>X\<close>.\<close>

definition only :: "memory \<Rightarrow> memory \<Rightarrow> nat set \<Rightarrow> bool" where
  "only m m' X \<longleftrightarrow> (\<forall>x. unat x \<notin> X \<longrightarrow> m' x = m x)"

abbreviation bytes :: "addr \<Rightarrow> nat \<Rightarrow> nat set" where
  "bytes a n \<equiv> {unat a..<unat a + n}"

lemma only_refl [simp]: "only m m X"
  by (simp add: only_def)

lemma only_trans: "only m m' X \<Longrightarrow> only m' m'' Y \<Longrightarrow> only m m'' (X \<union> Y)"
  by (simp add: only_def)

lemma only_mono: "only m m' X \<Longrightarrow> X \<subseteq> Y \<Longrightarrow> only m m' Y"
  by (auto simp: only_def)

lemma unat_add_small: "unat (a + of_nat i) = unat a + i" if "unat a + i < 2 ^ 32" for a :: addr
  using that unat_plus_no_wrap [of a "of_nat i"] by (simp add: unat_of_nat)

lemma only_store32: "only m (store32 m a w) (bytes a 4)" if "unat a + 4 \<le> 2 ^ 32"
proof -
  have u: "unat (a + 1) = unat a + 1" "unat (a + 2) = unat a + 2" "unat (a + 3) = unat a + 3"
    using that unat_add_small [of a 1] unat_add_small [of a 2] unat_add_small [of a 3] by simp_all
  show ?thesis
    unfolding only_def store32_def
  proof (intro allI impI)
    fix x :: addr
    assume x: "unat x \<notin> bytes a 4"
    then have "x \<noteq> a" "x \<noteq> a + 1" "x \<noteq> a + 2" "x \<noteq> a + 3"
      using u by auto
    then show "(m(a := ucast w, a + 1 := ucast (drop_bit 8 w), a + 2 := ucast (drop_bit 16 w), a + 3 := ucast (drop_bit 24 w))) x = m x"
      by simp
  qed
qed

lemma only_memset: "only m (memset m a v n) (bytes a n)" if "unat a + n \<le> 2 ^ 32"
  unfolding only_def
proof (intro allI impI)
  fix x :: addr
  assume x: "unat x \<notin> bytes a n"
  have "x \<noteq> a + of_nat i" if i: "i < n" for i
    using x i that unat_add_small [of a i] \<open>unat a + n \<le> 2 ^ 32\<close> by auto
  then show "memset m a v n x = m x"
    by (rule memset_other)
qed

lemma only_memcpy: "only m (memcpy m a b n) (bytes a n)" if "unat a + n \<le> 2 ^ 32"
  unfolding only_def
proof (intro allI impI)
  fix x :: addr
  assume x: "unat x \<notin> bytes a n"
  have "x \<noteq> a + of_nat i" if i: "i < n" for i
    using x i that unat_add_small [of a i] \<open>unat a + n \<le> 2 ^ 32\<close> by auto
  then show "memcpy m a b n x = m x"
    by (rule memcpy_other)
qed

lemma only_load32:
  assumes "only m m' X" and "X \<inter> bytes a 4 = {}" and "unat a + 4 \<le> 2 ^ 32"
  shows "load32 m' a = load32 m a"
proof -
  have "unat (a + 1) = unat a + 1" "unat (a + 2) = unat a + 2" "unat (a + 3) = unat a + 3"
    using assms(3) unat_add_small [of a 1] unat_add_small [of a 2] unat_add_small [of a 3] by simp_all
  then have "unat a \<notin> X" "unat (a + 1) \<notin> X" "unat (a + 2) \<notin> X" "unat (a + 3) \<notin> X"
    using assms(2) by auto
  then show ?thesis
    using assms(1) by (simp add: only_def load32_def)
qed

section \<open>Arenas\<close>

text \<open>What the pages the allocator holds are used for: an arena of the blocks of a descriptor, or a big block of a number of pages.\<close>

datatype arena_kind =
    Small nat
  | Big nat

fun kind_pages :: "arena_kind \<Rightarrow> nat" where
  "kind_pages (Small i) = 1"
| "kind_pages (Big n) = n"

type_synonym arenas = "addr \<Rightarrow> arena_kind option"

definition bs :: "nat \<Rightarrow> nat" where
  "bs i = 16 * 2 ^ i"

definition bpa :: "nat \<Rightarrow> nat" where
  "bpa i = 4084 div bs i"

text \<open>The offsets of the blocks in a page of a descriptor.\<close>

definition slot :: "nat \<Rightarrow> nat \<Rightarrow> bool" where
  "slot i n \<longleftrightarrow> 12 \<le> n \<and> (n - 12) mod bs i = 0 \<and> n + bs i \<le> 4096"

definition descs_ok :: "mstate \<Rightarrow> bool" where
  "descs_ok st \<longleftrightarrow> length (descs st) = 7 \<and> 0 < descs_at st \<and> unat (descs_at st) + 480 \<le> 2 ^ 32
     \<and> (\<forall>i<7. desc_block_size (descs st ! i) = of_nat (bs i) \<and> blocks_per_arena (descs st ! i) = of_nat (bpa i))"

abbreviation fl :: "mstate \<Rightarrow> nat \<Rightarrow> addr list" where
  "fl st i \<equiv> free_list (descs st ! i)"

abbreviation in_arena :: "addr \<Rightarrow> addr \<Rightarrow> bool" where
  "in_arena a b \<equiv> pg_round_down b = a"

abbreviation pno :: "addr \<Rightarrow> nat" where
  "pno a \<equiv> unat (pg_no a)"

definition arena_pages :: "addr \<Rightarrow> arena_kind \<Rightarrow> nat set" where
  "arena_pages a k = {pno a..<pno a + kind_pages k}"

definition free_in :: "mstate \<Rightarrow> nat \<Rightarrow> addr \<Rightarrow> nat" where
  "free_in st i a = length (filter (in_arena a) (fl st i))"

fun header_ok :: "mstate \<Rightarrow> addr \<Rightarrow> arena_kind \<Rightarrow> bool" where
  "header_ok st a (Small i) \<longleftrightarrow> arena_magic st a = ARENA_MAGIC \<and> arena_desc st a = desc_ptr st i
     \<and> arena_free_cnt st a = of_nat (free_in st i a)"
| "header_ok st a (Big n) \<longleftrightarrow> arena_magic st a = ARENA_MAGIC \<and> arena_desc st a = 0 \<and> arena_free_cnt st a = of_nat n"

fun kind_ok :: "arena_kind \<Rightarrow> bool" where
  "kind_ok (Small i) \<longleftrightarrow> i < 7"
| "kind_ok (Big n) \<longleftrightarrow> 0 < n"

definition arena_ok :: "mstate \<Rightarrow> addr \<Rightarrow> arena_kind \<Rightarrow> bool" where
  "arena_ok st a k \<longleftrightarrow> kernel_page a \<and> kind_ok k \<and> header_ok st a k
     \<and> arena_pages a k \<subseteq> pool_used (kernel_pool (pal st))"

definition lists_ok :: "mstate \<Rightarrow> arenas \<Rightarrow> bool" where
  "lists_ok st G \<longleftrightarrow> (\<forall>i<7. distinct (fl st i)
     \<and> (\<forall>b\<in>set (fl st i). G (pg_round_down b) = Some (Small i) \<and> slot i (unat (pg_ofs b))))"

definition apart :: "arenas \<Rightarrow> bool" where
  "apart G \<longleftrightarrow> (\<forall>a k b l. G a = Some k \<longrightarrow> G b = Some l \<longrightarrow> a \<noteq> b \<longrightarrow> arena_pages a k \<inter> arena_pages b l = {})"

definition malloc_inv :: "mstate \<Rightarrow> arenas \<Rightarrow> bool" where
  "malloc_inv st G \<longleftrightarrow> palloc_ok (pal st) \<and> descs_ok st \<and> lists_ok st G \<and> apart G
     \<and> (\<forall>a k. G a = Some k \<longrightarrow> arena_ok st a k)"

text \<open>Between operations no arena is wholly free, apart from \<open>E\<close>.\<close>

definition busy :: "mstate \<Rightarrow> arenas \<Rightarrow> addr set \<Rightarrow> bool" where
  "busy st G E \<longleftrightarrow> (\<forall>a i. G a = Some (Small i) \<longrightarrow> a \<notin> E \<longrightarrow> free_in st i a < bpa i)"

text \<open>The blocks in use and their sizes.\<close>

definition live :: "mstate \<Rightarrow> arenas \<Rightarrow> addr \<Rightarrow> nat option" where
  "live st G b =
     (case G (pg_round_down b) of
        None \<Rightarrow> None
      | Some (Small i) \<Rightarrow> if slot i (unat (pg_ofs b)) \<and> b \<notin> set (fl st i) then Some (bs i) else None
      | Some (Big n) \<Rightarrow> if pg_ofs b = 12 then Some (4096 * n - 12) else None)"

lemma addr_parts: "unat b = unat (pg_round_down b) + unat (pg_ofs b)" "unat (pg_round_down b) = 4096 * pno b"
  by (simp_all add: unat_pg_round_down unat_pg_ofs unat_pg_no minus_mod_eq_mult_div)

lemma page_parts:
  assumes "kernel_page a"
  shows "unat a = 4096 * pno a" and "a \<noteq> 0" and "unat a + 4096 \<le> 2 ^ 32"
proof -
  show u: "unat a = 4096 * pno a"
    using assms by (auto simp: kernel_page_def pg_ofs_zero_iff unat_pg_no)
  show "a \<noteq> 0"
    using assms by (auto simp: kernel_page_def PHYS_BASE_def)
  show "unat a + 4096 \<le> 2 ^ 32"
    using u unat_less_size [of a] by simp
qed

text \<open>An address in a page.\<close>

lemma in_page:
  assumes "kernel_page a" and "n < 4096"
  shows "unat (a + of_nat n) = unat a + n" and "pg_round_down (a + of_nat n) = a" and "unat (pg_ofs (a + of_nat n)) = n"
proof -
  note p = page_parts [OF assms(1)]
  show u: "unat (a + of_nat n) = unat a + n"
    using p(3) assms(2) by (intro unat_add_small) simp
  show o: "unat (pg_ofs (a + of_nat n)) = n"
    unfolding unat_pg_ofs u using p(1) assms(2) by simp
  have "unat (pg_round_down (a + of_nat n)) = unat a"
    using addr_parts(1) [of "a + of_nat n"] u o by simp
  then show "pg_round_down (a + of_nat n) = a"
    by (simp add: word_unat_eq_iff)
qed

lemma bs_dvd:
  assumes "i < 7"
  shows "bpa i \<le> 255" "bpa i > 0" "bs i \<le> 1024" "0 < bs i"
proof -
  have "i \<in> {0, 1, 2, 3, 4, 5, 6}"
    using assms by auto
  then show "bpa i \<le> 255" "bpa i > 0" "bs i \<le> 1024" "0 < bs i"
    by (auto simp: bpa_def bs_def)
qed

lemma slot_iff: "slot i n \<longleftrightarrow> (\<exists>k<bpa i. n = 12 + k * bs i)" if "i < 7"
proof
  assume s: "slot i n"
  define k where "k = (n - 12) div bs i"
  have n: "n = 12 + k * bs i"
    using s by (auto simp: slot_def k_def)
  then have "(k + 1) * bs i \<le> 4084"
    using s by (simp add: slot_def)
  then have "k + 1 \<le> bpa i"
    using bs_dvd(4) [OF that] by (simp add: bpa_def less_eq_div_iff_mult_less_eq)
  then show "\<exists>k<bpa i. n = 12 + k * bs i"
    using n by (intro exI [of _ k]) simp
next
  assume "\<exists>k<bpa i. n = 12 + k * bs i"
  then obtain k where "k < bpa i" and k2: "n = 12 + k * bs i"
    by blast
  then have k: "k + 1 \<le> bpa i"
    by simp
  then have "(k + 1) * bs i \<le> 4084"
    using bs_dvd(4) [OF that] less_eq_div_iff_mult_less_eq unfolding bpa_def by blast
  then show "slot i n"
    using k2 by (simp add: slot_def)
qed

lemma slot_apart:
  assumes "slot i n" and "slot i m" and "n < m"
  shows "n + bs i \<le> m"
proof -
  obtain x y where x: "n - 12 = bs i * x" and y: "m - 12 = bs i * y"
    using assms(1,2) unfolding slot_def by (metis mod_0_imp_dvd dvd_def)
  have "12 \<le> n" "12 \<le> m"
    using assms by (simp_all add: slot_def)
  then have "bs i * x < bs i * y"
    using assms(3) x y by linarith
  then have "x + 1 \<le> y"
    by simp
  then have "bs i * (x + 1) \<le> bs i * y"
    by (rule mult_le_mono2)
  then show ?thesis
    using x y \<open>12 \<le> n\<close> \<open>12 \<le> m\<close> by (simp add: algebra_simps)
qed

section \<open>Steps of the operations\<close>

lemma state_simps [simp]:
  "descs (upd_ram st f) = descs st" "descs_at (upd_ram st f) = descs_at st"
  "ram (pal (upd_ram st f)) = f (ram (pal st))" "kernel_pool (pal (upd_ram st f)) = kernel_pool (pal st)"
  "palloc_ok (pal (upd_ram st f)) = palloc_ok (pal st)"
  "pal (upd_desc st d g) = pal st" "descs_at (upd_desc st d g) = descs_at st" "length (descs (upd_desc st d g)) = length (descs st)"
  by (simp_all add: upd_ram_def upd_desc_def)

lemma header_upd_desc [simp]:
  "arena_magic (upd_desc st d g) a = arena_magic st a" "arena_desc (upd_desc st d g) a = arena_desc st a"
  "arena_free_cnt (upd_desc st d g) a = arena_free_cnt st a" "desc_ptr (upd_desc st d g) i = desc_ptr st i"
  "desc_ptr (upd_ram st f) i = desc_ptr st i"
  by (simp_all add: arena_magic_def arena_desc_def arena_free_cnt_def desc_ptr_def)

lemma desc_ptr_pal [simp]: "desc_ptr (st\<lparr>pal := p\<rparr>) i = desc_ptr st i"
  by (simp add: desc_ptr_def)

lemma fl_upd_desc: "d < length (descs st) \<Longrightarrow> fl (upd_desc st d g) i = (if i = d then g (fl st d) else fl st i)"
  by (simp add: upd_desc_def nth_list_update)

lemma upd_desc_twice: "d < length (descs st) \<Longrightarrow> upd_desc (upd_desc st d g) d h = upd_desc st d (\<lambda>l. h (g l))"
  by (simp add: upd_desc_def)

lemma upd_desc_id: "upd_desc st d (\<lambda>l. l) = st"
  by (simp add: upd_desc_def)

lemma upd_desc_same [simp]: "desc_block_size (descs (upd_desc st d g) ! i) = desc_block_size (descs st ! i)"
  "blocks_per_arena (descs (upd_desc st d g) ! i) = blocks_per_arena (descs st ! i)"
  by (cases "d < length (descs st)"; cases "i = d"; simp add: upd_desc_def nth_list_update list_update_beyond)+

lemma descs_ok_upd [simp]: "descs_ok (upd_desc st d g) = descs_ok st"
  by (simp add: descs_ok_def)

lemma descs_ok_ram [simp]: "descs_ok (upd_ram st f) = descs_ok st" "descs_ok (st\<lparr>pal := p\<rparr>) = descs_ok st"
  by (simp_all add: descs_ok_def)

lemma desc_index_ptr:
  assumes "descs_ok st" and "i < 7"
  shows "desc_index st (desc_ptr st i) = Inr i" and "desc_ptr st i \<noteq> 0"
proof -
  have m: "unat (48 * of_nat i :: u32) = 48 * i"
    using assms(2) by (simp add: unat_word_ariths unat_of_nat)
  then have u: "unat (desc_ptr st i) = unat (descs_at st) + 48 * i"
    unfolding desc_ptr_def using assms by (subst unat_plus_no_wrap) (simp_all add: descs_ok_def)
  have pos: "0 < unat (descs_at st)"
    using assms(1) by (simp add: descs_ok_def word_less_nat_alt)
  show n: "desc_ptr st i \<noteq> 0"
    using u pos by auto
  have "desc_ptr st i - descs_at st = 48 * of_nat i"
    by (simp add: desc_ptr_def)
  then have "unat (desc_ptr st i - descs_at st) div 48 = i"
    using m by simp
  then show "desc_index st (desc_ptr st i) = Inr i"
    using n assms by (simp add: desc_index_def Let_def descs_ok_def)
qed

lemma block_to_arena_small:
  assumes "descs_ok st" and "i < 7" and "arena_magic st (pg_round_down b) = ARENA_MAGIC"
    and "arena_desc st (pg_round_down b) = desc_ptr st i" and "pg_round_down b \<noteq> 0" and "slot i (unat (pg_ofs b))"
  shows "block_to_arena st b = Inr (pg_round_down b)"
proof -
  have "unat (pg_ofs b - sizeof_arena) = unat (pg_ofs b) - 12"
    using assms(6) by (subst unat_sub) (simp_all add: sizeof_arena_def slot_def word_le_nat_alt)
  moreover have "unat (of_nat (bs i) :: u32) = bs i"
    using bs_dvd(3) [OF assms(2)] by (simp add: unat_of_nat)
  ultimately have "unat ((pg_ofs b - sizeof_arena) mod of_nat (bs i)) = 0"
    using assms(6) by (simp add: unat_mod slot_def)
  then have "(pg_ofs b - sizeof_arena) mod desc_block_size (descs st ! i) = 0"
    using assms(1,2) by (simp add: descs_ok_def unat_eq_zero)
  then show ?thesis
    using assms desc_index_ptr [OF assms(1,2)] by (simp add: block_to_arena_def Let_def)
qed

lemma block_to_arena_big:
  assumes "arena_magic st (pg_round_down b) = ARENA_MAGIC" and "arena_desc st (pg_round_down b) = 0"
    and "pg_round_down b \<noteq> 0" and "pg_ofs b = 12"
  shows "block_to_arena st b = Inr (pg_round_down b)"
  using assms by (simp add: block_to_arena_def Let_def sizeof_arena_def)

definition blk :: "addr \<Rightarrow> nat \<Rightarrow> nat \<Rightarrow> addr" where
  "blk a i k = a + of_nat (12 + k * bs i)"

lemma arena_to_block_ok:
  assumes "descs_ok st" and "i < 7" and "arena_magic st a = ARENA_MAGIC" and "arena_desc st a = desc_ptr st i" and "a \<noteq> 0"
    and "k < bpa i"
  shows "arena_to_block st a (of_nat k) = Inr (blk a i k)"
proof -
  have "(of_nat k :: u32) < of_nat (bpa i)"
    using assms(6) bs_dvd(1) [OF assms(2)] by (simp add: word_less_nat_alt unat_of_nat)
  moreover have "blk a i k = a + sizeof_arena + of_nat k * of_nat (bs i)"
    by (simp add: blk_def sizeof_arena_def)
  ultimately show ?thesis
    using assms desc_index_ptr [OF assms(1,2)] by (simp add: arena_to_block_def descs_ok_def)
qed

lemma add_blocks_ok:
  assumes "descs_ok st" and "i < 7" and "arena_magic st a = ARENA_MAGIC" and "arena_desc st a = desc_ptr st i" and "a \<noteq> 0"
    and "j \<le> bpa i"
  shows "add_blocks st i a (of_nat (bpa i)) (of_nat j) = Inr (upd_desc st i (\<lambda>l. l @ map (blk a i) [j..<bpa i]))"
  using assms
proof (induction "bpa i - j" arbitrary: j st)
  case 0
  then have "j = bpa i"
    by simp
  then show ?case
    by (subst add_blocks.simps) (simp add: upd_desc_id)
next
  case (Suc n)
  have j: "j < bpa i"
    using Suc.hyps(2) by simp
  then have lt: "(of_nat j :: u32) < of_nat (bpa i)"
    using bs_dvd(1) [OF Suc.prems(2)] by (simp add: word_less_nat_alt unat_of_nat)
  have len: "i < length (descs st)"
    using Suc.prems(1,2) by (simp add: descs_ok_def)
  have "add_blocks (upd_desc st i (\<lambda>l. l @ [blk a i j])) i a (of_nat (bpa i)) (of_nat (Suc j))
      = Inr (upd_desc (upd_desc st i (\<lambda>l. l @ [blk a i j])) i (\<lambda>l. l @ map (blk a i) [Suc j..<bpa i]))"
    using Suc.hyps(2) Suc.prems j by (intro Suc.hyps(1)) simp_all
  then show ?case
    using arena_to_block_ok [OF Suc.prems(1-5) j] lt j len
    by (subst add_blocks.simps) (simp add: upd_desc_twice upt_conv_Cons add.commute)
qed

lemma remove_blocks_ok:
  assumes "descs_ok st" and "i < 7" and "arena_magic st a = ARENA_MAGIC" and "arena_desc st a = desc_ptr st i" and "a \<noteq> 0"
    and "j \<le> bpa i" and "distinct (map (blk a i) [j..<bpa i])" and "blk a i ` {j..<bpa i} \<subseteq> set (fl st i)" and "distinct (fl st i)"
  shows "remove_blocks st i a (of_nat (bpa i)) (of_nat j) = Inr (upd_desc st i (filter (\<lambda>b. b \<notin> blk a i ` {j..<bpa i})))"
  using assms
proof (induction "bpa i - j" arbitrary: j st)
  case 0
  then have "j = bpa i"
    by simp
  then show ?case
    by (subst remove_blocks.simps) (simp add: upd_desc_def)
next
  case (Suc n)
  have j: "j < bpa i"
    using Suc.hyps(2) by simp
  then have lt: "(of_nat j :: u32) < of_nat (bpa i)"
    using bs_dvd(1) [OF Suc.prems(2)] by (simp add: word_less_nat_alt unat_of_nat)
  have len: "i < length (descs st)"
    using Suc.prems(1,2) by (simp add: descs_ok_def)
  have s: "{j..<bpa i} = insert j {Suc j..<bpa i}"
    using j by auto
  let ?b = "blk a i j"
  have n: "?b \<notin> blk a i ` {Suc j..<bpa i}" "distinct (map (blk a i) [Suc j..<bpa i])"
    using Suc.prems(7) j by (simp_all add: upt_conv_Cons)
  have r: "remove1 ?b (fl st i) = filter (\<lambda>b. b \<noteq> ?b) (fl st i)"
    using Suc.prems(9) by (simp add: distinct_remove1_removeAll removeAll_filter_not_eq eq_commute)
  have "remove_blocks (upd_desc st i (remove1 ?b)) i a (of_nat (bpa i)) (of_nat (Suc j))
      = Inr (upd_desc (upd_desc st i (remove1 ?b)) i (filter (\<lambda>b. b \<notin> blk a i ` {Suc j..<bpa i})))"
  proof (rule Suc.hyps(1))
    show "blk a i ` {Suc j..<bpa i} \<subseteq> set (fl (upd_desc st i (remove1 ?b)) i)"
    proof
      fix b
      assume b: "b \<in> blk a i ` {Suc j..<bpa i}"
      then have "b \<noteq> ?b" "b \<in> set (fl st i)"
        using n(1) Suc.prems(8) s by blast+
      then show "b \<in> set (fl (upd_desc st i (remove1 ?b)) i)"
        by (simp add: fl_upd_desc [OF len] r)
    qed
    show "distinct (fl (upd_desc st i (remove1 ?b)) i)"
      using Suc.prems(9) by (simp add: fl_upd_desc [OF len])
    show "n = bpa i - Suc j" "Suc j \<le> bpa i"
      using Suc.hyps(2) by simp_all
    show "distinct (map (blk a i) [Suc j..<bpa i])"
      by (rule n(2))
  qed (simp_all add: Suc.prems(1-5))
  moreover have "filter (\<lambda>b. b \<notin> blk a i ` {Suc j..<bpa i}) (remove1 ?b (fl st i)) = filter (\<lambda>b. b \<notin> blk a i ` {j..<bpa i}) (fl st i)"
    unfolding r s filter_filter by (rule filter_cong [OF refl]) blast
  moreover have "?b \<in> set (fl st i)"
    using Suc.prems(8) s by blast
  moreover have "upd_desc (upd_desc st i (remove1 ?b)) i (filter (\<lambda>b. b \<notin> blk a i ` {Suc j..<bpa i}))
      = upd_desc st i (filter (\<lambda>b. b \<notin> blk a i ` {j..<bpa i}))"
    unfolding upd_desc_twice [OF len] using calculation(2) by (simp add: upd_desc_def)
  ultimately show ?case
    using arena_to_block_ok [OF Suc.prems(1-5) j] lt
    by (subst remove_blocks.simps) (simp add: add.commute)
qed

section \<open>The invariant\<close>

lemma malloc_invD:
  assumes "malloc_inv st G"
  shows "palloc_ok (pal st)" "descs_ok st" "lists_ok st G" "apart G" "G a = Some k \<Longrightarrow> arena_ok st a k"
  using assms by (simp_all add: malloc_inv_def)

lemma kind_pages_pos: "kind_ok k \<Longrightarrow> 0 < kind_pages k"
  by (cases k) auto

abbreviation arena_bytes :: "addr \<Rightarrow> arena_kind \<Rightarrow> nat set" where
  "arena_bytes a k \<equiv> bytes a (4096 * kind_pages k)"

lemma pool_used_top:
  assumes "pool_ok p" and "n \<in> pool_used p"
  shows "4096 * (n + 1) \<le> 2 ^ 32"
proof -
  obtain i where i: "n = pno (base p) + i" "i < pool_size p"
    using assms(2) by (auto simp: pool_used_def used_bits_def pool_size_def)
  have "4096 * pno (base p) \<le> unat (base p)"
    by (simp add: unat_pg_no)
  then show ?thesis
    using assms(1) i by (simp add: pool_ok_def)
qed

lemma arena_space:
  assumes "malloc_inv st G" and "G a = Some k"
  shows "unat a + 4096 * kind_pages k \<le> 2 ^ 32" and "0 < kind_pages k" and "kernel_page a" and "unat a = 4096 * pno a"
    and "4096 \<le> 4096 * kind_pages k"
proof -
  have ok: "arena_ok st a k" and p: "pool_ok (kernel_pool (pal st))"
    using assms by (simp_all add: malloc_inv_def palloc_ok_def)
  show pos: "0 < kind_pages k" and kp: "kernel_page a"
    using ok kind_pages_pos by (auto simp: arena_ok_def)
  show u: "unat a = 4096 * pno a"
    by (rule page_parts(1) [OF kp])
  have "pno a + kind_pages k - 1 \<in> arena_pages a k"
    using pos by (auto simp: arena_pages_def)
  then have "pno a + kind_pages k - 1 \<in> pool_used (kernel_pool (pal st))"
    using ok by (auto simp: arena_ok_def)
  from pool_used_top [OF p this] show "unat a + 4096 * kind_pages k \<le> 2 ^ 32"
    using u pos by (simp add: algebra_simps)
  show "4096 \<le> 4096 * kind_pages k"
    using pos by simp
qed

lemma arena_bytes_page: "unat a = 4096 * pno a \<Longrightarrow> x \<in> arena_bytes a k \<Longrightarrow> x div 4096 \<in> arena_pages a k"
  by (auto simp: arena_pages_def less_mult_imp_div_less algebra_simps intro: div_le_mono [of "4096 * _", simplified])

lemma arena_bytes_apart:
  assumes "malloc_inv st G" and "G a = Some k" and "G b = Some l" and "a \<noteq> b"
  shows "arena_bytes a k \<inter> arena_bytes b l = {}"
proof -
  have "arena_pages a k \<inter> arena_pages b l = {}"
    using assms unfolding malloc_inv_def apart_def by blast
  then show ?thesis
    using arena_bytes_page [OF arena_space(4) [OF assms(1,2)]] arena_bytes_page [OF arena_space(4) [OF assms(1,3)]] by blast
qed

lemma live_cases:
  assumes "live st G b = Some c"
  obtains (small) i where "G (pg_round_down b) = Some (Small i)" and "slot i (unat (pg_ofs b))" and "b \<notin> set (fl st i)" and "c = bs i"
  | (big) n where "G (pg_round_down b) = Some (Big n)" and "pg_ofs b = 12" and "c = 4096 * n - 12"
  using assms by (auto simp: live_def split: option.splits arena_kind.splits if_splits)

text \<open>A block in use lies in its arena, after the header.\<close>

lemma live_arena:
  assumes "malloc_inv st G" and "live st G b = Some c"
  obtains k where "G (pg_round_down b) = Some k" and "unat (pg_round_down b) + 12 \<le> unat b"
    and "unat b + c \<le> unat (pg_round_down b) + 4096 * kind_pages k" and "0 < c"
  using assms(2)
proof (cases rule: live_cases)
  case (small i)
  then have "i < 7"
    using malloc_invD(5) [OF assms(1) small(1)] by (simp add: arena_ok_def)
  then show ?thesis
    using that [OF small(1)] small addr_parts(1) [of b] bs_dvd(4) by (simp add: slot_def)
next
  case (big n)
  then have "0 < n"
    using malloc_invD(5) [OF assms(1) big(1)] by (simp add: arena_ok_def)
  then show ?thesis
    using that [OF big(1)] big addr_parts(1) [of b] by simp
qed

lemma live_apart:
  assumes "malloc_inv st G" and "live st G b = Some c" and "live st G b' = Some c'" and "b \<noteq> b'"
  shows "bytes b c \<inter> bytes b' c' = {}"
proof (cases "pg_round_down b = pg_round_down b'")
  case True
  then have o: "unat (pg_ofs b) \<noteq> unat (pg_ofs b')"
    using assms(4) addr_parts(1) [of b] addr_parts(1) [of b'] by (auto simp: word_unat_eq_iff)
  show ?thesis
    using assms(2)
  proof (cases rule: live_cases)
    case (small i)
    then have s': "slot i (unat (pg_ofs b'))" "c' = bs i"
      using assms(3) True by (auto simp: live_def split: if_splits)
    have "unat b + bs i \<le> unat b' \<or> unat b' + bs i \<le> unat b"
      using o slot_apart [OF small(2) s'(1)] slot_apart [OF s'(1) small(2)] addr_parts(1) [of b] addr_parts(1) [of b']
      unfolding True nat_neq_iff by auto
    then show ?thesis
      using small(4) s'(2) by auto
  next
    case (big n)
    then have "pg_ofs b' = 12"
      using assms(3) True by (auto simp: live_def split: if_splits)
    then show ?thesis
      using o big(2) by simp
  qed
next
  case False
  obtain k where k: "G (pg_round_down b) = Some k" "unat (pg_round_down b) + 12 \<le> unat b"
      "unat b + c \<le> unat (pg_round_down b) + 4096 * kind_pages k"
    using live_arena [OF assms(1,2)] by blast
  obtain k' where k': "G (pg_round_down b') = Some k'" "unat (pg_round_down b') + 12 \<le> unat b'"
      "unat b' + c' \<le> unat (pg_round_down b') + 4096 * kind_pages k'"
    using live_arena [OF assms(1,3)] by blast
  have "bytes b c \<subseteq> arena_bytes (pg_round_down b) k" "bytes b' c' \<subseteq> arena_bytes (pg_round_down b') k'"
    using k k' by auto
  then show ?thesis
    using arena_bytes_apart [OF assms(1) k(1) k'(1) False] by blast
qed

text \<open>An arena stays as it is when memory changes elsewhere.\<close>

lemma header_words:
  assumes "kernel_page a"
  shows "unat (a + 4) = unat a + 4" and "unat (a + 8) = unat a + 8" and "unat a + 12 \<le> 2 ^ 32"
  using page_parts(3) [OF assms] unat_add_small [of a 4] unat_add_small [of a 8] by simp_all

lemma header_frame:
  assumes "only (ram (pal st)) (ram (pal st')) X" and "X \<inter> bytes a 12 = {}" and "kernel_page a"
  shows "arena_magic st' a = arena_magic st a" "arena_desc st' a = arena_desc st a" "arena_free_cnt st' a = arena_free_cnt st a"
proof -
  note h = header_words [OF assms(3)]
  have "X \<inter> bytes a 4 = {}" "X \<inter> bytes (a + 4) 4 = {}" "X \<inter> bytes (a + 8) 4 = {}"
    using assms(2) h by auto
  then show "arena_magic st' a = arena_magic st a" "arena_desc st' a = arena_desc st a" "arena_free_cnt st' a = arena_free_cnt st a"
    using only_load32 [OF assms(1)] h by (simp_all add: arena_magic_def arena_desc_def arena_free_cnt_def)
qed

lemma arena_frame:
  assumes "arena_ok st a k" and "only (ram (pal st)) (ram (pal st')) X" and "X \<inter> bytes a 12 = {}" and "descs_at st' = descs_at st"
    and "\<And>i. k = Small i \<Longrightarrow> free_in st' i a = free_in st i a" and "arena_pages a k \<subseteq> pool_used (kernel_pool (pal st'))"
  shows "arena_ok st' a k"
proof -
  have kp: "kernel_page a"
    using assms(1) by (simp add: arena_ok_def)
  have "desc_ptr st' i = desc_ptr st i" for i
    using assms(4) by (simp add: desc_ptr_def)
  then show ?thesis
    using assms(1,5,6) header_frame [OF assms(2,3) kp] by (cases k) (auto simp: arena_ok_def)
qed

text \<open>The blocks of an arena.\<close>

lemma blk_slot:
  assumes "kernel_page a" and "i < 7" and "k < bpa i"
  shows "in_arena a (blk a i k)" and "unat (pg_ofs (blk a i k)) = 12 + k * bs i" and "slot i (12 + k * bs i)"
proof -
  show s: "slot i (12 + k * bs i)"
    using slot_iff [OF assms(2)] assms(3) by blast
  then have lt: "12 + k * bs i < 4096"
    using bs_dvd(4) [OF assms(2)] by (simp add: slot_def)
  show "in_arena a (blk a i k)" and "unat (pg_ofs (blk a i k)) = 12 + k * bs i"
    unfolding blk_def by (rule in_page(2,3) [OF assms(1) lt])+
qed

lemma blk_image:
  assumes "kernel_page a" and "i < 7"
  shows "inj_on (blk a i) {0..<bpa i}" and "b \<in> blk a i ` {0..<bpa i} \<longleftrightarrow> in_arena a b \<and> slot i (unat (pg_ofs b))"
proof -
  show "inj_on (blk a i) {0..<bpa i}"
  proof (rule inj_onI)
    fix k l
    assume kl: "k \<in> {0..<bpa i}" "l \<in> {0..<bpa i}" "blk a i k = blk a i l"
    then have "12 + k * bs i = 12 + l * bs i"
      using blk_slot(2) [OF assms, of k] blk_slot(2) [OF assms, of l] by auto
    then show "k = l"
      using bs_dvd(4) [OF assms(2)] by simp
  qed
  show "b \<in> blk a i ` {0..<bpa i} \<longleftrightarrow> in_arena a b \<and> slot i (unat (pg_ofs b))"
  proof
    assume "b \<in> blk a i ` {0..<bpa i}"
    then show "in_arena a b \<and> slot i (unat (pg_ofs b))"
      using blk_slot [OF assms] by auto
  next
    assume s: "in_arena a b \<and> slot i (unat (pg_ofs b))"
    then obtain k where k: "k < bpa i" "unat (pg_ofs b) = 12 + k * bs i"
      using slot_iff [OF assms(2)] by blast
    have "unat b = unat (blk a i k)"
      using addr_parts(1) [of b] addr_parts(1) [of "blk a i k"] s k blk_slot [OF assms k(1)] by simp
    then show "b \<in> blk a i ` {0..<bpa i}"
      using k(1) by (auto simp: word_unat_eq_iff)
  qed
qed

lemma free_in_le:
  assumes "malloc_inv st G" and "G a = Some (Small i)"
  shows "free_in st i a \<le> bpa i" and "free_in st i a = bpa i \<Longrightarrow> set (filter (in_arena a) (fl st i)) = blk a i ` {0..<bpa i}"
proof -
  have i: "i < 7" and kp: "kernel_page a"
    using malloc_invD(5) [OF assms] by (simp_all add: arena_ok_def)
  have l: "distinct (filter (in_arena a) (fl st i))" "set (filter (in_arena a) (fl st i)) \<subseteq> blk a i ` {0..<bpa i}"
    using malloc_invD(3) [OF assms(1)] i blk_image(2) [OF kp i] unfolding lists_ok_def by auto
  have card: "card (blk a i ` {0..<bpa i}) = bpa i"
    using card_image [OF blk_image(1) [OF kp i]] by simp
  have f: "free_in st i a = card (set (filter (in_arena a) (fl st i)))"
    using l(1) distinct_card unfolding free_in_def by fastforce
  show "free_in st i a \<le> bpa i"
    unfolding f using card_mono [OF _ l(2)] card by simp
  show "set (filter (in_arena a) (fl st i)) = blk a i ` {0..<bpa i}" if "free_in st i a = bpa i"
    using card_subset_eq [OF _ l(2)] that card unfolding f by simp
qed

text \<open>Changing the free list of one descriptor and the count of one of its arenas.\<close>

lemma relist:
  assumes inv: "malloc_inv st G" and a: "G a = Some (Small i)"
    and st': "palloc_ok (pal st')" "kernel_pool (pal st') = kernel_pool (pal st)" "descs st' = descs (upd_desc st i (\<lambda>_. l'))" "descs_at st' = descs_at st"
    and mem: "only (ram (pal st)) (ram (pal st')) X" "X \<subseteq> bytes a 4096" "X \<inter> bytes a 8 = {}"
    and cnt: "arena_free_cnt st' a = of_nat (length (filter (in_arena a) l'))"
    and l': "distinct l'" "\<And>b. b \<in> set l' \<Longrightarrow> G (pg_round_down b) = Some (Small i) \<and> slot i (unat (pg_ofs b))"
      "\<And>c. c \<noteq> a \<Longrightarrow> filter (in_arena c) l' = filter (in_arena c) (fl st i)"
  shows "malloc_inv st' G" and "fl st' j = (if j = i then l' else fl st j)"
proof -
  have ok: "arena_ok st a (Small i)"
    using malloc_invD(5) [OF inv a] .
  then have i: "i < 7" and kp: "kernel_page a"
    by (simp_all add: arena_ok_def)
  have len: "i < length (descs st)"
    using malloc_invD(2) [OF inv] i by (simp add: descs_ok_def)
  show fl: "fl st' j = (if j = i then l' else fl st j)" for j
    unfolding st'(3) by (rule fl_upd_desc [OF len])
  have "arena_ok st' c k" if c: "G c = Some k" for c k
  proof (cases "c = a")
    case False
    then have "X \<inter> bytes c 12 = {}"
      using arena_bytes_apart [OF inv c a] mem(2) arena_space(5) [OF inv c] by fastforce
    moreover have "free_in st' j c = free_in st j c" for j
      using fl [of j] l'(3) [OF False] by (simp add: free_in_def)
    ultimately show ?thesis
      using arena_frame [OF malloc_invD(5) [OF inv c] mem(1), of] st'(2,4) malloc_invD(5) [OF inv c] by (simp add: arena_ok_def)
  next
    case True
    note h = header_words [OF kp]
    have "X \<inter> bytes a 4 = {}" "X \<inter> bytes (a + 4) 4 = {}"
      using mem(3) h by auto
    then have "arena_magic st' a = arena_magic st a" "arena_desc st' a = arena_desc st a"
      using only_load32 [OF mem(1)] h by (simp_all add: arena_magic_def arena_desc_def)
    moreover have "desc_ptr st' i = desc_ptr st i"
      using st'(4) by (simp add: desc_ptr_def)
    ultimately show ?thesis
      using True c a ok cnt fl [of i] st'(2) by (auto simp: arena_ok_def free_in_def)
  qed
  moreover have "lists_ok st' G"
    using malloc_invD(3) [OF inv] l'(1,2) fl by (simp add: lists_ok_def)
  moreover have "descs_ok st'"
    using malloc_invD(2) [OF inv] st'(3,4) descs_ok_upd [of st i "\<lambda>_. l'"] by (simp add: descs_ok_def)
  ultimately show "malloc_inv st' G"
    using st'(1) malloc_invD(4) [OF inv] by (simp add: malloc_inv_def)
qed

lemma busy_relist:
  assumes "busy st G E" and "\<And>j. fl st' j = (if j = i then l' else fl st j)"
    and "\<And>c. c \<noteq> a \<Longrightarrow> filter (in_arena c) l' = filter (in_arena c) (fl st i)"
  shows "busy st' G (insert a E)"
  unfolding busy_def
proof (intro allI impI)
  fix c j
  assume c: "G c = Some (Small j)" "c \<notin> insert a E"
  then have "free_in st' j c = free_in st j c"
    using assms(2) [of j] assms(3) [of c] by (simp add: free_in_def)
  then show "free_in st' j c < bpa j"
    using assms(1) c by (simp add: busy_def)
qed

lemma pal_upd_ram: "pal (upd_ram st f) = (pal st)\<lparr>ram := f (ram (pal st))\<rparr>"
  by (simp add: upd_ram_def)

lemma only_free_cnt: "only m (store32 m (a + 8) w) (bytes (a + 8) 4)" "bytes (a + 8) 4 \<subseteq> bytes a 12" "bytes (a + 8) 4 \<inter> bytes a 8 = {}"
  if "kernel_page a"
  using only_store32 [of "a + 8"] header_words [OF that] by auto

text \<open>Taking the first block of a free list.\<close>

lemma pop_block_ok:
  assumes inv: "malloc_inv st G" and i: "i < 7" and b: "fl st i = b # l"
  defines "a \<equiv> pg_round_down b"
  shows "\<exists>st'. pop_block st i = Inr (st', b) \<and> malloc_inv st' G \<and> live st' G = (live st G)(b \<mapsto> bs i) \<and> live st G b = None
     \<and> only (ram (pal st)) (ram (pal st')) (bytes a 12) \<and> G a \<noteq> None \<and> (busy st G {a} \<longrightarrow> busy st' G {})"
proof -
  have s: "G a = Some (Small i)" "slot i (unat (pg_ofs b))" and d: "distinct (b # l)"
    and sl: "\<And>c. c \<in> set l \<Longrightarrow> G (pg_round_down c) = Some (Small i) \<and> slot i (unat (pg_ofs c))"
    using malloc_invD(3) [OF inv] i b unfolding lists_ok_def a_def by (metis list.set_intros)+
  have ok: "arena_ok st a (Small i)"
    using malloc_invD(5) [OF inv s(1)] .
  then have kp: "kernel_page a"
    by (simp add: arena_ok_def)
  define st1 where "st1 = upd_desc st i (\<lambda>_. l)"
  define st' where "st' = set_free_cnt st1 a (arena_free_cnt st1 a - 1)"
  have "block_to_arena st1 b = Inr a"
    using block_to_arena_small [of st1 i b] malloc_invD(2) [OF inv] i ok page_parts(2) [OF kp] s(2)
    by (simp add: st1_def arena_ok_def a_def)
  then have res: "pop_block st i = Inr (st', b)"
    using b by (simp add: pop_block_def Let_def st1_def st'_def)
  have n: "length (filter (in_arena a) (fl st i)) = Suc (length (filter (in_arena a) l))"
    by (simp add: b a_def)
  have o: "filter (in_arena c) l = filter (in_arena c) (fl st i)" if "c \<noteq> a" for c
    using that by (simp add: b a_def)
  have cnt: "arena_free_cnt st' a = of_nat (length (filter (in_arena a) l))"
    using ok n by (simp add: st'_def set_free_cnt_def arena_free_cnt_def st1_def arena_ok_def free_in_def)
  have only: "only (ram (pal st)) (ram (pal st')) (bytes (a + 8) 4)"
    using only_free_cnt(1) [OF kp] by (simp add: st'_def set_free_cnt_def st1_def)
  have X: "bytes (a + 8) 4 \<subseteq> bytes a 4096" "bytes (a + 8) 4 \<inter> bytes a 8 = {}"
    using only_free_cnt(2,3) [OF kp] by auto
  have st': "palloc_ok (pal st')" "kernel_pool (pal st') = kernel_pool (pal st)" "descs st' = descs (upd_desc st i (\<lambda>_. l))"
      "descs_at st' = descs_at st"
    using malloc_invD(1) [OF inv] by (simp_all add: st'_def set_free_cnt_def st1_def)
  note r = relist [OF inv s(1) st' only X cnt _ sl o]
  have inv': "malloc_inv st' G" and fl: "fl st' j = (if j = i then l else fl st j)" for j
    using r d by simp_all
  have "live st' G c = ((live st G)(b \<mapsto> bs i)) c" for c
    using s d fl b unfolding a_def by (auto simp: live_def split: option.splits arena_kind.splits)
  moreover have "live st G b = None"
    using s b unfolding a_def by (simp add: live_def)
  moreover have "busy st' G {}" if "busy st G {a}"
  proof -
    have "free_in st' i a < bpa i"
      using free_in_le(1) [OF inv s(1)] n fl by (simp add: free_in_def)
    then show ?thesis
      using busy_relist [of st G "{a}" st' i l a, OF that fl o] s(1) unfolding busy_def by (metis arena_kind.inject(1) insertE option.inject singletonD)
  qed
  ultimately show ?thesis
    using res inv' only_mono [OF only only_free_cnt(2) [OF kp]] s(1) by blast
qed

text \<open>Putting a block back: the part of \<^verbatim>\<open>free\<close> before the test for an unused arena.\<close>

definition push_block :: "mstate \<Rightarrow> nat \<Rightarrow> addr \<Rightarrow> addr \<Rightarrow> mstate" where
  "push_block st d a p =
     (let st = upd_ram st (\<lambda>m. memset m p 0xcc (unat (desc_block_size (descs st ! d))));
          st = upd_desc st d (\<lambda>l. p # l)
      in set_free_cnt st a (arena_free_cnt st a + 1))"

lemma push_block_ok:
  assumes inv: "malloc_inv st G" and p: "G (pg_round_down p) = Some (Small i)" "slot i (unat (pg_ofs p))" "p \<notin> set (fl st i)"
  defines "a \<equiv> pg_round_down p"
  defines "st' \<equiv> push_block st i a p"
  shows "malloc_inv st' G" and "live st' G = (live st G)(p := None)" and "fl st' i = p # fl st i"
    and "only (ram (pal st)) (ram (pal st')) (bytes a 12 \<union> bytes p (bs i))"
    and "busy st G {} \<Longrightarrow> busy st' G {a}" and "free_in st' i a = Suc (free_in st i a)"
proof -
  have ok: "arena_ok st a (Small i)"
    using malloc_invD(5) [OF inv p(1)] by (simp add: a_def)
  then have i: "i < 7" and kp: "kernel_page a"
    by (simp_all add: arena_ok_def)
  have bsz: "unat (desc_block_size (descs st ! i)) = bs i"
    using malloc_invD(2) [OF inv] i bs_dvd(3) [OF i] by (simp add: descs_ok_def unat_of_nat)
  have up: "unat p = unat a + unat (pg_ofs p)" "12 \<le> unat (pg_ofs p)" "unat (pg_ofs p) + bs i \<le> 4096"
    using addr_parts(1) [of p] p(2) by (simp_all add: a_def slot_def)
  have top: "unat p + bs i \<le> 2 ^ 32"
    using up page_parts(3) [OF kp] by linarith
  let ?X = "bytes (a + 8) 4 \<union> bytes p (bs i)"
  define m1 where "m1 = memset (ram (pal st)) p 0xcc (bs i)"
  have m1: "only (ram (pal st)) m1 (bytes p (bs i))"
    unfolding m1_def by (rule only_memset [OF top])
  have dj: "bytes p (bs i) \<inter> bytes a 12 = {}"
    using up by auto
  have c1: "load32 m1 (a + 8) = arena_free_cnt st a"
    using only_load32 [OF m1, of "a + 8"] dj header_words [OF kp] unfolding arena_free_cnt_def by fastforce
  have ram: "ram (pal st') = store32 m1 (a + 8) (arena_free_cnt st a + 1)"
    using c1 by (simp add: st'_def push_block_def Let_def set_free_cnt_def bsz m1_def arena_free_cnt_def)
  have only: "only (ram (pal st)) (ram (pal st')) ?X"
    using only_trans [OF m1 only_free_cnt(1) [OF kp]] unfolding ram by (simp add: Un_commute)
  have X: "?X \<subseteq> bytes a 4096" "?X \<inter> bytes a 8 = {}"
    using only_free_cnt(2,3) [OF kp] dj up by auto
  have st': "palloc_ok (pal st')" "kernel_pool (pal st') = kernel_pool (pal st)" "descs st' = descs (upd_desc st i (\<lambda>_. p # fl st i))"
      "descs_at st' = descs_at st"
    using malloc_invD(1) [OF inv] by (simp_all add: st'_def push_block_def Let_def set_free_cnt_def upd_desc_def)
  have n: "length (filter (in_arena a) (p # fl st i)) = Suc (free_in st i a)"
    by (simp add: a_def free_in_def)
  have cnt: "arena_free_cnt st' a = of_nat (length (filter (in_arena a) (p # fl st i)))"
    unfolding n using ok ram by (simp add: arena_free_cnt_def arena_ok_def)
  have o: "filter (in_arena c) (p # fl st i) = filter (in_arena c) (fl st i)" if "c \<noteq> a" for c
    using that by (simp add: a_def)
  have d: "distinct (p # fl st i)" "\<And>b. b \<in> set (p # fl st i) \<Longrightarrow> G (pg_round_down b) = Some (Small i) \<and> slot i (unat (pg_ofs b))"
    using malloc_invD(3) [OF inv] i p by (auto simp: lists_ok_def)
  note r = relist [OF inv p(1) [folded a_def] st' only X cnt d o]
  show "malloc_inv st' G"
    by (rule r(1))
  have fl: "fl st' j = (if j = i then p # fl st i else fl st j)" for j
    by (rule r(2))
  then show "fl st' i = p # fl st i" "free_in st' i a = Suc (free_in st i a)"
    using n by (simp_all add: free_in_def)
  show "live st' G = (live st G)(p := None)"
    using p fl by (auto simp: live_def fun_eq_iff split: option.splits arena_kind.splits)
  show "only (ram (pal st)) (ram (pal st')) (bytes a 12 \<union> bytes p (bs i))"
    by (rule only_mono [OF only]) (use only_free_cnt(2) [OF kp] in auto)
  show "busy st' G {a}" if "busy st G {}"
    by (rule busy_relist [OF that fl o])
qed

text \<open>The pool of kernel pages, as the page allocator's lemmas describe it.\<close>

lemma kernel_pool_get: "get_pool 0 p = kernel_pool p" "other_pool 0 p = user_pool p"
  by (simp_all add: get_pool_def other_pool_def)

lemma page_index:
  assumes "palloc_ok p" and "kernel_page a" and "{pno a..<pno a + n} \<subseteq> pool_used (kernel_pool p)" and "0 < n"
  obtains idx where "a = base (kernel_pool p) + PGSIZE * idx" and "unat idx + n \<le> pool_size (kernel_pool p)"
    and "{unat idx..<unat idx + n} \<subseteq> used_bits (used_map (kernel_pool p))" and "pno a = pno (base (kernel_pool p)) + unat idx"
proof -
  let ?k = "kernel_pool p"
  have ok: "pool_ok ?k"
    using assms(1) by (simp add: palloc_ok_def)
  define j where "j = pno a - pno (base ?k)"
  have used: "\<exists>i\<in>used_bits (used_map ?k). x = pno (base ?k) + i" if "x \<in> {pno a..<pno a + n}" for x
    using assms(3) that by (auto simp: pool_used_def)
  have j: "pno a = pno (base ?k) + j"
    using used [of "pno a"] assms(4) by (auto simp: j_def)
  have sub: "{j..<j + n} \<subseteq> used_bits (used_map ?k)"
  proof
    fix x
    assume "x \<in> {j..<j + n}"
    then have "pno (base ?k) + x \<in> {pno a..<pno a + n}"
      using j by simp
    then show "x \<in> used_bits (used_map ?k)"
      using used by fastforce
  qed
  have "j + n - 1 \<in> used_bits (used_map ?k)"
    using sub assms(4) by auto
  then have le: "j + n \<le> pool_size ?k"
    by (auto simp: used_bits_def pool_size_def)
  define idx where "idx = (of_nat j :: u32)"
  have idx: "unat idx = j"
    using le unat_less_size [of "bit_cnt (used_map ?k)"] by (simp add: idx_def pool_size_def unat_of_nat)
  have lt: "unat idx < pool_size ?k"
    using idx le assms(4) by simp
  note pa = page_address [OF ok lt]
  have "unat a = unat (base ?k + PGSIZE * idx)"
    using page_parts(1) [OF assms(2)] j idx ok unfolding pa(1) by (auto simp: pool_ok_def pg_ofs_zero_iff unat_pg_no)
  then have "a = base ?k + PGSIZE * idx"
    by (simp only: word_unat_eq_iff)
  then show thesis
    using that [of idx] idx le sub j by simp
qed

lemma free_pages_ok:
  assumes ok: "palloc_ok p" and a: "kernel_page a" and n: "0 < n" "n < 2 ^ 20" and used: "{pno a..<pno a + n} \<subseteq> pool_used (kernel_pool p)"
  shows "\<exists>p'. palloc_free_multiple p a (of_nat n) = Inr p' \<and> palloc_ok p' \<and> pool_used (kernel_pool p') = pool_used (kernel_pool p) - {pno a..<pno a + n}
     \<and> user_pool p' = user_pool p \<and> ram p' = memset (ram p) a 0xcc (4096 * n)"
proof -
  let ?k = "kernel_pool p"
  have un: "unat (of_nat n :: u32) = n" "unat (PGSIZE * of_nat n) = 4096 * n" "(of_nat n :: u32) \<noteq> 0"
  proof -
    show u: "unat (of_nat n :: u32) = n" "unat (PGSIZE * of_nat n) = 4096 * n"
      using n by (simp_all add: unat_of_nat unat_word_ariths)
    show "(of_nat n :: u32) \<noteq> 0"
      using u(1) n(1) by auto
  qed
  obtain idx where idx: "a = base ?k + PGSIZE * idx" "unat idx + n \<le> pool_size ?k" "{unat idx..<unat idx + n} \<subseteq> used_bits (used_map ?k)"
      "pno a = pno (base ?k) + unat idx"
    using page_index [OF ok a used n(1)] by blast
  from free_multiple_ok [OF ok, of idx "of_nat n" 0] idx un
  obtain p' where p': "palloc_free_multiple p a (of_nat n) = Inr p'" "palloc_ok p'" "user_pool p' = user_pool p" "base (kernel_pool p') = base ?k"
      "used_bits (used_map (kernel_pool p')) = used_bits (used_map ?k) - {unat idx..<unat idx + n}" "ram p' = memset (ram p) a 0xcc (4096 * n)"
    by (auto simp: kernel_pool_get)
  have "pool_used (kernel_pool p') = pool_used ?k - {pno a..<pno a + n}"
    unfolding pool_used_def p'(4,5) idx(4) by (force simp: image_iff)
  then show ?thesis
    using p' by blast
qed

section \<open>A new arena\<close>

lemma pages_bytes_apart:
  assumes "unat a = 4096 * pno a" and "unat c = 4096 * pno c" and "arena_pages a k \<inter> arena_pages c l = {}"
  shows "arena_bytes a k \<inter> arena_bytes c l = {}"
  using arena_bytes_page [OF assms(1)] arena_bytes_page [OF assms(2)] assms(3) by blast

definition new_blocks :: "addr \<Rightarrow> arena_kind \<Rightarrow> nat \<Rightarrow> addr list" where
  "new_blocks a k j = (if k = Small j then map (blk a j) [0..<bpa j] else [])"

text \<open>\<open>st'\<close> is \<open>st\<close> with a new arena at \<open>a\<close>, on pages that were free, its blocks at the end of the free list.\<close>

definition grown :: "mstate \<Rightarrow> arenas \<Rightarrow> mstate \<Rightarrow> addr \<Rightarrow> arena_kind \<Rightarrow> bool" where
  "grown st G st' a k \<longleftrightarrow> malloc_inv st G \<and> kernel_page a \<and> kind_ok k \<and> arena_pages a k \<inter> pool_used (kernel_pool (pal st)) = {}
     \<and> palloc_ok (pal st') \<and> pool_used (kernel_pool (pal st')) = pool_used (kernel_pool (pal st)) \<union> arena_pages a k
     \<and> descs_ok st' \<and> descs_at st' = descs_at st \<and> only (ram (pal st)) (ram (pal st')) (arena_bytes a k) \<and> header_ok st' a k
     \<and> (\<forall>j<7. fl st' j = fl st j @ new_blocks a k j)"

lemma grownD:
  assumes "grown st G st' a k"
  shows "malloc_inv st G" "kernel_page a" "kind_ok k" "j < 7 \<Longrightarrow> fl st' j = fl st j @ new_blocks a k j"
    and "G c = Some l \<Longrightarrow> arena_pages a k \<inter> arena_pages c l = {}" and "G a = None"
proof -
  show inv: "malloc_inv st G" and a: "kernel_page a" "kind_ok k" and "j < 7 \<Longrightarrow> fl st' j = fl st j @ new_blocks a k j"
    using assms by (simp_all add: grown_def)
  show dj: "arena_pages a k \<inter> arena_pages c l = {}" if "G c = Some l" for c l
    using malloc_invD(5) [OF inv that] assms unfolding arena_ok_def grown_def by blast
  show "G a = None"
  proof (rule ccontr)
    assume "G a \<noteq> None"
    then obtain l where l: "G a = Some l"
      by auto
    then have "0 < kind_pages l"
      by (rule arena_space(2) [OF inv])
    then have "pno a \<in> arena_pages a k \<inter> arena_pages a l"
      using kind_pages_pos [OF a(2)] by (simp add: arena_pages_def)
    then show False
      using dj [OF l] by blast
  qed
qed

lemma new_blocks_arena:
  assumes "grown st G st' a k" and "b \<in> set (new_blocks a k j)"
  shows "in_arena a b" and "k = Small j" and "slot j (unat (pg_ofs b))"
proof -
  show k: "k = Small j"
    using assms(2) by (simp add: new_blocks_def split: if_splits)
  then have "b \<in> blk a j ` {0..<bpa j}" "j < 7"
    using assms(2) grownD(3) [OF assms(1)] by (auto simp: new_blocks_def)
  then show "in_arena a b" and "slot j (unat (pg_ofs b))"
    using blk_image(2) [OF grownD(2) [OF assms(1)]] by blast+
qed

lemma old_blocks_arena:
  assumes "grown st G st' a k" and "b \<in> set (fl st j)" and "j < 7"
  shows "\<not> in_arena a b"
  using malloc_invD(3) [OF grownD(1) [OF assms(1)]] assms(2,3) grownD(6) [OF assms(1)] by (auto simp: lists_ok_def)

lemma grown_free_in:
  assumes g: "grown st G st' a k" and "c \<noteq> a" and "j < 7"
  shows "free_in st' j c = free_in st j c"
proof -
  have "filter (in_arena c) (new_blocks a k j) = []"
    using new_blocks_arena(1) [OF g] assms(2) by (auto simp: filter_empty_conv)
  then show ?thesis
    using grownD(4) [OF g assms(3)] by (simp add: free_in_def)
qed

lemma grown_arenas:
  assumes g: "grown st G st' a k" and c: "(G(a \<mapsto> k)) c = Some l"
  shows "arena_ok st' c l"
proof (cases "c = a")
  case True
  then show ?thesis
    using c g by (auto simp: arena_ok_def grown_def)
next
  case False
  then have gc: "G c = Some l"
    using c by simp
  note inv = grownD(1) [OF g]
  have "arena_bytes a k \<inter> arena_bytes c l = {}"
    using pages_bytes_apart [OF page_parts(1) [OF grownD(2) [OF g]] arena_space(4) [OF inv gc] grownD(5) [OF g gc]] .
  then have "arena_bytes a k \<inter> bytes c 12 = {}"
    using arena_space(5) [OF inv gc] by fastforce
  moreover have "free_in st' i c = free_in st i c" if "l = Small i" for i
    using grown_free_in [OF g False] malloc_invD(5) [OF inv gc] that by (simp add: arena_ok_def)
  moreover have "arena_pages c l \<subseteq> pool_used (kernel_pool (pal st'))"
    using malloc_invD(5) [OF inv gc] g unfolding grown_def arena_ok_def by blast
  ultimately show ?thesis
    using arena_frame [OF malloc_invD(5) [OF inv gc], of st'] g unfolding grown_def by blast
qed

lemma grown_lists:
  assumes g: "grown st G st' a k"
  shows "lists_ok st' (G(a \<mapsto> k))"
  unfolding lists_ok_def
proof (intro allI impI conjI ballI)
  fix j b
  assume j: "j < (7 :: nat)"
  have l: "distinct (fl st j)" "\<And>b. b \<in> set (fl st j) \<Longrightarrow> G (pg_round_down b) = Some (Small j) \<and> slot j (unat (pg_ofs b))"
    using malloc_invD(3) [OF grownD(1) [OF g]] j by (simp_all add: lists_ok_def)
  have "set (fl st j) \<inter> set (new_blocks a k j) = {}"
    using old_blocks_arena [OF g _ j] new_blocks_arena(1) [OF g] by fast
  moreover have "distinct (new_blocks a k j)"
    using blk_image(1) [OF grownD(2) [OF g] j] by (simp add: new_blocks_def distinct_map)
  ultimately show "distinct (fl st' j)"
    using l(1) grownD(4) [OF g j] by simp
  assume "b \<in> set (fl st' j)"
  then consider "b \<in> set (fl st j)" | "b \<in> set (new_blocks a k j)"
    using grownD(4) [OF g j] by auto
  then show "(G(a \<mapsto> k)) (pg_round_down b) = Some (Small j)" and "slot j (unat (pg_ofs b))"
    using l(2) old_blocks_arena [OF g _ j, of b] new_blocks_arena [OF g, of b j] by (cases; simp)+
qed

lemma grown_inv:
  assumes g: "grown st G st' a k"
  shows "malloc_inv st' (G(a \<mapsto> k))"
proof -
  have "apart (G(a \<mapsto> k))"
    using malloc_invD(4) [OF grownD(1) [OF g]] grownD(5) [OF g] unfolding apart_def by (auto simp: Int_commute split: if_splits)
  then show ?thesis
    using grown_arenas [OF g] grown_lists [OF g] g unfolding malloc_inv_def grown_def by blast
qed

lemma grown_busy:
  assumes g: "grown st G st' a k" and bz: "busy st G {}"
  shows "busy st' (G(a \<mapsto> k)) {a}"
  unfolding busy_def
proof (intro allI impI)
  fix c i
  assume c: "(G(a \<mapsto> k)) c = Some (Small i)" "c \<notin> {a}"
  then have gc: "G c = Some (Small i)"
    by simp
  then have "i < 7" "free_in st i c < bpa i"
    using malloc_invD(5) [OF grownD(1) [OF g] gc] bz by (auto simp: arena_ok_def busy_def)
  then show "free_in st' i c < bpa i"
    using grown_free_in [OF g, of c i] c(2) by simp
qed

lemma block_12:
  assumes "kernel_page a"
  shows "b = a + 12 \<longleftrightarrow> in_arena a b \<and> pg_ofs b = 12"
proof
  assume "b = a + 12"
  then have "in_arena a b" "unat (pg_ofs b) = unat (12 :: u32)"
    using in_page(2,3) [OF assms, of 12] by simp_all
  then show "in_arena a b \<and> pg_ofs b = 12"
    by (simp only: word_unat_eq_iff)
next
  assume "in_arena a b \<and> pg_ofs b = 12"
  then have "unat b = unat (a + 12)"
    using addr_parts(1) [of b] in_page(1) [OF assms, of 12] by simp
  then show "b = a + 12"
    by (simp add: word_unat_eq_iff)
qed

lemma grown_live:
  assumes g: "grown st G st' a k"
  shows "live st' (G(a \<mapsto> k)) = (case k of Small i \<Rightarrow> live st G | Big n \<Rightarrow> (live st G)(a + 12 \<mapsto> 4096 * n - 12))"
proof
  fix b
  show "live st' (G(a \<mapsto> k)) b = (case k of Small i \<Rightarrow> live st G | Big n \<Rightarrow> (live st G)(a + 12 \<mapsto> 4096 * n - 12)) b"
  proof (cases "in_arena a b")
    case True
    have "live st G b = None"
      using True grownD(6) [OF g] by (simp add: live_def)
    moreover have "b \<in> set (fl st' i)" if "slot i (unat (pg_ofs b))" "k = Small i" for i
      using that True grownD(3,4) [OF g] blk_image(2) [OF grownD(2) [OF g]] by (simp add: new_blocks_def)
    ultimately show ?thesis
      using True block_12 [OF grownD(2) [OF g], of b] by (cases k) (auto simp: live_def)
  next
    case False
    have "b \<in> set (fl st' j) \<longleftrightarrow> b \<in> set (fl st j)" if "j < 7" for j
      using grownD(4) [OF g that] new_blocks_arena(1) [OF g, of b j] False by auto
    moreover have "i < 7" if "G (pg_round_down b) = Some (Small i)" for i
      using malloc_invD(5) [OF grownD(1) [OF g] that] by (simp add: arena_ok_def)
    ultimately show ?thesis
      using False block_12 [OF grownD(2) [OF g], of b] by (auto simp: live_def split: option.splits arena_kind.splits)
  qed
qed

section \<open>Releasing an arena\<close>

definition shrunk :: "mstate \<Rightarrow> arenas \<Rightarrow> mstate \<Rightarrow> addr \<Rightarrow> arena_kind \<Rightarrow> bool" where
  "shrunk st G st' a k \<longleftrightarrow> malloc_inv st G \<and> G a = Some k \<and> palloc_ok (pal st')
     \<and> pool_used (kernel_pool (pal st')) = pool_used (kernel_pool (pal st)) - arena_pages a k
     \<and> descs_ok st' \<and> descs_at st' = descs_at st \<and> only (ram (pal st)) (ram (pal st')) (arena_bytes a k)
     \<and> (\<forall>j<7. fl st' j = filter (\<lambda>b. \<not> in_arena a b) (fl st j))"

lemma shrunk_free_in:
  assumes "shrunk st G st' a k" and "c \<noteq> a" and "j < 7"
  shows "free_in st' j c = free_in st j c"
proof -
  have "filter (in_arena c) (filter (\<lambda>b. \<not> in_arena a b) (fl st j)) = filter (in_arena c) (fl st j)"
    unfolding filter_filter using assms(2) by (auto intro: filter_cong)
  then show ?thesis
    using assms(1,3) by (simp add: shrunk_def free_in_def)
qed

lemma shrunk_inv:
  assumes s: "shrunk st G st' a k"
  shows "malloc_inv st' (G(a := None))"
proof -
  have inv: "malloc_inv st G" and a: "G a = Some k"
    using s by (simp_all add: shrunk_def)
  have "arena_ok st' c l" if c: "(G(a := None)) c = Some l" for c l
  proof -
    have gc: "G c = Some l" "c \<noteq> a"
      using c by (simp_all split: if_splits)
    have "arena_pages a k \<inter> arena_pages c l = {}"
      using malloc_invD(4) [OF inv] a gc unfolding apart_def by metis
    then have "arena_pages c l \<subseteq> pool_used (kernel_pool (pal st'))"
      using malloc_invD(5) [OF inv gc(1)] s unfolding shrunk_def arena_ok_def by blast
    moreover have "arena_bytes a k \<inter> bytes c 12 = {}"
      using arena_bytes_apart [OF inv a gc(1)] gc(2) arena_space(5) [OF inv gc(1)] by fastforce
    moreover have "free_in st' i c = free_in st i c" if "l = Small i" for i
      using shrunk_free_in [OF s gc(2)] malloc_invD(5) [OF inv gc(1)] that by (simp add: arena_ok_def)
    ultimately show ?thesis
      using arena_frame [OF malloc_invD(5) [OF inv gc(1)], of st'] s unfolding shrunk_def by blast
  qed
  moreover have "lists_ok st' (G(a := None))"
    using malloc_invD(3) [OF inv] s by (auto simp: lists_ok_def shrunk_def)
  moreover have "apart (G(a := None))"
    using malloc_invD(4) [OF inv] unfolding apart_def by (auto split: if_splits)
  ultimately show ?thesis
    using s by (simp add: malloc_inv_def shrunk_def)
qed

lemma shrunk_busy:
  assumes s: "shrunk st G st' a k" and bz: "busy st G {a}"
  shows "busy st' (G(a := None)) {}"
  unfolding busy_def
proof (intro allI impI)
  fix c i
  assume "(G(a := None)) c = Some (Small i)"
  then have c: "G c = Some (Small i)" "c \<noteq> a"
    by (simp_all split: if_splits)
  then have "i < 7" "free_in st i c < bpa i"
    using malloc_invD(5) [of st G c] s bz by (auto simp: arena_ok_def busy_def shrunk_def)
  then show "free_in st' i c < bpa i"
    using shrunk_free_in [OF s c(2)] by simp
qed

lemma shrunk_live:
  assumes s: "shrunk st G st' a k"
  shows "live st' (G(a := None)) b = (if in_arena a b then None else live st G b)"
proof -
  have "i < 7" if "G (pg_round_down b) = Some (Small i)" for i
    using malloc_invD(5) [of st G "pg_round_down b"] that s by (simp add: arena_ok_def shrunk_def)
  then show ?thesis
    using s by (auto simp: live_def shrunk_def split: option.splits arena_kind.splits)
qed

section \<open>Allocation\<close>

text \<open>No run of \<open>n\<close> kernel pages is free.\<close>

definition no_room :: "palloc \<Rightarrow> nat \<Rightarrow> bool" where
  "no_room p n \<longleftrightarrow> (\<forall>i. i + n \<le> pool_size (kernel_pool p) \<longrightarrow> {i..<i + n} \<inter> used_bits (used_map (kernel_pool p)) \<noteq> {})"

lemma kernel_alloc [consumes 3, case_names got full]:
  assumes ok: "palloc_ok p" and n: "0 < n" "n < 2 ^ 32"
  obtains (got) p' a where "palloc_get_multiple p 0 (of_nat n) = Some (Inr (p', a))" and "palloc_ok p'" and "kernel_page a"
      and "{pno a..<pno a + n} \<inter> pool_used (kernel_pool p) = {}"
      and "pool_used (kernel_pool p') = pool_used (kernel_pool p) \<union> {pno a..<pno a + n}" and "ram p' = ram p"
  | (full) "palloc_get_multiple p 0 (of_nat n) = Some (Inr (p, 0))" and "no_room p n"
proof -
  let ?k = "kernel_pool p"
  have un: "unat (of_nat n :: u32) = n"
    using n(2) by (simp add: unat_of_nat)
  then have nz: "(of_nat n :: u32) \<noteq> 0"
    using n(1) by auto
  have pok: "pool_ok ?k"
    using ok by (simp add: palloc_ok_def)
  show thesis
  proof (cases "no_room p n")
    case True
    then have "palloc_get_multiple p 0 (of_nat n) = Some (Inr (p, 0))"
      using get_multiple_miss [OF ok nz, of 0] un by (simp add: no_room_def kernel_pool_get)
    then show thesis
      using full True by blast
  next
    case False
    then obtain i where i: "i + n \<le> pool_size ?k" "{i..<i + n} \<inter> used_bits (used_map ?k) = {}"
      unfolding no_room_def by blast
    obtain p' idx where g: "palloc_get_multiple p 0 (of_nat n) = Some (Inr (p', base ?k + PGSIZE * idx))" "palloc_ok p'"
        "base (kernel_pool p') = base ?k" "unat idx + n \<le> pool_size ?k" "{unat idx..<unat idx + n} \<inter> used_bits (used_map ?k) = {}"
        "used_bits (used_map (kernel_pool p')) = used_bits (used_map ?k) \<union> {unat idx..<unat idx + n}" "ram p' = ram p"
      using get_multiple_hit [OF ok nz, of i 0] i un by (auto simp: kernel_pool_get)
    have lt: "unat idx < pool_size ?k"
      using g(4) n(1) by simp
    note pa = page_address [OF pok lt]
    show thesis
    proof (rule got [OF g(1,2) _ _ _ g(7)])
      show "kernel_page (base ?k + PGSIZE * idx)"
        using pa(3,4) by (simp add: kernel_page_def)
      show "{pno (base ?k + PGSIZE * idx)..<pno (base ?k + PGSIZE * idx) + n} \<inter> pool_used ?k = {}"
        unfolding pa(2) pool_used_def using g(5) by force
      show "pool_used (kernel_pool p') = pool_used ?k \<union> {pno (base ?k + PGSIZE * idx)..<pno (base ?k + PGSIZE * idx) + n}"
        unfolding pa(2) pool_used_def g(3,6) by (auto simp: image_Un image_add_atLeastLessThan add.commute)
    qed
  qed
qed

lemma set_arena_header:
  assumes "kernel_page a"
  shows "arena_magic (set_arena st a d n) a = ARENA_MAGIC" and "arena_desc (set_arena st a d n) a = d"
    and "arena_free_cnt (set_arena st a d n) a = n" and "only (ram (pal st)) (ram (pal (set_arena st a d n))) (bytes a 12)"
proof -
  note h = header_words [OF assms]
  define m where "m = ram (pal st)"
  define m1 where "m1 = store32 m a ARENA_MAGIC"
  define m2 where "m2 = store32 m1 (a + 4) d"
  define m3 where "m3 = store32 m2 (a + 8) n"
  have o: "only m m1 (bytes a 4)" "only m1 m2 (bytes (a + 4) 4)" "only m2 m3 (bytes (a + 8) 4)"
    unfolding m1_def m2_def m3_def by (rule only_store32, use h in simp)+
  have ram: "ram (pal (set_arena st a d n)) = m3"
    by (simp add: set_arena_def m_def m1_def m2_def m3_def)
  have "load32 m3 a = load32 m2 a" "load32 m2 a = load32 m1 a" "load32 m3 (a + 4) = load32 m2 (a + 4)"
    using only_load32 [OF o(3), of a] only_load32 [OF o(2), of a] only_load32 [OF o(3), of "a + 4"] h by auto
  then show "arena_magic (set_arena st a d n) a = ARENA_MAGIC" and "arena_desc (set_arena st a d n) a = d"
    and "arena_free_cnt (set_arena st a d n) a = n"
    unfolding arena_magic_def arena_desc_def arena_free_cnt_def ram by (simp_all add: m1_def m2_def m3_def)
  have "only m m3 (bytes a 4 \<union> bytes (a + 4) 4 \<union> bytes (a + 8) 4)"
    using only_trans [OF only_trans [OF o(1,2)] o(3)] .
  then show "only (ram (pal st)) (ram (pal (set_arena st a d n))) (bytes a 12)"
    unfolding ram m_def [symmetric] by (rule only_mono) (use h in auto)
qed

lemma set_arena_simps [simp]:
  "descs (set_arena st a d n) = descs st" "descs_at (set_arena st a d n) = descs_at st"
  "kernel_pool (pal (set_arena st a d n)) = kernel_pool (pal st)" "palloc_ok (pal (set_arena st a d n)) = palloc_ok (pal st)"
  "descs_ok (set_arena st a d n) = descs_ok st" "desc_ptr (set_arena st a d n) i = desc_ptr st i"
  by (simp_all add: set_arena_def)

lemma arena_header_bytes: "kind_ok k \<Longrightarrow> bytes a 12 \<subseteq> arena_bytes a k"
  using kind_pages_pos [of k] by (cases "kind_pages k") auto

lemma grown_big:
  assumes inv: "malloc_inv st G" and n: "0 < n" and a: "kernel_page a" "{pno a..<pno a + n} \<inter> pool_used (kernel_pool (pal st)) = {}"
    and p': "palloc_ok p'" "pool_used (kernel_pool p') = pool_used (kernel_pool (pal st)) \<union> {pno a..<pno a + n}" "ram p' = ram (pal st)"
  shows "grown st G (set_arena (st\<lparr>pal := p'\<rparr>) a 0 (of_nat n)) a (Big n)"
proof -
  note h = set_arena_header [OF a(1), of "st\<lparr>pal := p'\<rparr>" 0 "of_nat n"]
  have "only (ram (pal st)) (ram (pal (set_arena (st\<lparr>pal := p'\<rparr>) a 0 (of_nat n)))) (arena_bytes a (Big n))"
    using only_mono [OF h(4) arena_header_bytes [of "Big n" a]] n p'(3) by simp
  then show ?thesis
    using assms h(1-3) malloc_invD(2) [OF inv] by (simp add: grown_def arena_pages_def new_blocks_def)
qed

lemma new_arena_ok:
  assumes inv: "malloc_inv st G" and i: "i < 7" and empty: "fl st i = []" and a: "kernel_page a" "pno a \<notin> pool_used (kernel_pool (pal st))"
    and p': "palloc_get_page (pal st) 0 = Some (Inr (p', a))" "palloc_ok p'" "pool_used (kernel_pool p') = insert (pno a) (pool_used (kernel_pool (pal st)))"
      "ram p' = ram (pal st)"
  shows "\<exists>st'. new_arena st i = Some (Inr (st', True)) \<and> grown st G st' a (Small i) \<and> fl st' i = map (blk a i) [0..<bpa i]"
proof -
  define st1 where "st1 = set_arena (st\<lparr>pal := p'\<rparr>) a (desc_ptr st i) (of_nat (bpa i))"
  define st' where "st' = upd_desc st1 i (\<lambda>l. l @ map (blk a i) [0..<bpa i])"
  note h = set_arena_header [OF a(1), of "st\<lparr>pal := p'\<rparr>" "desc_ptr st i" "of_nat (bpa i)", folded st1_def]
  have nz: "a \<noteq> 0"
    by (rule page_parts(2) [OF a(1)])
  have dk: "descs_ok st1" "descs st1 = descs st" "descs_at st1 = descs_at st" "desc_ptr st1 i = desc_ptr st i"
    using malloc_invD(2) [OF inv] by (simp_all add: st1_def)
  have len: "i < length (descs st1)"
    using dk(1) i by (simp add: descs_ok_def)
  have n: "blocks_per_arena (descs st ! i) = of_nat (bpa i)"
    using malloc_invD(2) [OF inv] i by (simp add: descs_ok_def)
  have "add_blocks st1 i a (of_nat (bpa i)) 0 = Inr st'"
    using add_blocks_ok [of st1 i a 0] dk i h nz by (simp add: st'_def)
  then have res: "new_arena st i = Some (Inr (st', True))"
    using p'(1) nz n by (simp add: new_arena_def Let_def st1_def)
  have fl: "fl st' j = fl st j @ new_blocks a (Small i) j" for j
    using fl_upd_desc [OF len, of "\<lambda>l. l @ map (blk a i) [0..<bpa i]" j] dk(2) by (auto simp: st'_def new_blocks_def)
  have f: "free_in st' i a = bpa i"
    using fl [of i] empty blk_slot(1) [OF a(1) i] by (simp add: free_in_def new_blocks_def filter_map comp_def)
  have "only (ram (pal st)) (ram (pal st')) (arena_bytes a (Small i))"
    using only_mono [OF h(4) arena_header_bytes [of "Small i" a]] i p'(4) by (simp add: st'_def)
  moreover have "header_ok st' a (Small i)"
    using h(1-3) f dk(4) by (simp add: st'_def)
  ultimately have "grown st G st' a (Small i)"
    using inv a i p'(2,3) dk fl by (simp add: grown_def arena_pages_def st'_def) (simp add: st1_def)
  then show ?thesis
    using res fl [of i] empty by (simp add: new_blocks_def)
qed

lemma find_desc_spec:
  "find_desc ds n \<le> length ds" "find_desc ds n < length ds \<Longrightarrow> n \<le> desc_block_size (ds ! find_desc ds n)"
  "j < find_desc ds n \<Longrightarrow> desc_block_size (ds ! j) < n"
proof -
  show "find_desc ds n \<le> length ds" "find_desc ds n < length ds \<Longrightarrow> n \<le> desc_block_size (ds ! find_desc ds n)"
    by (induction ds) auto
  show "j < find_desc ds n \<Longrightarrow> desc_block_size (ds ! j) < n"
    by (induction ds arbitrary: j) (auto simp: nth_Cons' split: if_splits)
qed

text \<open>Blocks in use are apart from arena headers and from pages that are not in use.\<close>

lemma live_header:
  assumes inv: "malloc_inv st G" and a: "G a = Some k" and b: "live st G b = Some c"
  shows "bytes a 12 \<inter> bytes b c = {}"
proof -
  obtain l where l: "G (pg_round_down b) = Some l" "unat (pg_round_down b) + 12 \<le> unat b"
      "unat b + c \<le> unat (pg_round_down b) + 4096 * kind_pages l"
    using live_arena [OF inv b] by blast
  show ?thesis
  proof (cases "pg_round_down b = a")
    case True
    then show ?thesis
      using l(2) by auto
  next
    case False
    have "bytes b c \<subseteq> arena_bytes (pg_round_down b) l" "bytes a 12 \<subseteq> arena_bytes a k"
      using l arena_space(5) [OF inv a] by auto
    then show ?thesis
      using arena_bytes_apart [OF inv l(1) a False] by blast
  qed
qed

lemma live_unused:
  assumes inv: "malloc_inv st G" and a: "kernel_page a" "arena_pages a k \<inter> pool_used (kernel_pool (pal st)) = {}" and b: "live st G b = Some c"
  shows "arena_bytes a k \<inter> bytes b c = {}"
proof -
  obtain l where l: "G (pg_round_down b) = Some l" "unat (pg_round_down b) + 12 \<le> unat b"
      "unat b + c \<le> unat (pg_round_down b) + 4096 * kind_pages l"
    using live_arena [OF inv b] by blast
  have "arena_pages a k \<inter> arena_pages (pg_round_down b) l = {}"
    using malloc_invD(5) [OF inv l(1)] a(2) unfolding arena_ok_def by blast
  then have "arena_bytes a k \<inter> arena_bytes (pg_round_down b) l = {}"
    by (rule pages_bytes_apart [OF page_parts(1) [OF a(1)] arena_space(4) [OF inv l(1)]])
  moreover have "bytes b c \<subseteq> arena_bytes (pg_round_down b) l"
    using l by auto
  ultimately show ?thesis
    by blast
qed

text \<open>Memory changes only outside the blocks in use.\<close>

definition keeps :: "mstate \<Rightarrow> mstate \<Rightarrow> (addr \<Rightarrow> nat option) \<Rightarrow> bool" where
  "keeps st st' L \<longleftrightarrow> (\<exists>X. only (ram (pal st)) (ram (pal st')) X \<and> (\<forall>b c. L b = Some c \<longrightarrow> X \<inter> bytes b c = {}))"

lemma keeps_refl [simp]: "keeps st st L"
  unfolding keeps_def by (rule exI [of _ "{}"]) simp

lemma keepsI: "only (ram (pal st)) (ram (pal st')) X \<Longrightarrow> (\<And>b c. L b = Some c \<Longrightarrow> X \<inter> bytes b c = {}) \<Longrightarrow> keeps st st' L"
  unfolding keeps_def by blast

lemma keeps_trans:
  assumes "keeps st st' L" and "keeps st' st'' L"
  shows "keeps st st'' L"
proof -
  obtain X Y where X: "only (ram (pal st)) (ram (pal st')) X" "\<forall>b c. L b = Some c \<longrightarrow> X \<inter> bytes b c = {}"
    and Y: "only (ram (pal st')) (ram (pal st'')) Y" "\<forall>b c. L b = Some c \<longrightarrow> Y \<inter> bytes b c = {}"
    using assms unfolding keeps_def by blast
  show ?thesis
    by (rule keepsI [OF only_trans [OF X(1) Y(1)]]) (simp add: X(2) Y(2) Int_Un_distrib2)
qed

text \<open>The state of the allocator represents the blocks in use and their sizes.\<close>

definition malloc_rel :: "mstate \<Rightarrow> (addr \<Rightarrow> nat option) \<Rightarrow> bool" where
  "malloc_rel st L \<longleftrightarrow> (\<exists>G. malloc_inv st G \<and> busy st G {} \<and> L = live st G)"

text \<open>What \<^verbatim>\<open>malloc\<close> does when it gets a block, and the number of pages it asks for.\<close>

definition new_live :: "mstate \<Rightarrow> (addr \<Rightarrow> nat option) \<Rightarrow> u32 \<Rightarrow> mstate \<Rightarrow> addr \<Rightarrow> bool" where
  "new_live st L n st' p \<longleftrightarrow> p \<noteq> 0 \<and> L p = None \<and> (\<exists>c. unat n \<le> c \<and> malloc_rel st' (L(p \<mapsto> c))) \<and> keeps st st' L"

lemma block_nonzero:
  assumes "malloc_inv st G" and "live st G b = Some c"
  shows "b \<noteq> 0"
  using live_arena [OF assms] by (metis add_is_0 le_zero_eq unat_0 zero_neq_numeral)

lemma pop_new_live:
  assumes inv: "malloc_inv st G" and i: "i < 7" and b: "fl st i = b # l" and bz: "busy st G {pg_round_down b}" and n: "unat n \<le> bs i"
  shows "\<exists>st'. pop_block st i = Inr (st', b) \<and> new_live st (live st G) n st' b"
proof -
  obtain st' where st': "pop_block st i = Inr (st', b)" "malloc_inv st' G" "live st' G = (live st G)(b \<mapsto> bs i)" "live st G b = None"
      "only (ram (pal st)) (ram (pal st')) (bytes (pg_round_down b) 12)" "G (pg_round_down b) \<noteq> None" "busy st' G {}"
    using pop_block_ok [OF inv i b] bz by blast
  have "keeps st st' (live st G)"
    using live_header [OF inv] st'(6) by (intro keepsI [OF st'(5)]) blast
  moreover have "b \<noteq> 0"
    using block_nonzero [OF st'(2), of b "bs i"] st'(3) by simp
  moreover have "malloc_rel st' ((live st G)(b \<mapsto> bs i))"
    using st'(2,3,7) unfolding malloc_rel_def by metis
  ultimately show ?thesis
    using st'(1,4) n unfolding new_live_def by blast
qed

lemma grown_keeps: "grown st G st' a k \<Longrightarrow> keeps st st' (live st G)"
  using live_unused [of st G a k] unfolding grown_def by (intro keepsI) blast+

lemma malloc_small:
  assumes inv: "malloc_inv st G" and bz: "busy st G {}" and n: "n \<noteq> 0" "find_desc (descs st) n < length (descs st)"
  shows "\<exists>st' p. malloc st n = Some (Inr (st', p)) \<and> (if p = 0 then st' = st \<and> no_room (pal st) 1 else new_live st (live st G) n st' p)"
proof -
  define i where "i = find_desc (descs st) n"
  have i: "i < 7" "n \<le> of_nat (bs i)"
    using n(2) find_desc_spec(2) [of "descs st" n] malloc_invD(2) [OF inv] by (simp_all add: i_def descs_ok_def)
  have le: "unat n \<le> bs i"
    using i(2) bs_dvd(3) [OF i(1)] by (simp add: word_le_nat_alt unat_of_nat)
  have ne: "i \<noteq> length (descs st)"
    using n(2) by (simp add: i_def)
  show ?thesis
  proof (cases "fl st i")
    case (Cons b l)
    have "busy st G {pg_round_down b}"
      using bz by (simp add: busy_def)
    from pop_new_live [OF inv i(1) Cons this le] obtain st' where "pop_block st i = Inr (st', b)" "new_live st (live st G) n st' b"
      by blast
    then show ?thesis
      using n(1) ne Cons by (simp add: malloc_def i_def [symmetric] new_live_def Let_def)
  next
    case Nil
    have pg: "palloc_get_page (pal st) 0 = palloc_get_multiple (pal st) 0 (of_nat 1)"
      by (simp add: palloc_get_page_def)
    have "0 < (1 :: nat)" "(1 :: nat) < 2 ^ 32"
      by simp_all
    with malloc_invD(1) [OF inv] show ?thesis
    proof (cases rule: kernel_alloc)
      case (got p' a)
      then obtain st1 where st1: "new_arena st i = Some (Inr (st1, True))" "grown st G st1 a (Small i)" "fl st1 i = map (blk a i) [0..<bpa i]"
        using new_arena_ok [OF inv i(1) Nil, of a p'] pg by auto
      have b: "fl st1 i = blk a i 0 # map (blk a i) [1..<bpa i]"
        using st1(3) bs_dvd(2) [OF i(1)] by (simp add: upt_conv_Cons)
      have "busy st1 (G(a \<mapsto> Small i)) {pg_round_down (blk a i 0)}"
        using grown_busy [OF st1(2) bz] blk_slot(1) [OF got(3) i(1) bs_dvd(2) [OF i(1)]] by simp
      from pop_new_live [OF grown_inv [OF st1(2)] i(1) b this le]
      obtain st' where st': "pop_block st1 i = Inr (st', blk a i 0)" "new_live st1 (live st G) n st' (blk a i 0)"
        using grown_live [OF st1(2)] by auto
      then have "new_live st (live st G) n st' (blk a i 0)"
        using keeps_trans [OF grown_keeps [OF st1(2)]] unfolding new_live_def by blast
      then show ?thesis
        using st' st1(1) n(1) ne Nil by (simp add: malloc_def i_def [symmetric] new_live_def Let_def)
    next
      case full
      then have "new_arena st i = Some (Inr (st, False))"
        using pg by (simp add: new_arena_def Let_def)
      then show ?thesis
        using full n(1) ne Nil by (simp add: malloc_def i_def [symmetric] Let_def)
    qed
  qed
qed

definition pages_for :: "u32 \<Rightarrow> nat" where
  "pages_for n = (if unat n \<le> 1024 then 1 else (unat n + 12 + 4095) div 4096)"

lemma find_desc_big:
  assumes "descs_ok st"
  shows "find_desc (descs st) n = length (descs st) \<longleftrightarrow> 1024 < unat n"
proof
  assume "find_desc (descs st) n = length (descs st)"
  then have "desc_block_size (descs st ! 6) < n"
    using find_desc_spec(3) [of 6 "descs st" n] assms by (simp add: descs_ok_def)
  then show "1024 < unat n"
    using assms by (simp add: descs_ok_def bs_def word_less_nat_alt)
next
  assume n: "1024 < unat n"
  show "find_desc (descs st) n = length (descs st)"
  proof (rule ccontr)
    assume "\<not> ?thesis"
    then have lt: "find_desc (descs st) n < length (descs st)"
      using find_desc_spec(1) [of "descs st" n] by simp
    then have i: "find_desc (descs st) n < 7" "n \<le> of_nat (bs (find_desc (descs st) n))"
      using find_desc_spec(2) [of "descs st" n] assms by (simp_all add: descs_ok_def)
    then show False
      using n bs_dvd(3) [OF i(1)] by (simp add: word_le_nat_alt unat_of_nat)
  qed
qed

lemma pool_size_bound:
  assumes "pool_ok p"
  shows "pool_size p \<le> 2 ^ 18"
proof -
  have "0xc0000000 \<le> unat (base p)"
    using assms by (simp add: pool_ok_def PHYS_BASE_def word_le_nat_alt)
  then show ?thesis
    using assms by (simp add: pool_ok_def)
qed

text \<open>The number of pages for a big block; it wraps around to 0 close to the top of the range.\<close>

lemma big_page_cnt:
  assumes "unat n + 12 < 2 ^ 32"
  defines "cnt \<equiv> DIV_ROUND_UP (n + sizeof_arena) PGSIZE"
  shows "cnt = (if unat n + 12 + 4096 \<le> 2 ^ 32 then of_nat ((unat n + 12 + 4095) div 4096) else 0)"
proof -
  have u: "unat (n + sizeof_arena) = unat n + 12"
    using assms(1) unat_plus_no_wrap [of n 12] by (simp add: sizeof_arena_def)
  show ?thesis
  proof (cases "unat n + 12 + 4096 \<le> 2 ^ 32")
    case True
    then have "unat cnt = (unat n + 12 + 4095) div 4096"
      unfolding cnt_def using u by (subst unat_DIV_ROUND_UP) simp_all
    then have "cnt = of_nat ((unat n + 12 + 4095) div 4096)"
      using assms(1) by (simp add: word_unat_eq_iff unat_of_nat)
    then show ?thesis
      using True by simp
  next
    case False
    have "unat (n + sizeof_arena + 4096 - 1) = (unat (n + sizeof_arena) + 4095) mod 2 ^ 32"
      by (simp add: unat_word_ariths add_diff_eq [symmetric])
    moreover have "(unat n + 12 + 4095) mod 2 ^ 32 = unat n + 12 + 4095 - 2 ^ 32"
      using False assms(1) by (subst mod_if) simp
    ultimately have "unat (n + sizeof_arena + 4096 - 1) < 4096"
      using False assms(1) u by simp
    then have "unat cnt = 0"
      by (simp add: cnt_def DIV_ROUND_UP_def unat_div)
    then show ?thesis
      using False by (simp add: unat_eq_zero)
  qed
qed

text \<open>A request that no descriptor serves, for \<open>k\<close> pages.\<close>

lemma malloc_pages:
  assumes inv: "malloc_inv st G" and bz: "busy st G {}" and n: "1024 < unat n"
    and k: "DIV_ROUND_UP (n + sizeof_arena) PGSIZE = of_nat k" "0 < k" "k < 2 ^ 32"
  shows "\<exists>st' p. malloc st n = Some (Inr (st', p))
     \<and> (if p = 0 then st' = st \<and> no_room (pal st) k
        else live st G p = None \<and> malloc_rel st' ((live st G)(p \<mapsto> 4096 * k - 12)) \<and> keeps st st' (live st G))"
proof -
  have nz: "n \<noteq> 0"
    using n by auto
  have fd: "find_desc (descs st) n = length (descs st)"
    using find_desc_big [OF malloc_invD(2) [OF inv]] n by simp
  from malloc_invD(1) [OF inv] k(2,3) show ?thesis
  proof (cases rule: kernel_alloc)
    case (got p' a)
    define st' where "st' = set_arena (st\<lparr>pal := p'\<rparr>) a 0 (of_nat k)"
    have g: "grown st G st' a (Big k)"
      unfolding st'_def by (rule grown_big [OF inv k(2) got(3,4,2,5,6)])
    have bz': "busy st' (G(a \<mapsto> Big k)) {}"
      using grown_busy [OF g bz] by (auto simp: busy_def)
    have L: "live st' (G(a \<mapsto> Big k)) = (live st G)(a + 12 \<mapsto> 4096 * k - 12)"
      using grown_live [OF g] by simp
    have "live st G (a + 12) = None"
      using block_12 [OF got(3), of "a + 12"] grownD(6) [OF g] by (simp add: live_def)
    moreover have "a + 12 \<noteq> 0"
      using block_nonzero [OF grown_inv [OF g], of "a + 12"] L by simp
    moreover have "malloc_rel st' ((live st G)(a + 12 \<mapsto> 4096 * k - 12))"
      using grown_inv [OF g] bz' L unfolding malloc_rel_def by metis
    moreover have "malloc st n = Some (Inr (st', a + 12))"
      using nz fd k(1) got(1) page_parts(2) [OF got(3)] by (simp add: malloc_def Let_def st'_def sizeof_arena_def)
    ultimately show ?thesis
      using grown_keeps [OF g] by simp
  next
    case full
    then show ?thesis
      using nz fd k(1) by (simp add: malloc_def Let_def)
  qed
qed

lemma malloc_big:
  assumes inv: "malloc_inv st G" and bz: "busy st G {}" and n: "1024 < unat n" "unat n + 12 < 2 ^ 32"
  shows "\<exists>st' p. malloc st n = Some (Inr (st', p)) \<and> (if p = 0 then st' = st \<and> no_room (pal st) (pages_for n) else new_live st (live st G) n st' p)"
proof -
  define k where "k = (unat n + 12 + 4095) div 4096"
  have pf: "pages_for n = k"
    using n(1) by (simp add: pages_for_def k_def)
  have k: "0 < k" "k < 2 ^ 32" "unat n \<le> 4096 * k - 12"
    using n by (simp_all add: k_def)
  show ?thesis
  proof (cases "unat n + 12 + 4096 \<le> 2 ^ 32")
    case False
    then have "pool_size (kernel_pool (pal st)) < k"
      using pool_size_bound [of "kernel_pool (pal st)"] malloc_invD(1) [OF inv] by (simp add: palloc_ok_def k_def)
    then have "no_room (pal st) k"
      by (simp add: no_room_def)
    moreover have "n \<noteq> 0" "find_desc (descs st) n = length (descs st)"
      using find_desc_big [OF malloc_invD(2) [OF inv]] n(1) by auto
    ultimately show ?thesis
      using False big_page_cnt [OF n(2)] pf by (simp add: malloc_def palloc_get_multiple_def Let_def)
  next
    case True
    then have "DIV_ROUND_UP (n + sizeof_arena) PGSIZE = of_nat k"
      using big_page_cnt [OF n(2)] by (simp add: k_def)
    from malloc_pages [OF inv bz n(1) this k(1,2)] show ?thesis
      using k(3) pf unfolding new_live_def by (metis (full_types))
  qed
qed

lemma malloc_law:
  assumes rel: "malloc_rel st L" and n: "unat n + 12 < 2 ^ 32"
  shows "\<exists>st' p. malloc st n = Some (Inr (st', p))
     \<and> (if p = 0 then st' = st \<and> (n \<noteq> 0 \<longrightarrow> no_room (pal st) (pages_for n)) else new_live st L n st' p)"
proof -
  obtain G where G: "malloc_inv st G" "busy st G {}" "L = live st G"
    using rel unfolding malloc_rel_def by blast
  show ?thesis
  proof (cases "n = 0")
    case True
    then show ?thesis
      by (simp add: malloc_def)
  next
    case False
    show ?thesis
    proof (cases "1024 < unat n")
      case True
      then show ?thesis
        using malloc_big [OF G(1,2) True n] G(3) by (metis (full_types))
    next
      case small: False
      then have "find_desc (descs st) n < length (descs st)" "pages_for n = 1"
        using find_desc_big [OF malloc_invD(2) [OF G(1)], of n] find_desc_spec(1) [of "descs st" n] by (simp_all add: pages_for_def)
      then show ?thesis
        using malloc_small [OF G(1,2) False] G(3) by (metis (full_types))
    qed
  qed
qed

section \<open>Release\<close>

lemma big_pages_bound:
  assumes "malloc_inv st G" and "G a = Some (Big n)"
  shows "n < 2 ^ 20"
proof -
  have "0xc0000000 \<le> unat a"
    using arena_space(3) [OF assms] by (simp add: kernel_page_def PHYS_BASE_def word_le_nat_alt)
  then show ?thesis
    using arena_space(1) [OF assms] by simp
qed

lemma free_big:
  assumes inv: "malloc_inv st G" and bz: "busy st G {}" and p: "G (pg_round_down p) = Some (Big n)" "pg_ofs p = 12"
  shows "\<exists>st'. free st p = Inr st' \<and> malloc_rel st' ((live st G)(p := None)) \<and> keeps st st' ((live st G)(p := None))"
proof -
  define a where "a = pg_round_down p"
  have ok: "arena_ok st a (Big n)"
    using malloc_invD(5) [OF inv p(1)] by (simp add: a_def)
  then have kp: "kernel_page a" and h: "arena_magic st a = ARENA_MAGIC" "arena_desc st a = 0" "arena_free_cnt st a = of_nat n"
    and n: "0 < n" "n < 2 ^ 20" and used: "{pno a..<pno a + n} \<subseteq> pool_used (kernel_pool (pal st))"
    using big_pages_bound [OF inv p(1)] by (simp_all add: arena_ok_def arena_pages_def)
  have pa: "p = a + 12"
    using block_12 [OF kp, of p] p(2) by (simp add: a_def)
  obtain p' where p': "palloc_free_multiple (pal st) a (of_nat n) = Inr p'" "palloc_ok p'"
      "pool_used (kernel_pool p') = pool_used (kernel_pool (pal st)) - {pno a..<pno a + n}" "ram p' = memset (ram (pal st)) a 0xcc (4096 * n)"
    using free_pages_ok [OF malloc_invD(1) [OF inv] kp n used] by blast
  define st' where "st' = st\<lparr>pal := p'\<rparr>"
  have nz: "p \<noteq> 0" "a \<noteq> 0"
    using page_parts(2) [OF kp] live_def [of st G p] block_nonzero [OF inv, of p] p by auto
  have "block_to_arena st p = Inr a"
    using block_to_arena_big [of st p] h nz(2) p(2) by (simp add: a_def)
  then have res: "free st p = Inr st'"
    using nz h p'(1) by (simp add: free_def st'_def)
  have lst: "filter (\<lambda>b. \<not> in_arena a b) (fl st j) = fl st j" if "j < 7" for j
    using malloc_invD(3) [OF inv] that p(1) by (fastforce simp: lists_ok_def a_def filter_id_conv)
  have "only (ram (pal st)) (ram p') (bytes a (4096 * n))"
    unfolding p'(4) by (rule only_memset) (use arena_space(1) [OF inv p(1)] in \<open>simp add: a_def\<close>)
  then have s: "shrunk st G st' a (Big n)"
    using inv p(1) p' malloc_invD(2) [OF inv] lst by (simp add: shrunk_def st'_def a_def [symmetric] arena_pages_def)
  have L: "live st' (G(a := None)) = (live st G)(p := None)"
  proof
    fix b
    have "live st G b = None" if "in_arena a b" "b \<noteq> p"
      using that block_12 [OF kp, of b] pa p(1) [folded a_def] by (simp add: live_def)
    moreover have "in_arena a p"
      by (simp add: a_def)
    ultimately show "live st' (G(a := None)) b = ((live st G)(p := None)) b"
      using shrunk_live [OF s, of b] by auto
  qed
  have "busy st' (G(a := None)) {}"
    by (rule shrunk_busy [OF s]) (use bz in \<open>auto simp: busy_def\<close>)
  then have "malloc_rel st' ((live st G)(p := None))"
    using shrunk_inv [OF s] L unfolding malloc_rel_def by metis
  moreover have "keeps st st' ((live st G)(p := None))"
  proof (rule keepsI)
    show "only (ram (pal st)) (ram (pal st')) (arena_bytes a (Big n))"
      using s by (simp add: shrunk_def)
    fix b c
    assume b: "((live st G)(p := None)) b = Some c"
    then have "live st' (G(a := None)) b = Some c"
      by (simp add: L)
    moreover have "arena_pages a (Big n) \<inter> pool_used (kernel_pool (pal st')) = {}"
      using p'(3) by (auto simp: st'_def arena_pages_def)
    ultimately show "arena_bytes a (Big n) \<inter> bytes b c = {}"
      using live_unused [OF shrunk_inv [OF s] kp] by blast
  qed
  ultimately show ?thesis
    using res by blast
qed

text \<open>The release of an arena whose blocks are all free.\<close>

lemma full_arena_ok:
  assumes inv: "malloc_inv st G" and bz: "busy st G {a}" and a: "G a = Some (Small i)" and full: "free_in st i a = bpa i"
  shows "\<exists>st'. bnd (remove_blocks st i a (of_nat (bpa i)) 0) (\<lambda>st. bnd (palloc_free_page (pal st) a) (\<lambda>p. Inr (st\<lparr>pal := p\<rparr>))) = Inr st'
     \<and> malloc_rel st' (live st G) \<and> keeps st st' (live st G)"
proof -
  have ok: "arena_ok st a (Small i)"
    using malloc_invD(5) [OF inv a] .
  then have kp: "kernel_page a" and i: "i < 7" and h: "arena_magic st a = ARENA_MAGIC" "arena_desc st a = desc_ptr st i"
    and used: "{pno a..<pno a + 1} \<subseteq> pool_used (kernel_pool (pal st))"
    by (simp_all add: arena_ok_def arena_pages_def)
  note img = free_in_le(2) [OF inv a full] and inj = blk_image(1) [OF kp i]
  have l: "distinct (fl st i)" "\<And>b. b \<in> set (fl st i) \<Longrightarrow> slot i (unat (pg_ofs b))"
    using malloc_invD(3) [OF inv] i by (simp_all add: lists_ok_def)
  define st1 where "st1 = upd_desc st i (filter (\<lambda>b. b \<notin> blk a i ` {0..<bpa i}))"
  have "remove_blocks st i a (of_nat (bpa i)) (of_nat 0) = Inr st1"
    unfolding st1_def
    by (rule remove_blocks_ok [OF malloc_invD(2) [OF inv] i h page_parts(2) [OF kp]])
      (use img inj l(1) in \<open>auto simp: distinct_map\<close>)
  then have r: "remove_blocks st i a (of_nat (bpa i)) 0 = Inr st1"
    by simp
  obtain p' where p': "palloc_free_page (pal st) a = Inr p'" "palloc_ok p'"
      "pool_used (kernel_pool p') = pool_used (kernel_pool (pal st)) - {pno a..<pno a + 1}" "ram p' = memset (ram (pal st)) a 0xcc 4096"
    using free_pages_ok [OF malloc_invD(1) [OF inv] kp _ _ used] by (auto simp: palloc_free_page_def)
  define st' where "st' = st1\<lparr>pal := p'\<rparr>"
  have len: "i < length (descs st)"
    using malloc_invD(2) [OF inv] i by (simp add: descs_ok_def)
  have lists: "fl st' j = filter (\<lambda>b. \<not> in_arena a b) (fl st j)" if j: "j < 7" for j
  proof (cases "j = i")
    case True
    then show ?thesis
      using fl_upd_desc [OF len] l(2) blk_image(2) [OF kp i] by (auto simp: st'_def st1_def intro: filter_cong)
  next
    case False
    have "filter (\<lambda>b. \<not> in_arena a b) (fl st j) = fl st j"
      using malloc_invD(3) [OF inv] j a False by (fastforce simp: lists_ok_def filter_id_conv)
    then show ?thesis
      using False fl_upd_desc [OF len] by (simp add: st'_def st1_def)
  qed
  have "only (ram (pal st)) (ram p') (bytes a 4096)"
    unfolding p'(4) by (rule only_memset [OF page_parts(3) [OF kp]])
  then have s: "shrunk st G st' a (Small i)"
    using inv a p' malloc_invD(2) [OF inv] lists by (simp add: shrunk_def arena_pages_def) (simp add: st'_def st1_def)
  have "live st G b = None" if b: "in_arena a b" for b
  proof -
    have "b \<in> set (fl st i)" if "slot i (unat (pg_ofs b))"
      using blk_image(2) [OF kp i, of b] img b that by auto
    then show ?thesis
      using a b by (auto simp: live_def)
  qed
  then have L: "live st' (G(a := None)) = live st G"
    using shrunk_live [OF s] by (auto simp: fun_eq_iff)
  have "malloc_rel st' (live st G)"
    using shrunk_inv [OF s] shrunk_busy [OF s bz] L unfolding malloc_rel_def by metis
  moreover have "keeps st st' (live st G)"
  proof (rule keepsI)
    show "only (ram (pal st)) (ram (pal st')) (arena_bytes a (Small i))"
      using s by (simp add: shrunk_def)
    fix b c
    assume "live st G b = Some c"
    moreover have "arena_pages a (Small i) \<inter> pool_used (kernel_pool (pal st')) = {}"
      using p'(3) by (auto simp: st'_def arena_pages_def)
    ultimately show "arena_bytes a (Small i) \<inter> bytes b c = {}"
      using live_unused [OF shrunk_inv [OF s] kp] L by metis
  qed
  ultimately show ?thesis
    using r p'(1) by (simp add: st'_def st1_def)
qed

lemma free_small:
  assumes inv: "malloc_inv st G" and bz: "busy st G {}" and p: "G (pg_round_down p) = Some (Small i)" "slot i (unat (pg_ofs p))" "p \<notin> set (fl st i)"
  shows "\<exists>st'. free st p = Inr st' \<and> malloc_rel st' ((live st G)(p := None)) \<and> keeps st st' ((live st G)(p := None))"
proof -
  define a where "a = pg_round_down p"
  define st1 where "st1 = push_block st i a p"
  note push = push_block_ok [OF inv p, folded a_def, folded st1_def]
  have lp: "live st G p = Some (bs i)"
    using p by (simp add: live_def)
  have ok: "arena_ok st a (Small i)" "arena_ok st1 a (Small i)"
    using malloc_invD(5) [OF inv p(1)] malloc_invD(5) [OF push(1) p(1)] by (simp_all add: a_def)
  then have i: "i < 7" and kp: "kernel_page a" and h: "arena_magic st a = ARENA_MAGIC" "arena_desc st a = desc_ptr st i"
    and cnt: "arena_free_cnt st1 a = of_nat (free_in st1 i a)"
    by (simp_all add: arena_ok_def)
  note idx = desc_index_ptr [OF malloc_invD(2) [OF inv] i]
  have n: "blocks_per_arena (descs st1 ! i) = of_nat (bpa i)"
    using malloc_invD(2) [OF push(1)] i by (simp add: descs_ok_def)
  have le: "free_in st1 i a \<le> bpa i"
    using free_in_le(1) [OF push(1) p(1)] by (simp add: a_def)
  have ge: "(of_nat (bpa i) :: u32) \<le> of_nat (free_in st1 i a) \<longleftrightarrow> free_in st1 i a = bpa i"
    using le bs_dvd(1) [OF i] by (auto simp: word_le_nat_alt unat_of_nat)
  have "block_to_arena st p = Inr a"
    using block_to_arena_small [of st i p] malloc_invD(2) [OF inv] i h page_parts(2) [OF kp] p(2) by (simp add: a_def)
  then have free: "free st p = (if of_nat (bpa i) \<le> arena_free_cnt st1 a
      then ASSERT (arena_free_cnt st1 a = of_nat (bpa i)) (bnd (remove_blocks st1 i a (of_nat (bpa i)) 0) (\<lambda>st. bnd (palloc_free_page (pal st) a) (\<lambda>p. Inr (st\<lparr>pal := p\<rparr>))))
      else Inr st1)"
    using block_nonzero [OF inv lp] h(2) idx n by (simp add: free_def push_block_def Let_def st1_def)
  have keep: "keeps st st1 ((live st G)(p := None))"
  proof (rule keepsI [OF push(4)])
    fix b c
    assume "((live st G)(p := None)) b = Some c"
    then have b: "live st G b = Some c" "b \<noteq> p"
      by (simp_all split: if_splits)
    then show "(bytes a 12 \<union> bytes p (bs i)) \<inter> bytes b c = {}"
      using live_header [OF inv p(1) b(1)] live_apart [OF inv lp b(1)] by (auto simp: a_def)
  qed
  show ?thesis
  proof (cases "free_in st1 i a = bpa i")
    case True
    obtain st' where st': "bnd (remove_blocks st1 i a (of_nat (bpa i)) 0) (\<lambda>st. bnd (palloc_free_page (pal st) a) (\<lambda>p. Inr (st\<lparr>pal := p\<rparr>))) = Inr st'"
        "malloc_rel st' (live st1 G)" "keeps st1 st' (live st1 G)"
      using full_arena_ok [OF push(1) push(5) [OF bz] p(1) [folded a_def] True] by blast
    then show ?thesis
      using free ge True cnt keeps_trans [OF keep] push(2) by simp
  next
    case False
    then have "busy st1 G {}"
      using push(5) [OF bz] le p(1) [folded a_def] unfolding busy_def
      by (metis arena_kind.inject(1) insertE option.inject order_le_less singletonD)
    then have "malloc_rel st1 ((live st G)(p := None))"
      using push(1,2) unfolding malloc_rel_def by metis
    then show ?thesis
      using free ge False cnt keep by simp
  qed
qed

lemma free_law:
  assumes rel: "malloc_rel st L" and p: "L p = Some c"
  shows "\<exists>st'. free st p = Inr st' \<and> malloc_rel st' (L(p := None)) \<and> keeps st st' (L(p := None))"
proof -
  obtain G where G: "malloc_inv st G" "busy st G {}" "L = live st G"
    using rel unfolding malloc_rel_def by blast
  have "live st G p = Some c"
    using p G(3) by simp
  then show ?thesis
    unfolding G(3)
  proof (cases rule: live_cases)
    case (small i)
    then show "\<exists>st'. free st p = Inr st' \<and> malloc_rel st' ((live st G)(p := None)) \<and> keeps st st' ((live st G)(p := None))"
      using free_small [OF G(1,2)] by blast
  next
    case (big n)
    then show "\<exists>st'. free st p = Inr st' \<and> malloc_rel st' ((live st G)(p := None)) \<and> keeps st st' ((live st G)(p := None))"
      using free_big [OF G(1,2)] by blast
  qed
qed

text \<open>A client that writes to its own blocks.\<close>

lemma header_only_live:
  assumes inv: "malloc_inv st G" and b: "live st G b = Some c" and X: "X \<subseteq> bytes b c" and m: "only (ram (pal st)) (f (ram (pal st))) X"
  shows "malloc_inv (upd_ram st f) G" and "live (upd_ram st f) G = live st G"
proof -
  have fi: "free_in (upd_ram st f) i a = free_in st i a" for i a
    by (simp add: free_in_def)
  have "arena_ok (upd_ram st f) a k" if a: "G a = Some k" for a k
    using arena_frame [OF malloc_invD(5) [OF inv a], of "upd_ram st f" X] m X live_header [OF inv a b] malloc_invD(5) [OF inv a] fi
    by (fastforce simp: arena_ok_def)
  moreover have "lists_ok (upd_ram st f) G"
    using malloc_invD(3) [OF inv] by (simp add: lists_ok_def)
  ultimately show "malloc_inv (upd_ram st f) G"
    using inv by (simp add: malloc_inv_def)
  show "live (upd_ram st f) G = live st G"
    by (simp add: live_def fun_eq_iff split: option.splits arena_kind.splits)
qed

lemma write_law:
  assumes rel: "malloc_rel st L" and b: "L b = Some c" and X: "X \<subseteq> bytes b c" and m: "only (ram (pal st)) (f (ram (pal st))) X"
  shows "malloc_rel (upd_ram st f) L"
proof -
  obtain G where G: "malloc_inv st G" "busy st G {}" "L = live st G"
    using rel unfolding malloc_rel_def by blast
  note h = header_only_live [where f = f, OF G(1) b [unfolded G(3)] X m]
  have "busy (upd_ram st f) G {}"
    using G(2) by (simp add: busy_def free_in_def)
  then show ?thesis
    using h G(3) unfolding malloc_rel_def by metis
qed

lemma rel_blocks:
  assumes rel: "malloc_rel st L" and b: "L b = Some c"
  shows "unat b + c \<le> 2 ^ 32" and "0 < c" and "b \<noteq> 0" and "L b' = Some c' \<Longrightarrow> b \<noteq> b' \<Longrightarrow> bytes b c \<inter> bytes b' c' = {}"
    and "PHYS_BASE \<le> b"
proof -
  obtain G where G: "malloc_inv st G" "L = live st G"
    using rel unfolding malloc_rel_def by blast
  have lb: "live st G b = Some c"
    using b G(2) by simp
  obtain k where k: "G (pg_round_down b) = Some k" "unat (pg_round_down b) + 12 \<le> unat b"
      "unat b + c \<le> unat (pg_round_down b) + 4096 * kind_pages k" "0 < c"
    using live_arena [OF G(1) lb] by blast
  then show "unat b + c \<le> 2 ^ 32" and "0 < c"
    using arena_space(1) [OF G(1) k(1)] by linarith+
  show "b \<noteq> 0"
    by (rule block_nonzero [OF G(1) lb])
  show "bytes b c \<inter> bytes b' c' = {}" if "L b' = Some c'" "b \<noteq> b'"
    using live_apart [OF G(1) lb] that G(2) by simp
  show "PHYS_BASE \<le> b"
    using arena_space(3) [OF G(1) k(1)] k(2) by (simp add: kernel_page_def word_le_nat_alt)
qed

section \<open>Initialisation\<close>

lemma malloc_init_ok:
  assumes "palloc_ok (pal st)" and "descs st = []" and "0 < descs_at st" "unat (descs_at st) + 480 \<le> 2 ^ 32"
  shows "\<exists>st'. malloc_init st = Some (Inr st') \<and> malloc_rel st' (\<lambda>_. None) \<and> pal st' = pal st"
proof -
  let ?d = "\<lambda>n. \<lparr>desc_block_size = n, blocks_per_arena = 4084 div n, free_list = []\<rparr>"
  define st' where "st' = st\<lparr>descs := [?d 16, ?d 32, ?d 64, ?d 128, ?d 256, ?d 512, ?d 1024]\<rparr>"
  have "malloc_init st = Some (Inr st')"
    using assms(2) by (simp add: malloc_init_def malloc_init_loop.simps st'_def sizeof_arena_def)
  moreover have "descs_ok st'"
  proof -
    have "desc_block_size (descs st' ! i) = of_nat (bs i) \<and> blocks_per_arena (descs st' ! i) = of_nat (bpa i)" if "i < 7" for i
    proof -
      have "i \<in> {0, 1, 2, 3, 4, 5, 6}"
        using that by auto
      then show ?thesis
        by (auto simp: st'_def bs_def bpa_def)
    qed
    then show ?thesis
      using assms by (simp add: descs_ok_def st'_def)
  qed
  moreover have "fl st' i = []" if "i < 7" for i
  proof -
    have "i \<in> {0, 1, 2, 3, 4, 5, 6}"
      using that by auto
    then show ?thesis
      by (auto simp: st'_def)
  qed
  ultimately have "malloc_init st = Some (Inr st')" "malloc_inv st' Map.empty" "busy st' Map.empty {}" "live st' Map.empty = Map.empty"
    using assms(1) by (simp_all add: malloc_inv_def lists_ok_def apart_def busy_def live_def fun_eq_iff st'_def)
  moreover have "pal st' = pal st"
    by (simp add: st'_def)
  ultimately show ?thesis
    unfolding malloc_rel_def by metis
qed

end
