(* ===== verification/Malloc_Client.thy ===== *)
theory Malloc_Client
  imports Malloc
begin

text \<open>
  Clients of the block allocator: the contract of an allocator of memory blocks as the locale \<open>block_heap\<close>, what a client may conclude
  from it, its interpretation on \<^verbatim>\<open>malloc\<close> and \<^verbatim>\<open>free\<close> of \<^verbatim>\<open>threads/malloc.c\<close>, and the laws of \<^verbatim>\<open>calloc\<close> and \<^verbatim>\<open>realloc\<close>.
\<close>

section \<open>Clients of the allocator\<close>














section \<open>\<^verbatim>\<open>calloc\<close> and \<^verbatim>\<open>realloc\<close>\<close>





lemma no_room_mono: "no_room p m \<Longrightarrow> m \<le> n \<Longrightarrow> no_room p n"
  unfolding no_room_def
proof (intro allI impI)
  fix i
  assume r: "\<forall>i. i + m \<le> pool_size (kernel_pool p) \<longrightarrow> {i..<i + m} \<inter> used_bits (used_map (kernel_pool p)) \<noteq> {}"
    and le: "m \<le> n" "i + n \<le> pool_size (kernel_pool p)"
  have "{i..<i + m} \<inter> used_bits (used_map (kernel_pool p)) \<noteq> {}"
    using r le by auto
  moreover have "{i..<i + m} \<subseteq> {i..<i + n}"
    using le(1) by auto
  ultimately show "{i..<i + n} \<inter> used_bits (used_map (kernel_pool p)) \<noteq> {}"
    by blast
qed

lemma malloc_pages_law:
  assumes rel: "malloc_rel st L" and n: "1024 < unat n" and k: "DIV_ROUND_UP (n + sizeof_arena) PGSIZE = of_nat k" "0 < k" "k < 2 ^ 32"
    and room: "\<not> no_room (pal st) k"
  shows "\<exists>st' p. malloc st n = Some (Inr (st', p)) \<and> p \<noteq> 0 \<and> malloc_rel st' (L(p \<mapsto> 4096 * k - 12))"
proof -
  obtain G where G: "malloc_inv st G" "busy st G {}" "L = live st G"
    using rel unfolding malloc_rel_def by blast
  show ?thesis
    using malloc_pages [OF G(1,2) n k] room G(3) by (metis (full_types))
qed

lemma calloc_law:
  assumes rel: "malloc_rel st L" and n: "unat a * unat b + 12 < 2 ^ 32" "0 < unat a" "0 < unat b"
  shows "\<exists>st' p. calloc st a b = Some (Inr (st', p))
     \<and> (if p = 0 then st' = st \<and> no_room (pal st) (pages_for (a * b))
        else L p = None \<and> (\<exists>c. unat a * unat b \<le> c \<and> malloc_rel st' (L(p \<mapsto> c)))
          \<and> (\<forall>i < unat a * unat b. ram (pal st') (p + of_nat i) = 0))"
proof -
  have u: "unat (a * b) = unat a * unat b"
    using n(1) by (simp add: unat_word_ariths)
  have nz: "a * b \<noteq> 0"
    using u n(2,3) by (auto simp: unat_eq_zero)
  have chk: "\<not> (a * b < a \<or> a * b < b)"
    using u n(2,3) by (simp add: word_less_nat_alt not_less)
  obtain st1 p where m: "malloc st (a * b) = Some (Inr (st1, p))"
      "if p = 0 then st1 = st \<and> (a * b \<noteq> 0 \<longrightarrow> no_room (pal st) (pages_for (a * b))) else new_live st L (a * b) st1 p"
    using malloc_law [OF rel, of "a * b"] n(1) u by auto
  show ?thesis
  proof (cases "p = 0")
    case True
    then show ?thesis
      using m nz chk by (simp add: calloc_def Let_def)
  next
    case False
    then obtain c where c: "L p = None" "unat (a * b) \<le> c" "malloc_rel st1 (L(p \<mapsto> c))"
      using m(2) by (auto simp: new_live_def)
    have top: "unat p + c \<le> 2 ^ 32"
      using rel_blocks(1) [OF c(3), of p c] by simp
    define st' where "st' = upd_ram st1 (\<lambda>m. memset m p 0 (unat (a * b)))"
    have "only (ram (pal st1)) (memset (ram (pal st1)) p 0 (unat (a * b))) (bytes p (unat (a * b)))"
      by (rule only_memset) (use top c(2) in simp)
    then have "malloc_rel st' (L(p \<mapsto> c))"
      unfolding st'_def by (intro write_law [OF c(3), of p c "bytes p (unat (a * b))"]) (use c(2) in auto)
    moreover have "ram (pal st') (p + of_nat i) = 0" if "i < unat a * unat b" for i
      unfolding st'_def using memset_in [of i "unat (a * b)" "ram (pal st1)" p 0] that u c(2) top by simp
    moreover have "calloc st a b = Some (Inr (st', p))"
      using m(1) False chk by (simp add: calloc_def Let_def st'_def)
    ultimately show ?thesis
      using False c(1,2) u by auto
  qed
qed

section \<open>Properties\<close>

text \<open>An allocator over a kernel pool of 64 free pages.\<close>

definition demo_heap :: mstate where
  "demo_heap =
     \<lparr>pal = \<lparr>kernel_pool = \<lparr>used_map = \<lparr>bit_cnt = 64, bits = [0, 0]\<rparr>, base = 0xc0101000\<rparr>,
             user_pool = \<lparr>used_map = \<lparr>bit_cnt = 2, bits = [0]\<rparr>, base = 0xc0200000\<rparr>, ram = (\<lambda>_. 7)\<rparr>,
      descs = [], descs_at = 0xc0030000\<rparr>"

lemma demo_heap_ok: "palloc_ok (pal demo_heap)"
proof -
  have "bitmap_ok \<lparr>bit_cnt = 64, bits = [0, 0]\<rparr>" "bitmap_ok \<lparr>bit_cnt = 2, bits = [0]\<rparr>"
    by (simp_all add: bitmap_ok_def unat_elem_cnt)
  moreover have "pg_ofs 0xc0101000 = 0" "pg_ofs 0xc0200000 = 0"
    by (simp_all add: pg_ofs_take_bit)
  ultimately show ?thesis
    by (auto simp: demo_heap_def palloc_ok_def pool_ok_def pool_pages_def pool_size_def unat_pg_no PHYS_BASE_def)
qed

lemma demo_heap_room: "\<not> no_room (pal demo_heap) 64"
proof -
  have "bview \<lparr>bit_cnt = 64, bits = [0, 0]\<rparr> = replicate 64 False"
    by code_simp
  then have "used_bits \<lparr>bit_cnt = 64, bits = [0, 0]\<rparr> = {}"
    by (auto simp: used_bits_def)
  then show ?thesis
    by (auto simp: no_room_def demo_heap_def pool_size_def)
qed

lemma demo_heap_init: "\<exists>st. malloc_init demo_heap = Some (Inr st) \<and> malloc_rel st (\<lambda>_. None) \<and> pal st = pal demo_heap"
  using malloc_init_ok [OF demo_heap_ok] by (simp add: demo_heap_def)





text \<open>Sizes that wrap around are not detected. \<^verbatim>\<open>malloc\<close> of any of the eleven largest sizes returns a block of 4084 bytes, because adding
  the size of the arena header wraps around; \<^verbatim>\<open>calloc (65537, 65537)\<close> passes the overflow check and returns a block of 135156 bytes for
  a request of more than 4 GB.\<close>

theorem allocation_size_wraps:
  assumes "malloc_rel st L" and "\<not> no_room (pal st) 33"
  shows "(\<forall>n. 2 ^ 32 - 12 < unat n \<longrightarrow> (\<exists>st' p. malloc st n = Some (Inr (st', p)) \<and> p \<noteq> 0 \<and> malloc_rel st' (L(p \<mapsto> 4084))))
    \<and> (\<exists>st' p. calloc st 65537 65537 = Some (Inr (st', p)) \<and> p \<noteq> 0 \<and> malloc_rel st' (L(p \<mapsto> 135156)))"
proof (intro conjI allI)
  fix n :: u32
  show "2 ^ 32 - 12 < unat n \<longrightarrow> (\<exists>st' p. malloc st n = Some (Inr (st', p)) \<and> p \<noteq> 0 \<and> malloc_rel st' (L(p \<mapsto> 4084)))"
  proof
    assume n: "2 ^ 32 - 12 < unat n"
    have "unat (n + sizeof_arena) = (unat n + 12) mod 2 ^ 32"
      by (simp add: sizeof_arena_def unat_word_ariths)
    then have "unat (n + sizeof_arena) = unat n + 12 - 2 ^ 32"
      using n unat_less_size [of n] by (simp add: mod_if)
    then have "unat (n + sizeof_arena) \<le> 11" "0 < unat (n + sizeof_arena)"
      using n unat_less_size [of n] by simp_all
    then have "unat (DIV_ROUND_UP (n + sizeof_arena) PGSIZE) = 1"
      by (subst unat_DIV_ROUND_UP) simp_all
    then have "DIV_ROUND_UP (n + sizeof_arena) PGSIZE = of_nat 1"
      by (simp add: word_unat_eq_iff)
    moreover have "\<not> no_room (pal st) 1"
      using no_room_mono [of "pal st" 1 33] assms(2) by auto
    ultimately show "\<exists>st' p. malloc st n = Some (Inr (st', p)) \<and> p \<noteq> 0 \<and> malloc_rel st' (L(p \<mapsto> 4084))"
      using malloc_pages_law [OF assms(1), of n 1] n by simp
  qed
next
  have w: "(65537 :: u32) * 65537 = 131073" "DIV_ROUND_UP (131073 + sizeof_arena) PGSIZE = of_nat 33"
    by (simp_all add: DIV_ROUND_UP_def sizeof_arena_def)
  then obtain st1 p where m: "malloc st 131073 = Some (Inr (st1, p))" "p \<noteq> 0" "malloc_rel st1 (L(p \<mapsto> 135156))"
    using malloc_pages_law [OF assms(1), of 131073 33] assms(2) by auto
  define st' where "st' = upd_ram st1 (\<lambda>m. memset m p 0 131073)"
  have "only (ram (pal st1)) (memset (ram (pal st1)) p 0 131073) (bytes p 131073)"
    by (rule only_memset) (use rel_blocks(1) [OF m(3), of p 135156] in simp)
  then have "malloc_rel st' (L(p \<mapsto> 135156))"
    unfolding st'_def by (intro write_law [OF m(3), of p 135156 "bytes p 131073"]) auto
  moreover have "calloc st 65537 65537 = Some (Inr (st', p))"
    unfolding calloc_def w(1) Let_def using m by (simp add: st'_def)
  ultimately show "\<exists>st' p. calloc st 65537 65537 = Some (Inr (st', p)) \<and> p \<noteq> 0 \<and> malloc_rel st' (L(p \<mapsto> 135156))"
    using m(2) by blast
qed

theorem allocation_size_wraps_witness:
  "\<exists>st st' p. malloc_rel st (\<lambda>_. None) \<and> malloc st 0xfffffff8 = Some (Inr (st', p)) \<and> malloc_rel st' ((\<lambda>_. None)(p \<mapsto> 4084))"
proof -
  obtain st0 where st0: "malloc_rel st0 (\<lambda>_. None)" "pal st0 = pal demo_heap"
    using demo_heap_init by blast
  have "\<not> no_room (pal st0) 33"
    using demo_heap_room no_room_mono [of "pal demo_heap" 33 64] st0(2) by auto
  from allocation_size_wraps [OF st0(1) this]
  have "2 ^ 32 - 12 < unat (0xfffffff8 :: u32) \<longrightarrow> (\<exists>st' p. malloc st0 0xfffffff8 = Some (Inr (st', p)) \<and> p \<noteq> 0 \<and> malloc_rel st' ((\<lambda>_. None)(p \<mapsto> 4084)))"
    by blast
  then show ?thesis
    using st0(1) by auto
qed

end
