(* ===== verification/Kernel_List.thy ===== *)
theory Kernel_List
  imports Prelude "HOL-Library.Sublist"
begin

text \<open>
  The doubly linked lists of \<^verbatim>\<open>lib/kernel/list.c\<close> on an explicit heap. A
  \<^verbatim>\<open>struct list *\<close> is the address of its \<^verbatim>\<open>head\<close> element; the \<^verbatim>\<open>tail\<close> element follows
  8 bytes later. Every operation of the file is a function on heaps, statement by statement,
  with its \<^verbatim>\<open>ASSERT\<close>s. \<open>list_rep h l xs\<close> says that the list at \<open>l\<close> holds the elements \<open>xs\<close> in
  order; the lemmas show what each operation does to \<open>xs\<close>.
\<close>

section \<open>Elements, heap, and the element classification\<close>

record list_elem =
  prv :: addr
  nxt :: addr

type_synonym heap = "addr \<Rightarrow> list_elem"

definition set_prv :: "heap \<Rightarrow> addr \<Rightarrow> addr \<Rightarrow> heap" where
  "set_prv h p v = h(p := (h p)\<lparr>prv := v\<rparr>)"

definition set_nxt :: "heap \<Rightarrow> addr \<Rightarrow> addr \<Rightarrow> heap" where
  "set_nxt h p v = h(p := (h p)\<lparr>nxt := v\<rparr>)"

lemma set_prv_sel [simp]:
  "prv (set_prv h p v q) = (if q = p then v else prv (h q))"
  "nxt (set_prv h p v q) = nxt (h q)"
  by (simp_all add: set_prv_def)

lemma set_nxt_sel [simp]:
  "prv (set_nxt h p v q) = prv (h q)"
  "nxt (set_nxt h p v q) = (if q = p then v else nxt (h q))"
  by (simp_all add: set_nxt_def)

text \<open>\<^verbatim>\<open>&list->head\<close> and \<^verbatim>\<open>&list->tail\<close>: \<^verbatim>\<open>struct list\<close> is two 8-byte elements.\<close>

definition head_of :: "addr \<Rightarrow> addr" where
  "head_of l = l"

definition tail_of :: "addr \<Rightarrow> addr" where
  "tail_of l = l + 8"

definition is_head :: "heap \<Rightarrow> addr \<Rightarrow> bool" where
  "is_head h e \<longleftrightarrow> e \<noteq> 0 \<and> prv (h e) = 0 \<and> nxt (h e) \<noteq> 0"

definition is_interior :: "heap \<Rightarrow> addr \<Rightarrow> bool" where
  "is_interior h e \<longleftrightarrow> e \<noteq> 0 \<and> prv (h e) \<noteq> 0 \<and> nxt (h e) \<noteq> 0"

definition is_tail :: "heap \<Rightarrow> addr \<Rightarrow> bool" where
  "is_tail h e \<longleftrightarrow> e \<noteq> 0 \<and> prv (h e) \<noteq> 0 \<and> nxt (h e) = 0"

section \<open>Operations without loops\<close>

definition list_init :: "heap \<Rightarrow> addr \<Rightarrow> heap res" where
  "list_init h l = ASSERT (l \<noteq> 0) (
     let h = set_prv h (head_of l) 0;
         h = set_nxt h (head_of l) (tail_of l);
         h = set_prv h (tail_of l) (head_of l);
         h = set_nxt h (tail_of l) 0
     in Inr h)"

definition list_begin :: "heap \<Rightarrow> addr \<Rightarrow> addr res" where
  "list_begin h l = ASSERT (l \<noteq> 0) (Inr (nxt (h (head_of l))))"

definition list_next :: "heap \<Rightarrow> addr \<Rightarrow> addr res" where
  "list_next h e = ASSERT (is_head h e \<or> is_interior h e) (Inr (nxt (h e)))"

definition list_end :: "addr \<Rightarrow> addr res" where
  "list_end l = ASSERT (l \<noteq> 0) (Inr (tail_of l))"

definition list_rbegin :: "heap \<Rightarrow> addr \<Rightarrow> addr res" where
  "list_rbegin h l = ASSERT (l \<noteq> 0) (Inr (prv (h (tail_of l))))"

definition list_prev :: "heap \<Rightarrow> addr \<Rightarrow> addr res" where
  "list_prev h e = ASSERT (is_interior h e \<or> is_tail h e) (Inr (prv (h e)))"

definition list_rend :: "addr \<Rightarrow> addr res" where
  "list_rend l = ASSERT (l \<noteq> 0) (Inr (head_of l))"

definition list_head :: "addr \<Rightarrow> addr res" where
  "list_head l = ASSERT (l \<noteq> 0) (Inr (head_of l))"

definition list_tail :: "addr \<Rightarrow> addr res" where
  "list_tail l = ASSERT (l \<noteq> 0) (Inr (tail_of l))"

definition list_insert :: "heap \<Rightarrow> addr \<Rightarrow> addr \<Rightarrow> heap res" where
  "list_insert h before elem =
     ASSERT (is_interior h before \<or> is_tail h before) (ASSERT (elem \<noteq> 0) (
     let h = set_prv h elem (prv (h before));
         h = set_nxt h elem before;
         h = set_nxt h (prv (h before)) elem;
         h = set_prv h before elem
     in Inr h))"

definition list_splice :: "heap \<Rightarrow> addr \<Rightarrow> addr \<Rightarrow> addr \<Rightarrow> heap res" where
  "list_splice h before fst_e lst =
     ASSERT (is_interior h before \<or> is_tail h before) (
     if fst_e = lst then Inr h
     else bnd (list_prev h lst) (\<lambda>lst.
       ASSERT (is_interior h fst_e) (ASSERT (is_interior h lst) (
       let h = set_nxt h (prv (h fst_e)) (nxt (h lst));
           h = set_prv h (nxt (h lst)) (prv (h fst_e));
           h = set_prv h fst_e (prv (h before));
           h = set_nxt h lst before;
           h = set_nxt h (prv (h before)) fst_e;
           h = set_prv h before lst
       in Inr h))))"

definition list_push_front :: "heap \<Rightarrow> addr \<Rightarrow> addr \<Rightarrow> heap res" where
  "list_push_front h l elem = bnd (list_begin h l) (\<lambda>b. list_insert h b elem)"

definition list_push_back :: "heap \<Rightarrow> addr \<Rightarrow> addr \<Rightarrow> heap res" where
  "list_push_back h l elem = bnd (list_end l) (\<lambda>e. list_insert h e elem)"

definition list_remove :: "heap \<Rightarrow> addr \<Rightarrow> (heap \<times> addr) res" where
  "list_remove h elem = ASSERT (is_interior h elem) (
     let h = set_nxt h (prv (h elem)) (nxt (h elem));
         h = set_prv h (nxt (h elem)) (prv (h elem))
     in Inr (h, nxt (h elem)))"

definition list_empty :: "heap \<Rightarrow> addr \<Rightarrow> bool res" where
  "list_empty h l = bnd (list_begin h l) (\<lambda>b. bnd (list_end l) (\<lambda>e. Inr (b = e)))"

definition list_front :: "heap \<Rightarrow> addr \<Rightarrow> addr res" where
  "list_front h l = bnd (list_empty h l) (\<lambda>em. ASSERT (\<not> em) (Inr (nxt (h (head_of l)))))"

definition list_back :: "heap \<Rightarrow> addr \<Rightarrow> addr res" where
  "list_back h l = bnd (list_empty h l) (\<lambda>em. ASSERT (\<not> em) (Inr (prv (h (tail_of l)))))"

definition list_pop_front :: "heap \<Rightarrow> addr \<Rightarrow> (heap \<times> addr) res" where
  "list_pop_front h l = bnd (list_front h l) (\<lambda>front.
     bnd (list_remove h front) (\<lambda>(h, _). Inr (h, front)))"

definition list_pop_back :: "heap \<Rightarrow> addr \<Rightarrow> (heap \<times> addr) res" where
  "list_pop_back h l = bnd (list_back h l) (\<lambda>back.
     bnd (list_remove h back) (\<lambda>(h, _). Inr (h, back)))"

section \<open>Operations with loops\<close>

partial_function (option) list_size_loop :: "heap \<Rightarrow> addr \<Rightarrow> addr \<Rightarrow> u32 \<Rightarrow> u32 run" where
  "list_size_loop h l e cnt =
     (if e = tail_of l then Some (Inr cnt)
      else andThen (Some (list_next h e)) (\<lambda>e. list_size_loop h l e (cnt + 1)))"

definition list_size :: "heap \<Rightarrow> addr \<Rightarrow> u32 run" where
  "list_size h l = andThen (Some (list_begin h l)) (\<lambda>e. list_size_loop h l e 0)"

text \<open>\<^verbatim>\<open>swap (&e->prev, &e->next)\<close> and the loop of \<^verbatim>\<open>list_reverse\<close>; the loop reads through
  \<^verbatim>\<open>e\<close> without an \<^verbatim>\<open>ASSERT\<close>.\<close>

definition swap_links :: "heap \<Rightarrow> addr \<Rightarrow> heap" where
  "swap_links h e = h(e := \<lparr>prv = nxt (h e), nxt = prv (h e)\<rparr>)"

partial_function (option) list_reverse_loop :: "heap \<Rightarrow> addr \<Rightarrow> addr \<Rightarrow> heap run" where
  "list_reverse_loop h l e =
     (if e = tail_of l then Some (Inr h)
      else if e = 0 then Some (Inl Null_deref)
      else let h = swap_links h e in list_reverse_loop h l (prv (h e)))"

text \<open>After the loop: \<^verbatim>\<open>swap (&list->head.next, &list->tail.prev)\<close>, then
  \<^verbatim>\<open>swap (&list->head.next->prev, &list->tail.prev->next)\<close>.\<close>

definition swap_ends :: "heap \<Rightarrow> addr \<Rightarrow> heap" where
  "swap_ends h l =
     (let t = nxt (h (head_of l));
          h = set_nxt h (head_of l) (prv (h (tail_of l)));
          h = set_prv h (tail_of l) t;
          f = nxt (h (head_of l)); b = prv (h (tail_of l));
          t = prv (h f);
          h = set_prv h f (nxt (h b));
          h = set_nxt h b t
      in h)"

definition list_reverse :: "heap \<Rightarrow> addr \<Rightarrow> heap run" where
  "list_reverse h l = andThen (Some (list_empty h l)) (\<lambda>em.
     if em then Some (Inr h)
     else andThen (Some (list_begin h l)) (\<lambda>b.
       andThen (list_reverse_loop h l b) (\<lambda>h. Some (Inr (swap_ends h l)))))"

text \<open>The comparison functions read the structure around an element and never its links, so
  \<open>lt\<close> is a parameter on addresses that stands for \<^verbatim>\<open>less (a, b, aux)\<close>.\<close>

partial_function (option) is_sorted_loop ::
  "heap \<Rightarrow> (addr \<Rightarrow> addr \<Rightarrow> bool) \<Rightarrow> addr \<Rightarrow> addr \<Rightarrow> bool run" where
  "is_sorted_loop h lt a b =
     andThen (Some (list_next h a)) (\<lambda>a.
       if a = b then Some (Inr True)
       else andThen (Some (list_prev h a)) (\<lambda>p.
         if lt a p then Some (Inr False) else is_sorted_loop h lt a b))"

definition is_sorted :: "heap \<Rightarrow> (addr \<Rightarrow> addr \<Rightarrow> bool) \<Rightarrow> addr \<Rightarrow> addr \<Rightarrow> bool run" where
  "is_sorted h lt a b = (if a \<noteq> b then is_sorted_loop h lt a b else Some (Inr True))"

partial_function (option) find_end_of_run_loop ::
  "heap \<Rightarrow> (addr \<Rightarrow> addr \<Rightarrow> bool) \<Rightarrow> addr \<Rightarrow> addr \<Rightarrow> addr run" where
  "find_end_of_run_loop h lt a b =
     andThen (Some (list_next h a)) (\<lambda>a.
       if a = b then Some (Inr a)
       else andThen (Some (list_prev h a)) (\<lambda>p.
         if \<not> lt a p then find_end_of_run_loop h lt a b else Some (Inr a)))"

definition find_end_of_run :: "heap \<Rightarrow> (addr \<Rightarrow> addr \<Rightarrow> bool) \<Rightarrow> addr \<Rightarrow> addr \<Rightarrow> addr run" where
  "find_end_of_run h lt a b =
     check (a \<noteq> 0) (check (b \<noteq> 0) (check (a \<noteq> b) (find_end_of_run_loop h lt a b)))"

partial_function (option) inplace_merge_loop ::
  "heap \<Rightarrow> (addr \<Rightarrow> addr \<Rightarrow> bool) \<Rightarrow> addr \<Rightarrow> addr \<Rightarrow> addr \<Rightarrow> heap run" where
  "inplace_merge_loop h lt a0 a1b0 b1 =
     (if a0 \<noteq> a1b0 \<and> a1b0 \<noteq> b1 then
        if \<not> lt a1b0 a0 then
          andThen (Some (list_next h a0)) (\<lambda>a0. inplace_merge_loop h lt a0 a1b0 b1)
        else
          andThen (Some (list_next h a1b0)) (\<lambda>a1b0.
          andThen (Some (list_prev h a1b0)) (\<lambda>p.
          andThen (Some (list_splice h a0 p a1b0)) (\<lambda>h.
            inplace_merge_loop h lt a0 a1b0 b1)))
      else Some (Inr h))"

definition inplace_merge ::
  "heap \<Rightarrow> (addr \<Rightarrow> addr \<Rightarrow> bool) \<Rightarrow> addr \<Rightarrow> addr \<Rightarrow> addr \<Rightarrow> heap run" where
  "inplace_merge h lt a0 a1b0 b1 =
     check (a0 \<noteq> 0) (check (a1b0 \<noteq> 0) (check (b1 \<noteq> 0) (
     andThen (is_sorted h lt a0 a1b0) (\<lambda>s1. check s1 (
     andThen (is_sorted h lt a1b0 b1) (\<lambda>s2. check s2 (
     inplace_merge_loop h lt a0 a1b0 b1)))))))"

text \<open>One pass of \<^verbatim>\<open>list_sort\<close> (the inner \<^verbatim>\<open>for\<close> loop), then the outer \<^verbatim>\<open>do\<close> loop.\<close>

partial_function (option) list_sort_pass ::
  "heap \<Rightarrow> (addr \<Rightarrow> addr \<Rightarrow> bool) \<Rightarrow> addr \<Rightarrow> addr \<Rightarrow> u32 \<Rightarrow> (heap \<times> u32) run" where
  "list_sort_pass h lt l a0 cnt =
     (if a0 = tail_of l then Some (Inr (h, cnt))
      else
        andThen (find_end_of_run h lt a0 (tail_of l)) (\<lambda>a1b0.
        if a1b0 = tail_of l then Some (Inr (h, cnt + 1))
        else
          andThen (find_end_of_run h lt a1b0 (tail_of l)) (\<lambda>b1.
          andThen (inplace_merge h lt a0 a1b0 b1) (\<lambda>h.
            list_sort_pass h lt l b1 (cnt + 1)))))"

partial_function (option) list_sort_loop ::
  "heap \<Rightarrow> (addr \<Rightarrow> addr \<Rightarrow> bool) \<Rightarrow> addr \<Rightarrow> heap run" where
  "list_sort_loop h lt l =
     andThen (Some (list_begin h l)) (\<lambda>b.
     andThen (list_sort_pass h lt l b 0) (\<lambda>(h, output_run_cnt).
       if output_run_cnt > 1 then list_sort_loop h lt l else Some (Inr h)))"

definition list_sort :: "heap \<Rightarrow> (addr \<Rightarrow> addr \<Rightarrow> bool) \<Rightarrow> addr \<Rightarrow> heap run" where
  "list_sort h lt l =
     check (l \<noteq> 0) (andThen (list_sort_loop h lt l) (\<lambda>h.
     andThen (Some (list_begin h l)) (\<lambda>b.
     andThen (is_sorted h lt b (tail_of l)) (\<lambda>s. check s (Some (Inr h))))))"

partial_function (option) list_insert_ordered_loop ::
  "heap \<Rightarrow> (addr \<Rightarrow> addr \<Rightarrow> bool) \<Rightarrow> addr \<Rightarrow> addr \<Rightarrow> addr \<Rightarrow> addr run" where
  "list_insert_ordered_loop h lt l elem e =
     (if e = tail_of l then Some (Inr e)
      else if lt elem e then Some (Inr e)
      else andThen (Some (list_next h e)) (\<lambda>e. list_insert_ordered_loop h lt l elem e))"

definition list_insert_ordered ::
  "heap \<Rightarrow> (addr \<Rightarrow> addr \<Rightarrow> bool) \<Rightarrow> addr \<Rightarrow> addr \<Rightarrow> heap run" where
  "list_insert_ordered h lt l elem =
     check (l \<noteq> 0) (check (elem \<noteq> 0) (
     andThen (Some (list_begin h l)) (\<lambda>e.
     andThen (list_insert_ordered_loop h lt l elem e) (\<lambda>e.
       Some (list_insert h e elem)))))"

text \<open>\<^verbatim>\<open>duplicates\<close> is a possibly null list address.\<close>

partial_function (option) list_unique_loop ::
  "heap \<Rightarrow> (addr \<Rightarrow> addr \<Rightarrow> bool) \<Rightarrow> addr \<Rightarrow> addr \<Rightarrow> addr \<Rightarrow> heap run" where
  "list_unique_loop h lt l duplicates elem =
     andThen (Some (list_next h elem)) (\<lambda>nx.
       if nx = tail_of l then Some (Inr h)
       else if \<not> lt elem nx \<and> \<not> lt nx elem then
         andThen (Some (list_remove h nx)) (\<lambda>(h, _).
         if duplicates \<noteq> 0 then
           andThen (Some (list_push_back h duplicates nx)) (\<lambda>h.
             list_unique_loop h lt l duplicates elem)
         else list_unique_loop h lt l duplicates elem)
       else list_unique_loop h lt l duplicates nx)"

definition list_unique :: "heap \<Rightarrow> (addr \<Rightarrow> addr \<Rightarrow> bool) \<Rightarrow> addr \<Rightarrow> addr \<Rightarrow> heap run" where
  "list_unique h lt l duplicates =
     check (l \<noteq> 0) (
     andThen (Some (list_empty h l)) (\<lambda>em.
       if em then Some (Inr h)
       else andThen (Some (list_begin h l)) (\<lambda>e. list_unique_loop h lt l duplicates e)))"

partial_function (option) list_max_loop ::
  "heap \<Rightarrow> (addr \<Rightarrow> addr \<Rightarrow> bool) \<Rightarrow> addr \<Rightarrow> addr \<Rightarrow> addr \<Rightarrow> addr run" where
  "list_max_loop h lt l mx e =
     (if e = tail_of l then Some (Inr mx)
      else let mx = (if lt mx e then e else mx) in
        andThen (Some (list_next h e)) (\<lambda>e. list_max_loop h lt l mx e))"

definition list_max :: "heap \<Rightarrow> (addr \<Rightarrow> addr \<Rightarrow> bool) \<Rightarrow> addr \<Rightarrow> addr run" where
  "list_max h lt l = andThen (Some (list_begin h l)) (\<lambda>mx.
     if mx \<noteq> tail_of l
     then andThen (Some (list_next h mx)) (\<lambda>e. list_max_loop h lt l mx e)
     else Some (Inr mx))"

partial_function (option) list_min_loop ::
  "heap \<Rightarrow> (addr \<Rightarrow> addr \<Rightarrow> bool) \<Rightarrow> addr \<Rightarrow> addr \<Rightarrow> addr \<Rightarrow> addr run" where
  "list_min_loop h lt l mn e =
     (if e = tail_of l then Some (Inr mn)
      else let mn = (if lt e mn then e else mn) in
        andThen (Some (list_next h e)) (\<lambda>e. list_min_loop h lt l mn e))"

definition list_min :: "heap \<Rightarrow> (addr \<Rightarrow> addr \<Rightarrow> bool) \<Rightarrow> addr \<Rightarrow> addr run" where
  "list_min h lt l = andThen (Some (list_begin h l)) (\<lambda>mn.
     if mn \<noteq> tail_of l
     then andThen (Some (list_next h mn)) (\<lambda>e. list_min_loop h lt l mn e)
     else Some (Inr mn))"

section \<open>What a list holds\<close>

fun chain :: "heap \<Rightarrow> addr list \<Rightarrow> bool" where
  "chain h [] = True"
| "chain h [x] = True"
| "chain h (x # y # zs) = (nxt (h x) = y \<and> prv (h y) = x \<and> chain h (y # zs))"

lemma chain_append [simp]:
  "chain h (xs @ x # y # ys) \<longleftrightarrow>
     chain h (xs @ [x]) \<and> nxt (h x) = y \<and> prv (h y) = x \<and> chain h (y # ys)"
  by (induction h xs rule: chain.induct) auto

lemma chain_snoc [simp]:
  "chain h (x # xs @ [y]) \<longleftrightarrow>
     chain h (x # xs) \<and> nxt (h (last (x # xs))) = y \<and> prv (h y) = last (x # xs)"
  by (induction xs arbitrary: x) auto

lemma chain_set_nxt [simp]: "p \<notin> set (butlast xs) \<Longrightarrow> chain (set_nxt h p v) xs = chain h xs"
  by (induction h xs rule: chain.induct) auto

lemma chain_set_prv [simp]: "p \<notin> set (tl xs) \<Longrightarrow> chain (set_prv h p v) xs = chain h xs"
  by (induction h xs rule: chain.induct) auto

lemma chain_frame [simp]:
  "p \<notin> set xs \<Longrightarrow> chain (set_prv h p v) (x # xs) = chain h (x # xs)"
  "p \<notin> set xs \<Longrightarrow> chain (set_nxt h p v) (xs @ [x]) = chain h (xs @ [x])"
  "p \<notin> set xs \<Longrightarrow> chain (set_prv h p v) xs = chain h xs"
  "p \<notin> set xs \<Longrightarrow> chain (set_nxt h p v) xs = chain h xs"
  by (auto intro!: chain_set_nxt chain_set_prv dest: in_set_butlastD) (cases xs; simp)

lemma chain_cong:
  "(\<And>x. x \<in> set xs \<Longrightarrow> h' x = h x) \<Longrightarrow> chain h' xs = chain h xs"
  by (induction h xs rule: chain.induct) auto

text \<open>The nodes of a list with its two sentinels.\<close>

definition nodes :: "addr \<Rightarrow> addr list \<Rightarrow> addr list" where
  "nodes l xs = head_of l # xs @ [tail_of l]"

definition list_rep :: "heap \<Rightarrow> addr \<Rightarrow> addr list \<Rightarrow> bool" where
  "list_rep h l xs \<longleftrightarrow> chain h (nodes l xs) \<and> prv (h (head_of l)) = 0 \<and> nxt (h (tail_of l)) = 0
     \<and> distinct (nodes l xs) \<and> 0 \<notin> set (nodes l xs)"

text \<open>The element before and after a position.\<close>

definition before_pos :: "addr \<Rightarrow> addr list \<Rightarrow> addr" where
  "before_pos l ys = last (head_of l # ys)"

definition after_pos :: "addr \<Rightarrow> addr list \<Rightarrow> addr" where
  "after_pos l zs = hd (zs @ [tail_of l])"

lemma after_pos_simps [simp]: "after_pos l [] = tail_of l" "after_pos l (z # zs) = z"
  by (simp_all add: after_pos_def)

lemma before_pos_simps [simp]:
  "before_pos l [] = head_of l" "before_pos l (ys @ [y]) = y"
  by (simp_all add: before_pos_def)

lemma nodes_cut:
  obtains A B where "nodes l (ys @ zs) = A @ before_pos l ys # after_pos l zs # B"
    and "head_of l # ys = A @ [before_pos l ys]" and "zs @ [tail_of l] = after_pos l zs # B"
proof -
  have 1: "head_of l # ys = butlast (head_of l # ys) @ [before_pos l ys]"
    unfolding before_pos_def by (rule append_butlast_last_id [symmetric]) simp
  have 2: "zs @ [tail_of l] = after_pos l zs # tl (zs @ [tail_of l])"
    unfolding after_pos_def by (cases zs) simp_all
  have "nodes l (ys @ zs) = (head_of l # ys) @ (zs @ [tail_of l])" by (simp add: nodes_def)
  also have "\<dots> = butlast (head_of l # ys) @ before_pos l ys # after_pos l zs # tl (zs @ [tail_of l])"
    by (subst 1, subst 2) simp
  finally show thesis using 1 2 that by blast
qed

lemma nodes_cut_sentinels:
  assumes "head_of l # ys = A @ [p]" "zs @ [tail_of l] = b # B" "distinct (A @ p # C @ b # B)"
  shows "head_of l \<noteq> b" "tail_of l \<noteq> p"
proof -
  have "head_of l \<in> set (A @ [p])" "tail_of l \<in> set (b # B)"
    using assms(1,2) by (metis list.set_intros(1), metis in_set_conv_decomp)
  then show "head_of l \<noteq> b" "tail_of l \<noteq> p" using assms(3) by auto
qed

lemma list_rep_links:
  assumes "list_rep h l (ys @ zs)"
  shows "nxt (h (before_pos l ys)) = after_pos l zs" "prv (h (after_pos l zs)) = before_pos l ys"
    "before_pos l ys \<noteq> 0" "after_pos l zs \<noteq> 0"
proof -
  obtain A B where "nodes l (ys @ zs) = A @ before_pos l ys # after_pos l zs # B" by (rule nodes_cut)
  with assms show "nxt (h (before_pos l ys)) = after_pos l zs"
    "prv (h (after_pos l zs)) = before_pos l ys" "before_pos l ys \<noteq> 0" "after_pos l zs \<noteq> 0"
    by (auto simp: list_rep_def)
qed

lemma list_rep_elem:
  assumes "list_rep h l (ys @ e # zs)"
  shows "prv (h e) = before_pos l ys" "nxt (h e) = after_pos l zs" "e \<noteq> 0"
    "before_pos l ys \<noteq> 0" "after_pos l zs \<noteq> 0"
  using list_rep_links [OF assms] list_rep_links [of h l "ys @ [e]" zs] assms by auto

lemma list_rep_interior: "list_rep h l (ys @ e # zs) \<Longrightarrow> is_interior h e"
  by (simp add: is_interior_def list_rep_elem)

lemma list_rep_tail: "list_rep h l xs \<Longrightarrow> is_tail h (tail_of l)"
  using list_rep_links [of h l xs "[]"] by (auto simp: is_tail_def list_rep_def nodes_def)

lemma list_rep_head: "list_rep h l xs \<Longrightarrow> is_head h (head_of l)"
  using list_rep_links [of h l "[]" xs] by (auto simp: is_head_def list_rep_def nodes_def)

lemma list_rep_after_ok:
  "list_rep h l (ys @ zs) \<Longrightarrow> is_interior h (after_pos l zs) \<or> is_tail h (after_pos l zs)"
  by (cases zs) (auto dest: list_rep_interior list_rep_tail)

lemma list_rep_before_ok:
  "list_rep h l (ys @ zs) \<Longrightarrow> is_head h (before_pos l ys) \<or> is_interior h (before_pos l ys)"
  by (cases ys rule: rev_cases) (auto dest: list_rep_interior list_rep_head)

lemma list_rep_frame:
  assumes "\<And>x. x \<in> set (nodes l xs) \<Longrightarrow> h' x = h x"
  shows "list_rep h' l xs = list_rep h l xs"
proof -
  have "h' (head_of l) = h (head_of l)" "h' (tail_of l) = h (tail_of l)"
    by (auto intro: assms simp: nodes_def)
  then show ?thesis by (simp add: list_rep_def chain_cong [OF assms])
qed

lemma list_rep_nonnull: "list_rep h l xs \<Longrightarrow> l \<noteq> 0"
  by (auto simp: list_rep_def nodes_def head_of_def)

section \<open>Each operation on the abstract list\<close>

lemma list_init_rep:
  assumes "l \<noteq> 0" "tail_of l \<noteq> 0"
  shows "\<exists>h'. list_init h l = Inr h' \<and> list_rep h' l []"
  using assms by (auto simp: list_init_def list_rep_def nodes_def head_of_def tail_of_def)

lemma list_insert_rep:
  assumes rep: "list_rep h l (ys @ zs)" and e: "e \<noteq> 0" "e \<notin> set (nodes l (ys @ zs))"
  shows "\<exists>h'. list_insert h (after_pos l zs) e = Inr h' \<and> list_rep h' l (ys @ e # zs)
    \<and> (\<forall>q. q \<notin> {e, before_pos l ys, after_pos l zs} \<longrightarrow> h' q = h q)"
proof -
  obtain A B where N: "nodes l (ys @ zs) = A @ before_pos l ys # after_pos l zs # B"
    and Y: "head_of l # ys = A @ [before_pos l ys]" and Z: "zs @ [tail_of l] = after_pos l zs # B"
    by (rule nodes_cut)
  let ?p = "before_pos l ys" and ?b = "after_pos l zs"
  have N': "nodes l (ys @ e # zs) = A @ ?p # e # ?b # B"
    using Y Z by (simp add: nodes_def) 
  note links = list_rep_links [OF rep]
  define h' where "h' = set_prv (set_nxt (set_nxt (set_prv h e ?p) e ?b) ?p e) ?b e"
  have 1: "list_insert h ?b e = Inr h'"
    using list_rep_after_ok [OF rep] e links
    by (auto simp: list_insert_def Let_def h'_def N split: if_splits)
  have hd: "prv (h (head_of l)) = 0" "nxt (h (tail_of l)) = 0"
    using rep by (auto simp: list_rep_def)
  have D: "distinct (A @ ?p # ?b # B)" using rep unfolding list_rep_def N by simp
  have "chain h' (nodes l (ys @ e # zs))"
    using rep e unfolding list_rep_def N' N h'_def by auto
  moreover have "prv (h' (head_of l)) = 0" "nxt (h' (tail_of l)) = 0"
    using hd nodes_cut_sentinels [OF Y Z, of "[]"] D e(2) by (auto simp: h'_def nodes_def)
  ultimately have "list_rep h' l (ys @ e # zs)"
    using rep e unfolding list_rep_def N' N by auto
  then show ?thesis using 1 by (auto simp: h'_def set_prv_def set_nxt_def)
qed

lemma list_remove_rep:
  assumes rep: "list_rep h l (ys @ e # zs)"
  shows "\<exists>h'. list_remove h e = Inr (h', after_pos l zs) \<and> list_rep h' l (ys @ zs)
    \<and> (\<forall>q. q \<notin> {before_pos l ys, after_pos l zs} \<longrightarrow> h' q = h q)"
proof -
  obtain A B where N: "nodes l (ys @ zs) = A @ before_pos l ys # after_pos l zs # B"
    and Y: "head_of l # ys = A @ [before_pos l ys]" and Z: "zs @ [tail_of l] = after_pos l zs # B"
    by (rule nodes_cut)
  let ?p = "before_pos l ys" and ?b = "after_pos l zs"
  have N': "nodes l (ys @ e # zs) = A @ ?p # e # ?b # B"
    using Y Z by (simp add: nodes_def)
  note links = list_rep_elem [OF rep]
  define h' where "h' = set_prv (set_nxt h ?p ?b) ?b ?p"
  have D: "distinct (A @ ?p # e # ?b # B)" using rep unfolding list_rep_def N' by simp
  have 1: "list_remove h e = Inr (h', ?b)"
    using list_rep_interior [OF rep] links D by (auto simp: list_remove_def Let_def h'_def)
  have hd: "prv (h (head_of l)) = 0" "nxt (h (tail_of l)) = 0"
    using rep by (auto simp: list_rep_def)
  have "chain h' (nodes l (ys @ zs))"
    using rep D unfolding list_rep_def N' N h'_def by auto
  moreover have "prv (h' (head_of l)) = 0" "nxt (h' (tail_of l)) = 0"
    using hd nodes_cut_sentinels [OF Y Z, of "[e]"] D by (simp_all add: h'_def)
  ultimately have "list_rep h' l (ys @ zs)"
    using rep unfolding list_rep_def N' N by auto
  then show ?thesis using 1 by (auto simp: h'_def set_prv_def set_nxt_def)
qed

lemma list_begin_rep: "list_rep h l xs \<Longrightarrow> list_begin h l = Inr (after_pos l xs)"
  using list_rep_links [of h l "[]" xs] by (simp add: list_begin_def list_rep_nonnull)

lemma list_rbegin_rep: "list_rep h l xs \<Longrightarrow> list_rbegin h l = Inr (before_pos l xs)"
  using list_rep_links [of h l xs "[]"] by (simp add: list_rbegin_def list_rep_nonnull)

lemma list_end_rep: "list_rep h l xs \<Longrightarrow> list_end l = Inr (tail_of l)"
  by (simp add: list_end_def list_rep_nonnull)

lemma list_next_rep: "list_rep h l (ys @ e # zs) \<Longrightarrow> list_next h e = Inr (after_pos l zs)"
  by (simp add: list_next_def list_rep_interior list_rep_elem)

lemma list_prev_rep: "list_rep h l (ys @ zs) \<Longrightarrow> list_prev h (after_pos l zs) = Inr (before_pos l ys)"
  using list_rep_after_ok by (simp add: list_prev_def list_rep_links)

lemma list_rep_not_tail: "list_rep h l xs \<Longrightarrow> x \<in> set xs \<Longrightarrow> x \<noteq> tail_of l"
  by (auto simp: list_rep_def nodes_def)

lemma after_pos_eq_tail: "list_rep h l (ys @ zs) \<Longrightarrow> after_pos l zs = tail_of l \<longleftrightarrow> zs = []"
  by (cases zs) (auto dest: list_rep_not_tail)

lemma list_empty_rep: "list_rep h l xs \<Longrightarrow> list_empty h l = Inr (xs = [])"
  using after_pos_eq_tail [of h l "[]" xs]
  by (simp add: list_empty_def list_begin_rep list_end_rep)

lemma pos_in_nodes:
  "after_pos l zs \<in> set (nodes l (ys @ zs))" "before_pos l ys \<in> set (nodes l (ys @ zs))"
  by (cases zs; simp add: nodes_def) (cases ys rule: rev_cases; simp add: nodes_def)

lemmas pos_in_nodes_ends = pos_in_nodes [where ys = "[]", simplified]
  pos_in_nodes [where zs = "[]", simplified]

lemma list_push_front_rep:
  assumes "list_rep h l xs" "e \<noteq> 0" "e \<notin> set (nodes l xs)"
  shows "\<exists>h'. list_push_front h l e = Inr h' \<and> list_rep h' l (e # xs)
    \<and> (\<forall>q. q \<notin> insert e (set (nodes l xs)) \<longrightarrow> h' q = h q)"
  using list_insert_rep [of h l "[]" xs e] assms pos_in_nodes_ends [of l xs]
  by (auto simp: list_push_front_def list_begin_rep)

lemma list_push_back_rep:
  assumes "list_rep h l xs" "e \<noteq> 0" "e \<notin> set (nodes l xs)"
  shows "\<exists>h'. list_push_back h l e = Inr h' \<and> list_rep h' l (xs @ [e])
    \<and> (\<forall>q. q \<notin> insert e (set (nodes l xs)) \<longrightarrow> h' q = h q)"
  using list_insert_rep [of h l xs "[]" e] assms pos_in_nodes_ends [of l xs]
  by (auto simp: list_push_back_def list_end_rep)

lemma list_front_rep: "list_rep h l (x # xs) \<Longrightarrow> list_front h l = Inr x"
  using list_rep_links [of h l "[]" "x # xs"] by (simp add: list_front_def list_empty_rep)

lemma list_back_rep: "list_rep h l (xs @ [x]) \<Longrightarrow> list_back h l = Inr x"
  using list_rep_links [of h l "xs @ [x]" "[]"] by (simp add: list_back_def list_empty_rep)

lemma list_pop_front_rep:
  assumes "list_rep h l (x # xs)"
  shows "\<exists>h'. list_pop_front h l = Inr (h', x) \<and> list_rep h' l xs
    \<and> (\<forall>q. q \<notin> set (nodes l xs) \<longrightarrow> h' q = h q)"
  using list_remove_rep [of h l "[]" x xs] assms pos_in_nodes_ends [of l xs]
  by (auto simp: list_pop_front_def list_front_rep) metis

lemma list_pop_back_rep:
  assumes "list_rep h l (xs @ [x])"
  shows "\<exists>h'. list_pop_back h l = Inr (h', x) \<and> list_rep h' l xs
    \<and> (\<forall>q. q \<notin> set (nodes l xs) \<longrightarrow> h' q = h q)"
  using list_remove_rep [of h l xs x "[]"] assms pos_in_nodes_ends [of l xs]
  by (auto simp: list_pop_back_def list_back_rep) metis

lemma list_pop_front_empty: "list_rep h l [] \<Longrightarrow> list_pop_front h l = Inl Assert_failed"
  by (simp add: list_pop_front_def list_front_def list_empty_rep)

lemma last_notin_butlast: "distinct xs \<Longrightarrow> xs \<noteq> [] \<Longrightarrow> last xs \<notin> set (butlast xs)"
  by (cases xs rule: rev_cases) auto

lemma hd_notin_tl: "distinct xs \<Longrightarrow> xs \<noteq> [] \<Longrightarrow> hd xs \<notin> set (tl xs)"
  by (cases xs) auto

lemma mem_neq: "x \<in> A \<Longrightarrow> y \<notin> A \<Longrightarrow> x \<noteq> y"
  by blast

lemma disj_neq: "x \<in> A \<Longrightarrow> y \<in> B \<Longrightarrow> A \<inter> B = {} \<Longrightarrow> x \<noteq> y"
  by blast

lemma chain_app:
  "xs \<noteq> [] \<Longrightarrow> ys \<noteq> [] \<Longrightarrow> chain h (xs @ ys) \<longleftrightarrow>
     chain h xs \<and> nxt (h (last xs)) = hd ys \<and> prv (h (hd ys)) = last xs \<and> chain h ys"
  by (cases xs rule: rev_cases; cases ys) auto

text \<open>The four rearranged segments of a splice that moves \<open>S\<close> from behind \<open>A\<close> to before it.\<close>

lemma chain_splice:
  assumes ch: "chain h (X @ A @ S @ Y)" and D: "distinct (X @ A @ S @ Y)"
    and ne: "X \<noteq> []" "A \<noteq> []" "S \<noteq> []" "Y \<noteq> []"
  defines "h' \<equiv> set_prv (set_nxt (set_nxt (set_prv (set_prv (set_nxt h (last A) (hd Y)) (hd Y) (last A))
      (hd S) (last X)) (last S) (hd A)) (last X) (hd S)) (hd A) (last S)"
  shows "chain h' (X @ S @ A @ Y)"
proof -
  note mem = last_in_set [OF ne(1)] last_in_set [OF ne(2)] last_in_set [OF ne(3)]
    hd_in_set [OF ne(2)] hd_in_set [OF ne(3)] hd_in_set [OF ne(4)]
  have dj: "set X \<inter> set A = {}" "set X \<inter> set S = {}" "set X \<inter> set Y = {}" "set A \<inter> set S = {}"
    "set A \<inter> set Y = {}" "set S \<inter> set Y = {}"
    using D unfolding distinct_append set_append by blast+
  have nm: "last A \<notin> set X" "hd Y \<notin> set X" "hd S \<notin> set X" "last S \<notin> set X" "hd A \<notin> set X"
    "last X \<notin> set A" "hd Y \<notin> set A" "hd S \<notin> set A" "last S \<notin> set A"
    "last X \<notin> set S" "hd Y \<notin> set S" "hd A \<notin> set S" "last A \<notin> set S"
    "last X \<notin> set Y" "hd A \<notin> set Y" "last A \<notin> set Y" "hd S \<notin> set Y" "last S \<notin> set Y"
    using mem dj by blast+
  have own: "last X \<notin> set (butlast X)" "last A \<notin> set (butlast A)" "last S \<notin> set (butlast S)"
    "hd A \<notin> set (tl A)" "hd S \<notin> set (tl S)" "hd Y \<notin> set (tl Y)"
    using D ne by (simp_all add: last_notin_butlast hd_notin_tl)
  have neq: "last X \<noteq> last A" "last X \<noteq> last S" "last S \<noteq> last A"
    "hd Y \<noteq> hd S" "hd Y \<noteq> hd A" "hd S \<noteq> hd A"
    by (fact mem_neq [OF mem(1) nm(1)] mem_neq [OF mem(1) nm(4)] mem_neq [OF mem(3) nm(13)]
        mem_neq [OF mem(6) nm(17)] mem_neq [OF mem(6) nm(15)] mem_neq [OF mem(5) nm(12)])+
  have "chain h' X" "chain h' A" "chain h' S" "chain h' Y"
    using ch ne nm own unfolding h'_def by (simp_all add: chain_app)
  moreover have "nxt (h' (last X)) = hd S" "prv (h' (hd S)) = last X"
    "nxt (h' (last S)) = hd A" "prv (h' (hd A)) = last S" "nxt (h' (last A)) = hd Y" "prv (h' (hd Y)) = last A"
    using neq unfolding h'_def by simp_all
  ultimately show ?thesis using ne by (simp add: chain_app)
qed

lemma distinct_swap_mid: "distinct (X @ A @ S @ Y) \<Longrightarrow> distinct (X @ S @ A @ Y)"
  by auto

lemma list_rep_mem_interior: "list_rep h l xs \<Longrightarrow> x \<in> set xs \<Longrightarrow> is_interior h x"
  by (auto simp: in_set_conv_decomp dest: list_rep_interior)

lemma list_splice_rep:
  assumes rep: "list_rep h l (P @ (a # A) @ (s # S) @ R)"
  shows "\<exists>h'. list_splice h a s (after_pos l R) = Inr h' \<and> list_rep h' l (P @ (s # S) @ (a # A) @ R)
    \<and> (\<forall>q. q \<notin> set (nodes l (P @ (a # A) @ (s # S) @ R)) \<longrightarrow> h' q = h q)"
proof -
  let ?X = "head_of l # P" and ?Y = "R @ [tail_of l]" and ?A = "a # A" and ?S = "s # S"
  have N: "nodes l (P @ ?A @ ?S @ R) = ?X @ ?A @ ?S @ ?Y" "nodes l (P @ ?S @ ?A @ R) = ?X @ ?S @ ?A @ ?Y"
    by (simp_all add: nodes_def)
  have D: "distinct (?X @ ?A @ ?S @ ?Y)" and ch: "chain h (?X @ ?A @ ?S @ ?Y)"
    using rep unfolding list_rep_def N by blast+
  have i: "is_interior h a" "is_interior h s" "is_interior h (last ?S)"
    by (rule list_rep_mem_interior [OF rep]; simp)+
  have bp: "before_pos l (P @ ?A @ ?S) = last ?S" by (simp add: before_pos_def)
  have pv: "list_prev h (after_pos l R) = Inr (last ?S)"
    using list_prev_rep [of h l "P @ ?A @ ?S" R] rep unfolding bp by simp
  have ap: "after_pos l R = hd ?Y" by (simp add: after_pos_def)
  have lk: "prv (h s) = last ?A" "nxt (h (last ?S)) = hd ?Y" "prv (h a) = last ?X"
    using ch by (simp_all only: chain_app [of ?X "?A @ ?S @ ?Y"] chain_app [of ?A "?S @ ?Y"]
        chain_app [of ?S ?Y] list.distinct not_False_eq_True append_is_Nil_conv simp_thms hd_append2 list.sel)
  define h' where "h' = set_prv (set_nxt (set_nxt (set_prv (set_prv (set_nxt h (last ?A) (hd ?Y)) (hd ?Y)
      (last ?A)) (hd ?S) (last ?X)) (last ?S) (hd ?A)) (last ?X) (hd ?S)) (hd ?A) (last ?S)"
  have dj: "set ?X \<inter> set ?Y = {}" "set ?A \<inter> set ?S = {}" "set ?A \<inter> set ?Y = {}" "set ?S \<inter> set ?Y = {}"
    "set ?X \<inter> set ?A = {}" "set ?X \<inter> set ?S = {}"
    using D unfolding distinct_append set_append by blast+
  have mem: "hd ?Y \<in> set ?Y" "last ?X \<in> set ?X" "last ?A \<in> set ?A" "last ?S \<in> set ?S"
    "a \<in> set ?A" "s \<in> set ?S" "head_of l \<in> set ?X" "tail_of l \<in> set ?Y"
    by (rule hd_in_set last_in_set; simp)+ simp_all
  have neq: "s \<noteq> hd ?Y" "a \<noteq> hd ?Y" "a \<noteq> s" "last ?A \<noteq> last ?S" "head_of l \<noteq> hd ?Y"
    "head_of l \<noteq> s" "head_of l \<noteq> a" "tail_of l \<noteq> last ?A" "tail_of l \<noteq> last ?S" "tail_of l \<noteq> last ?X"
    by (fact disj_neq [OF mem(6,1) dj(4)] disj_neq [OF mem(5,1) dj(3)] disj_neq [OF mem(5,6) dj(2)]
        disj_neq [OF mem(3,4) dj(2)] disj_neq [OF mem(7,1) dj(1)] disj_neq [OF mem(7,6) dj(6)]
        disj_neq [OF mem(7,5) dj(5)] disj_neq [OF mem(3,8) dj(3), symmetric]
        disj_neq [OF mem(4,8) dj(4), symmetric] disj_neq [OF mem(2,8) dj(1), symmetric])+
  have 1: "list_splice h a s (after_pos l R) = Inr h'"
    using i neq by (simp add: list_splice_def pv [unfolded ap] lk h'_def ap Let_def del: last.simps)
  have 2: "chain h' (nodes l (P @ ?S @ ?A @ R))"
    unfolding N h'_def by (rule chain_splice [OF ch D]) simp_all
  have 3: "prv (h' (head_of l)) = 0" "nxt (h' (tail_of l)) = 0"
    using rep neq unfolding list_rep_def h'_def by (simp_all del: last.simps)
  have 4: "h' q = h q" if "q \<notin> set (nodes l (P @ ?A @ ?S @ R))" for q
  proof -
    have "q \<noteq> last ?A" "q \<noteq> hd ?Y" "q \<noteq> s" "q \<noteq> last ?S" "q \<noteq> last ?X" "q \<noteq> a"
      using that mem unfolding N set_append by blast+
    then show ?thesis by (simp add: h'_def set_prv_def set_nxt_def del: last.simps)
  qed
  have 5: "distinct (nodes l (P @ ?S @ ?A @ R))" "0 \<notin> set (nodes l (P @ ?S @ ?A @ R))"
    using distinct_swap_mid [OF D] rep unfolding list_rep_def N by simp_all
  have "list_rep h' l (P @ ?S @ ?A @ R)"
    unfolding list_rep_def by (intro conjI 2 3 5)
  with 1 4 show ?thesis by blast
qed

section \<open>Traversals\<close>

lemma list_size_loop_rep:
  "list_rep h l (ys @ zs) \<Longrightarrow>
     list_size_loop h l (after_pos l zs) cnt = Some (Inr (cnt + of_nat (length zs)))"
proof (induction zs arbitrary: ys cnt)
  case Nil
  then show ?case by (simp add: list_size_loop.simps)
next
  case (Cons z zs)
  then show ?case
    using list_next_rep [OF Cons.prems] list_rep_not_tail [OF Cons.prems, of z]
      Cons.IH [of "ys @ [z]" "cnt + 1"]
    by (subst list_size_loop.simps) (simp add: algebra_simps)
qed

lemma list_rep_length: "list_rep h l xs \<Longrightarrow> length xs < 2 ^ 32 - 2"
proof -
  assume rep: "list_rep h l xs"
  then have d: "distinct (0 # nodes l xs)" by (simp add: list_rep_def)
  then have "length (0 # nodes l xs) = card (set (0 # nodes l xs))" by (rule distinct_card [symmetric])
  also have "\<dots> \<le> card (UNIV :: addr set)" by (rule card_mono) simp_all
  finally show ?thesis by (simp add: nodes_def card_word)
qed

lemma list_size_rep:
  assumes "list_rep h l xs"
  shows "\<exists>n. list_size h l = Some (Inr n) \<and> unat n = length xs"
  using list_size_loop_rep [of h l "[]" xs 0] list_rep_length [OF assms] assms
  by (simp add: list_size_def list_begin_rep unat_of_nat)

fun asc :: "('a \<Rightarrow> 'a \<Rightarrow> bool) \<Rightarrow> 'a list \<Rightarrow> bool" where
  "asc lt [] = True"
| "asc lt [x] = True"
| "asc lt (x # y # zs) = (\<not> lt y x \<and> asc lt (y # zs))"

lemma is_sorted_loop_rep:
  "list_rep h l (P @ a # A @ R) \<Longrightarrow>
     is_sorted_loop h lt a (after_pos l R) = Some (Inr (asc lt (a # A)))"
proof (induction A arbitrary: P a)
  case Nil
  then show ?case
    using list_next_rep [of h l P a R] by (subst is_sorted_loop.simps) simp
next
  case (Cons b A)
  have "list_prev h b = Inr a" using list_prev_rep [of h l "P @ [a]" "b # A @ R"] Cons.prems by simp
  moreover have "b \<noteq> after_pos l R"
    using Cons.prems by (cases R) (auto simp: list_rep_def nodes_def)
  ultimately show ?case
    using list_next_rep [of h l P a "b # A @ R"] Cons.IH [of "P @ [a]" b] Cons.prems
    by (subst is_sorted_loop.simps) simp
qed

lemma after_pos_neq:
  "list_rep h l (P @ a # A @ R) \<Longrightarrow> a \<noteq> after_pos l R"
  by (cases R) (auto simp: list_rep_def nodes_def)

lemma is_sorted_rep:
  "list_rep h l (P @ A @ R) \<Longrightarrow>
     is_sorted h lt (after_pos l (A @ R)) (after_pos l R) = Some (Inr (asc lt A))"
  using is_sorted_loop_rep [of h l P _ _ R] after_pos_neq [of h l P _ _ R]
  by (cases A) (auto simp: is_sorted_def)

fun take_run :: "('a \<Rightarrow> 'a \<Rightarrow> bool) \<Rightarrow> 'a list \<Rightarrow> 'a list \<times> 'a list" where
  "take_run lt [] = ([], [])"
| "take_run lt [x] = ([x], [])"
| "take_run lt (x # y # zs) =
     (if lt y x then ([x], y # zs) else (let (r, rest) = take_run lt (y # zs) in (x # r, rest)))"

lemma take_run_append: "take_run lt xs = (r, rest) \<Longrightarrow> r @ rest = xs"
  by (induction lt xs arbitrary: r rule: take_run.induct) (auto split: if_splits prod.splits)

lemma take_run_hd: "take_run lt (x # xs) = (r, rest) \<Longrightarrow> \<exists>r'. r = x # r'"
  by (cases xs) (auto split: if_splits prod.splits)

lemma asc_take_run: "take_run lt xs = (r, rest) \<Longrightarrow> asc lt r"
proof (induction lt xs arbitrary: r rule: take_run.induct)
  case (3 lt x y zs)
  show ?case
  proof (cases "lt y x")
    case True
    with "3.prems" show ?thesis by auto
  next
    case False
    then obtain r' where r': "take_run lt (y # zs) = (r', rest)" "r = x # r'"
      using "3.prems" by (auto split: prod.splits)
    moreover obtain r'' where "r' = y # r''" using take_run_hd [OF r'(1)] by blast
    ultimately show ?thesis using "3.IH" [OF False r'(1)] False by simp
  qed
qed auto

lemma find_end_of_run_loop_rep:
  "list_rep h l (P @ z # zs) \<Longrightarrow> take_run lt (z # zs) = (r, rest) \<Longrightarrow>
     find_end_of_run_loop h lt z (tail_of l) = Some (Inr (after_pos l rest))"
proof (induction zs arbitrary: P z r)
  case Nil
  then show ?case
    using list_next_rep [of h l P z "[]"] by (subst find_end_of_run_loop.simps) auto
next
  case (Cons y zs)
  have "list_prev h y = Inr z" using list_prev_rep [of h l "P @ [z]" "y # zs"] Cons.prems by simp
  moreover have "y \<noteq> tail_of l" using list_rep_not_tail Cons.prems(1) by simp
  ultimately show ?case
    using list_next_rep [of h l P z "y # zs"] Cons.IH [of "P @ [z]" y] Cons.prems
    by (subst find_end_of_run_loop.simps) (auto split: if_splits prod.splits)
qed

lemma find_end_of_run_rep:
  assumes "list_rep h l (P @ z # zs)" "take_run lt (z # zs) = (r, rest)"
  shows "find_end_of_run h lt z (tail_of l) = Some (Inr (after_pos l rest))"
  using assms find_end_of_run_loop_rep [OF assms] list_rep_not_tail [OF assms(1), of z]
  by (auto simp: find_end_of_run_def list_rep_def nodes_def)

section \<open>Natural merge sort\<close>

text \<open>The abstract merge, pass and sort, and that the pointer code computes them.\<close>

fun lmerge :: "('a \<Rightarrow> 'a \<Rightarrow> bool) \<Rightarrow> 'a list \<Rightarrow> 'a list \<Rightarrow> 'a list" where
  "lmerge lt [] bs = bs"
| "lmerge lt (a # as) [] = a # as"
| "lmerge lt (a # as) (b # bs) =
     (if \<not> lt b a then a # lmerge lt as (b # bs) else b # lmerge lt (a # as) bs)"

lemma lmerge_induct [case_names Nil1 Nil2 Cons]:
  assumes "\<And>bs. P [] bs" and "\<And>a as. P (a # as) []"
    and "\<And>a as b bs. (\<not> lt b a \<Longrightarrow> P as (b # bs)) \<Longrightarrow> (lt b a \<Longrightarrow> P (a # as) bs) \<Longrightarrow> P (a # as) (b # bs)"
  shows "P A B"
proof (induction "length A + length B" arbitrary: A B rule: less_induct)
  case less
  then show ?case by (cases A; cases B) (simp_all add: assms)
qed

lemma mset_lmerge [simp]: "mset (lmerge lt A B) = mset A + mset B"
  by (induction lt A B rule: lmerge.induct) auto

lemma set_lmerge [simp]: "set (lmerge lt A B) = set A \<union> set B"
  by (induction lt A B rule: lmerge.induct) auto

lemma inplace_merge_loop_rep:
  "list_rep h l (P @ A @ B @ R) \<Longrightarrow>
     \<exists>h'. inplace_merge_loop h lt (after_pos l (A @ B @ R)) (after_pos l (B @ R)) (after_pos l R) = Some (Inr h')
       \<and> list_rep h' l (P @ lmerge lt A B @ R)
       \<and> (\<forall>q. q \<notin> set (nodes l (P @ A @ B @ R)) \<longrightarrow> h' q = h q)"
proof (induction lt A B arbitrary: h P rule: lmerge.induct)
  case (1 lt bs)
  then show ?case by (auto simp: inplace_merge_loop.simps)
next
  case (2 lt a as)
  then show ?case by (auto simp: inplace_merge_loop.simps)
next
  case (3 lt a as b bs)
  have ne: "a \<noteq> b" "b \<noteq> after_pos l R"
    using "3.prems" after_pos_neq [of h l "P @ a # as" b bs R] by (auto simp: list_rep_def nodes_def)
  show ?case
  proof (cases "lt b a")
    case False
    have "list_next h a = Inr (after_pos l (as @ b # bs @ R))"
      using list_next_rep [of h l P a "as @ b # bs @ R"] "3.prems" by simp
    moreover have "list_rep h l ((P @ [a]) @ as @ (b # bs) @ R)" using "3.prems" by simp
    ultimately show ?thesis
      using "3.IH"(1) [OF False, of h "P @ [a]"] False ne
      by (subst inplace_merge_loop.simps) auto
  next
    case True
    have nx: "list_next h b = Inr (after_pos l (bs @ R))"
      using list_next_rep [of h l "P @ a # as" b "bs @ R"] "3.prems" by simp
    have pv: "list_prev h (after_pos l (bs @ R)) = Inr b"
      using list_prev_rep [of h l "P @ a # as @ [b]" "bs @ R"] "3.prems"
      by (simp add: before_pos_def)
    obtain h1 where h1: "list_splice h a b (after_pos l (bs @ R)) = Inr h1"
      "list_rep h1 l ((P @ [b]) @ (a # as) @ bs @ R)"
      "\<forall>q. q \<notin> set (nodes l (P @ (a # as) @ (b # bs) @ R)) \<longrightarrow> h1 q = h q"
      using list_splice_rep [of h l P a as b "[]" "bs @ R"] "3.prems" by auto
    obtain h2 where h2: "inplace_merge_loop h1 lt (after_pos l ((a # as) @ bs @ R)) (after_pos l (bs @ R))
        (after_pos l R) = Some (Inr h2)" "list_rep h2 l ((P @ [b]) @ lmerge lt (a # as) bs @ R)"
      "\<forall>q. q \<notin> set (nodes l ((P @ [b]) @ (a # as) @ bs @ R)) \<longrightarrow> h2 q = h1 q"
      using "3.IH"(2) [of h1 "P @ [b]"] True h1(2) by blast
    have "h2 q = h q" if "q \<notin> set (nodes l (P @ (a # as) @ (b # bs) @ R))" for q
      using that h1(3) h2(3) by (auto simp: nodes_def)
    then show ?thesis using True ne nx pv h1(1) h2(1,2)
      by (subst inplace_merge_loop.simps) auto
  qed
qed

lemma inplace_merge_rep:
  assumes rep: "list_rep h l (P @ A @ B @ R)" and "asc lt A" "asc lt B"
  shows "\<exists>h'. inplace_merge h lt (after_pos l (A @ B @ R)) (after_pos l (B @ R)) (after_pos l R) = Some (Inr h')
       \<and> list_rep h' l (P @ lmerge lt A B @ R)
       \<and> (\<forall>q. q \<notin> set (nodes l (P @ A @ B @ R)) \<longrightarrow> h' q = h q)"
proof -
  have "after_pos l (A @ B @ R) \<noteq> 0" "after_pos l (B @ R) \<noteq> 0" "after_pos l R \<noteq> 0"
    using list_rep_links(4) [of h l P "A @ B @ R"] list_rep_links(4) [of h l "P @ A" "B @ R"]
      list_rep_links(4) [of h l "P @ A @ B" R] rep by simp_all
  moreover have "is_sorted h lt (after_pos l (A @ B @ R)) (after_pos l (B @ R)) = Some (Inr True)"
    "is_sorted h lt (after_pos l (B @ R)) (after_pos l R) = Some (Inr True)"
    using is_sorted_rep [of h l P A "B @ R"] is_sorted_rep [of h l "P @ A" B R] assms by simp_all
  ultimately show ?thesis
    using inplace_merge_loop_rep [OF rep, of lt] by (simp add: inplace_merge_def)
qed

lemma take_run_length: "take_run lt xs = (r, rest) \<Longrightarrow> length rest \<le> length xs - 1"
  using take_run_append [of lt xs r rest] take_run_hd [of lt _ _ r rest] by (cases xs) force+

function sort_pass :: "('a \<Rightarrow> 'a \<Rightarrow> bool) \<Rightarrow> 'a list \<Rightarrow> 'a list \<times> nat" where
  "sort_pass lt [] = ([], 0)"
| "sort_pass lt (x # xs) =
     (case take_run lt (x # xs) of (A, []) \<Rightarrow> (A, 1)
      | (A, y # ys) \<Rightarrow>
         (case take_run lt (y # ys) of (B, rest) \<Rightarrow>
           (case sort_pass lt rest of (zs, n) \<Rightarrow> (lmerge lt A B @ zs, n + 1))))"
  by pat_completeness auto
termination
  by (relation "measure (\<lambda>(lt, xs). length xs)") (auto dest!: take_run_length [OF sym])

lemma sort_pass_ConsE [consumes 1, case_names single merge]:
  assumes "sort_pass lt (x # xs) = (ys, n)"
  obtains "take_run lt (x # xs) = (ys, [])" "n = 1"
  | A y rs B rest zs k where "take_run lt (x # xs) = (A, y # rs)" "take_run lt (y # rs) = (B, rest)"
      "sort_pass lt rest = (zs, k)" "ys = lmerge lt A B @ zs" "n = k + 1"
  using assms by (auto split: prod.splits list.splits)

lemma list_sort_pass_rep:
  "list_rep h l (P @ zs) \<Longrightarrow> sort_pass lt zs = (ys, n) \<Longrightarrow>
     \<exists>h'. list_sort_pass h lt l (after_pos l zs) cnt = Some (Inr (h', cnt + of_nat n))
       \<and> list_rep h' l (P @ ys) \<and> (\<forall>q. q \<notin> set (nodes l (P @ zs)) \<longrightarrow> h' q = h q)"
proof (induction lt zs arbitrary: h P ys n cnt rule: sort_pass.induct)
  case (1 lt)
  then show ?case by (auto simp: list_sort_pass.simps)
next
  case (2 lt x xs)
  have nt: "x \<noteq> tail_of l" using list_rep_not_tail "2.prems"(1) by simp
  show ?case using "2.prems"(2)
  proof (cases rule: sort_pass_ConsE)
    case single
    have "find_end_of_run h lt x (tail_of l) = Some (Inr (tail_of l))"
      using find_end_of_run_rep [OF "2.prems"(1) single(1)] by simp
    then show ?thesis using "2.prems" single nt take_run_append [OF single(1)]
      by (subst list_sort_pass.simps) auto
  next
    case (merge A y rs B rest zs k)
    note app = take_run_append [OF merge(1)] take_run_append [OF merge(2)]
    have rep: "list_rep h l (P @ A @ B @ rest)" using "2.prems"(1) app by simp
    have "y \<in> set (x # xs)" by (simp flip: app(1))
    then have yt: "y \<noteq> tail_of l" by (intro list_rep_not_tail [OF "2.prems"(1)]) auto
    have fe: "find_end_of_run h lt x (tail_of l) = Some (Inr y)"
      "find_end_of_run h lt y (tail_of l) = Some (Inr (after_pos l rest))"
      using find_end_of_run_rep [OF "2.prems"(1) merge(1)] "2.prems"(1) app(1)
        find_end_of_run_rep [of h l "P @ A" y rs lt B rest] merge(2) by simp_all
    have pos: "after_pos l (A @ B @ rest) = x" "after_pos l (B @ rest) = y"
      by (simp_all add: app)
    obtain h1 where h1: "inplace_merge h lt x y (after_pos l rest) = Some (Inr h1)"
      "list_rep h1 l ((P @ lmerge lt A B) @ rest)"
      "\<forall>q. q \<notin> set (nodes l (P @ A @ B @ rest)) \<longrightarrow> h1 q = h q"
      using inplace_merge_rep [OF rep asc_take_run [OF merge(1)] asc_take_run [OF merge(2)]]
      unfolding pos by auto
    obtain h2 where h2: "list_sort_pass h1 lt l (after_pos l rest) (cnt + 1) = Some (Inr (h2, cnt + 1 + of_nat k))"
      "list_rep h2 l ((P @ lmerge lt A B) @ zs)"
      "\<forall>q. q \<notin> set (nodes l ((P @ lmerge lt A B) @ rest)) \<longrightarrow> h2 q = h1 q"
      using "2.IH" [OF merge(1) [symmetric] refl merge(2) [symmetric] h1(2) merge(3)] by blast
    have "set (nodes l ((P @ lmerge lt A B) @ rest)) = set (nodes l (P @ A @ B @ rest))"
      by (auto simp: nodes_def)
    moreover have "set (nodes l (P @ x # xs)) = set (nodes l (P @ A @ B @ rest))"
      by (simp add: app)
    ultimately have "h2 q = h q" if "q \<notin> set (nodes l (P @ x # xs))" for q
      using that h1(3) h2(3) by simp
    then show ?thesis
      using fe nt yt h1(1) h2(1,2) merge(4,5)
      by (subst list_sort_pass.simps) (simp add: algebra_simps)
  qed
qed

text \<open>Each pass halves the number of maximal runs, so the outer loop ends.\<close>

fun runs :: "('a \<Rightarrow> 'a \<Rightarrow> bool) \<Rightarrow> 'a list \<Rightarrow> nat" where
  "runs lt [] = 0"
| "runs lt [x] = 1"
| "runs lt (x # y # zs) = (if lt y x then 1 else 0) + runs lt (y # zs)"

lemma runs_pos: "runs lt (x # xs) \<ge> 1"
  by (induction xs arbitrary: x) (auto simp: le_Suc_eq trans_le_add2)

lemma asc_iff_runs: "asc lt xs \<longleftrightarrow> runs lt xs \<le> 1"
proof (induction lt xs rule: asc.induct)
  case (3 lt x y zs)
  then show ?case using runs_pos [of lt y zs] by auto
qed auto

lemma runs_append_le: "runs lt (xs @ ys) \<le> runs lt xs + runs lt ys"
proof (induction lt xs rule: runs.induct)
  case (2 lt x)
  then show ?case by (cases ys) auto
qed auto

lemma runs_take_run: "take_run lt (x # xs) = (r, rest) \<Longrightarrow> runs lt (x # xs) = 1 + runs lt rest"
proof (induction xs arbitrary: x r)
  case (Cons y ys)
  then show ?case by (auto split: if_splits prod.splits)
qed auto

lemma asc_Cons: "asc lt (x # xs) \<longleftrightarrow> asc lt xs \<and> (\<forall>y ys. xs = y # ys \<longrightarrow> \<not> lt y x)"
  by (cases xs) auto

lemma asc_lmerge:
  "asymp lt \<Longrightarrow> asc lt A \<Longrightarrow> asc lt B \<Longrightarrow> asc lt (lmerge lt A B)"
proof (induction lt A B rule: lmerge.induct)
  case (3 lt a as b bs)
  show ?case
  proof (cases "lt b a")
    case False
    with 3 have "asc lt (lmerge lt as (b # bs))" by (simp add: asc_Cons)
    with False "3.prems" show ?thesis by (cases as) (auto simp: asc_Cons split: if_splits)
  next
    case True
    with 3 have "asc lt (lmerge lt (a # as) bs)" by (simp add: asc_Cons)
    with True "3.prems" asympD [OF "3.prems"(1) True] show ?thesis
      by (cases bs) (auto simp: asc_Cons split: if_splits)
  qed
qed auto

lemma sort_pass_runs:
  "asymp lt \<Longrightarrow> sort_pass lt zs = (ys, n) \<Longrightarrow> runs lt ys \<le> n \<and> n = (runs lt zs + 1) div 2"
proof (induction lt zs arbitrary: ys n rule: sort_pass.induct)
  case (2 lt x xs)
  show ?case using "2.prems"(2)
  proof (cases rule: sort_pass_ConsE)
    case single
    then show ?thesis
      using runs_take_run [of lt x xs] asc_take_run [of lt "x # xs"] by (simp add: asc_iff_runs)
  next
    case (merge A y rs B rest zs k)
    have IH: "runs lt zs \<le> k" "k = (runs lt rest + 1) div 2"
      using "2.IH" [OF merge(1) [symmetric] refl merge(2) [symmetric] "2.prems"(1) merge(3)] by auto
    have "asc lt (lmerge lt A B)"
      by (rule asc_lmerge [OF "2.prems"(1) asc_take_run [OF merge(1)] asc_take_run [OF merge(2)]])
    then have "runs lt ys \<le> n"
      using runs_append_le [of lt "lmerge lt A B" zs] IH(1) merge(4,5) by (simp add: asc_iff_runs)
    moreover have "runs lt (x # xs) = 2 + runs lt rest"
      using runs_take_run [OF merge(1)] runs_take_run [OF merge(2)] by simp
    ultimately show ?thesis using merge(5) IH(2) by simp
  qed
qed auto

lemma mset_sort_pass: "sort_pass lt zs = (ys, n) \<Longrightarrow> mset ys = mset zs"
proof (induction lt zs arbitrary: ys n rule: sort_pass.induct)
  case (2 lt x xs)
  show ?case using "2.prems"
  proof (cases rule: sort_pass_ConsE)
    case single
    then show ?thesis using take_run_append by force
  next
    case (merge A y rs B rest zs k)
    have "mset zs = mset rest"
      by (rule "2.IH" [OF merge(1) [symmetric] refl merge(2) [symmetric] merge(3)])
    then show ?thesis
      using take_run_append [OF merge(1)] take_run_append [OF merge(2)] merge(4)
      by (metis mset_append mset_lmerge union_assoc)
  qed
qed auto

lemma sort_pass_count: "sort_pass lt zs = (ys, n) \<Longrightarrow> n \<le> length zs"
proof (induction lt zs arbitrary: ys n rule: sort_pass.induct)
  case (2 lt x xs)
  show ?case using "2.prems"
  proof (cases rule: sort_pass_ConsE)
    case (merge A y rs B rest zs k)
    have "k \<le> length rest"
      by (rule "2.IH" [OF merge(1) [symmetric] refl merge(2) [symmetric] merge(3)])
    then show ?thesis
      using take_run_length [OF merge(1)] take_run_length [OF merge(2)] merge(5) by simp
  qed simp
qed auto

definition pass_steps :: "('a \<Rightarrow> 'a \<Rightarrow> bool) \<Rightarrow> 'a list \<Rightarrow> 'a list \<Rightarrow> bool" where
  "pass_steps lt = (\<lambda>xs ys. ys = fst (sort_pass lt xs))\<^sup>+\<^sup>+"

lemma pass_steps_preserves:
  "pass_steps lt xs ys \<Longrightarrow> (\<And>xs. f (fst (sort_pass lt xs)) = f xs) \<Longrightarrow> f ys = f xs"
  unfolding pass_steps_def by (induction rule: tranclp_induct) auto

lemma mset_pass_steps: "pass_steps lt xs ys \<Longrightarrow> mset ys = mset xs"
  by (erule pass_steps_preserves) (metis mset_sort_pass prod.collapse)

lemma list_sort_loop_rep:
  assumes "asymp lt"
  shows "list_rep h l xs \<Longrightarrow>
    \<exists>h' ys. list_sort_loop h lt l = Some (Inr h') \<and> list_rep h' l ys \<and> asc lt ys \<and> pass_steps lt xs ys
      \<and> (\<forall>q. q \<notin> set (nodes l xs) \<longrightarrow> h' q = h q)"
proof (induction "runs lt xs" arbitrary: h xs rule: less_induct)
  case less
  obtain ys n where p: "sort_pass lt xs = (ys, n)" by force
  note facts = sort_pass_runs [OF assms p] mset_sort_pass [OF p]
  obtain h1 where h1: "list_sort_pass h lt l (after_pos l xs) 0 = Some (Inr (h1, of_nat n))"
    "list_rep h1 l ys" "\<forall>q. q \<notin> set (nodes l xs) \<longrightarrow> h1 q = h q"
    using list_sort_pass_rep [of h l "[]" xs lt ys n 0] less.prems p by auto
  have "n < 2 ^ 32"
    using sort_pass_count [OF p] list_rep_length [OF less.prems] by simp
  then have cmp: "(1 :: u32) < of_nat n \<longleftrightarrow> 1 < n"
    by (simp add: word_less_nat_alt unat_of_nat)
  have step: "list_sort_loop h lt l =
      (if 1 < n then list_sort_loop h1 lt l else Some (Inr h1))"
    using h1(1) less.prems by (subst list_sort_loop.simps) (simp add: list_begin_rep cmp)
  show ?case
  proof (cases "1 < n")
    case True
    then have "runs lt ys < runs lt xs" using facts(1) by arith
    from less.hyps [OF this h1(2)] obtain h2 zs where h2: "list_sort_loop h1 lt l = Some (Inr h2)"
      "list_rep h2 l zs" "asc lt zs" "pass_steps lt ys zs" "\<forall>q. q \<notin> set (nodes l ys) \<longrightarrow> h2 q = h1 q"
      by blast
    moreover have "pass_steps lt xs zs"
      using h2(4) p unfolding pass_steps_def by (auto intro: tranclp_into_tranclp2)
    moreover have "set (nodes l ys) = set (nodes l xs)"
      using mset_eq_setD [OF facts(2)] by (simp add: nodes_def)
    ultimately show ?thesis using True step h1(3) by auto
  next
    case False
    then have "asc lt ys" using facts(1) by (simp add: asc_iff_runs)
    moreover have "pass_steps lt xs ys" using p unfolding pass_steps_def by auto
    ultimately show ?thesis using False step h1 by auto
  qed
qed

lemma list_sort_rep:
  assumes "asymp lt" "list_rep h l xs"
  shows "\<exists>h' ys. list_sort h lt l = Some (Inr h') \<and> list_rep h' l ys \<and> asc lt ys \<and> pass_steps lt xs ys
      \<and> (\<forall>q. q \<notin> set (nodes l xs) \<longrightarrow> h' q = h q)"
proof -
  obtain h' ys where h': "list_sort_loop h lt l = Some (Inr h')" "list_rep h' l ys" "asc lt ys"
    "pass_steps lt xs ys" "\<forall>q. q \<notin> set (nodes l xs) \<longrightarrow> h' q = h q"
    using list_sort_loop_rep [OF assms] by blast
  then show ?thesis
    using is_sorted_rep [of h' l "[]" ys "[]" lt] list_rep_nonnull [OF assms(2)]
    by (simp add: list_sort_def list_begin_rep) blast
qed

subsection \<open>The contract of a \<^verbatim>\<open>list_less_func\<close>\<close>

text \<open>A comparison function is expected to be a strict weak order. Under that contract the
  adjacent order that the code checks is a full sort, and sorting is stable.\<close>

locale strict_weak =
  fixes lt :: "'a \<Rightarrow> 'a \<Rightarrow> bool"
  assumes asym: "lt x y \<Longrightarrow> \<not> lt y x"
    and split: "lt x z \<Longrightarrow> lt x y \<or> lt y z"
begin

definition same :: "'a \<Rightarrow> 'a \<Rightarrow> bool" where
  "same x y \<longleftrightarrow> \<not> lt x y \<and> \<not> lt y x"

lemma asymp_lt: "asymp lt"
  by (rule asympI) (rule asym)

lemma asc_sorted_wrt: "asc lt xs \<longleftrightarrow> sorted_wrt (\<lambda>x y. \<not> lt y x) xs"
proof (induction xs rule: induct_list012)
  case (3 x y zs)
  have "\<not> lt z x" if "\<not> lt y x" "\<not> lt z y" for z using split that by blast
  then show ?case using 3 by auto
qed simp_all

lemma filter_lmerge:
  "asc lt A \<Longrightarrow> asc lt B \<Longrightarrow> filter (same k) (lmerge lt A B) = filter (same k) A @ filter (same k) B"
proof (induction A B rule: lmerge_induct [where lt = lt])
  case (Cons a as b bs)
  show ?case
  proof (cases "lt b a")
    case False
    with Cons show ?thesis by (simp add: asc_Cons)
  next
    case True
    have "filter (same k) (a # as) = []" if "same k b"
    proof -
      have "\<not> lt x a" if "x \<in> set (a # as)" for x
        using Cons.prems(1) that asym unfolding asc_sorted_wrt by auto
      then have "lt b x" if "x \<in> set (a # as)" for x using that split [OF True, of x] by auto
      then show ?thesis using \<open>same k b\<close> split asym unfolding same_def filter_empty_conv by blast
    qed
    with True Cons show ?thesis by (auto simp: asc_Cons)
  qed
qed simp_all

lemma filter_sort_pass: "filter (same k) (fst (sort_pass lt zs)) = filter (same k) zs"
proof (induction "length zs" arbitrary: zs rule: less_induct)
  case (less zs)
  show ?case
  proof (cases zs)
    case (Cons x xs)
    obtain ys n where p: "sort_pass lt (x # xs) = (ys, n)" by force
    then have "filter (same k) ys = filter (same k) (x # xs)"
    proof (cases rule: sort_pass_ConsE)
      case single
      then show ?thesis using take_run_append [OF single(1)] by simp
    next
      case (merge A y rs B rest us m)
      have "length rest < length zs"
        using take_run_length [OF merge(1)] take_run_length [OF merge(2)] Cons by simp
      from less [OF this] have IH: "filter (same k) us = filter (same k) rest"
        by (simp add: merge(3))
      have "filter (same k) ys = filter (same k) (A @ B @ rest)"
        using filter_lmerge [OF asc_take_run [OF merge(1)] asc_take_run [OF merge(2)]] merge(4) IH
        by simp
      also have "A @ B @ rest = x # xs"
        by (simp only: take_run_append [OF merge(1)] take_run_append [OF merge(2)])
      finally show ?thesis .
    qed
    with p Cons show ?thesis by (simp only: fst_conv)
  qed simp
qed

lemma filter_pass_steps: "pass_steps lt xs ys \<Longrightarrow> filter (same k) ys = filter (same k) xs"
  by (erule pass_steps_preserves) (rule filter_sort_pass)

end

section \<open>Ordered insertion, duplicates, extrema\<close>

lemma list_insert_ordered_loop_rep:
  "list_rep h l (ys @ zs) \<Longrightarrow>
     list_insert_ordered_loop h lt l e (after_pos l zs) =
       Some (Inr (after_pos l (dropWhile (\<lambda>x. \<not> lt e x) zs)))"
proof (induction zs arbitrary: ys)
  case Nil
  then show ?case by (simp add: list_insert_ordered_loop.simps)
next
  case (Cons z zs)
  then show ?case
    using list_next_rep [OF Cons.prems] list_rep_not_tail [OF Cons.prems, of z] Cons.IH [of "ys @ [z]"]
    by (subst list_insert_ordered_loop.simps) simp
qed

definition insert_sorted :: "('a \<Rightarrow> 'a \<Rightarrow> bool) \<Rightarrow> 'a \<Rightarrow> 'a list \<Rightarrow> 'a list" where
  "insert_sorted lt e xs = takeWhile (\<lambda>x. \<not> lt e x) xs @ e # dropWhile (\<lambda>x. \<not> lt e x) xs"

lemma list_insert_ordered_rep:
  assumes "list_rep h l xs" "e \<noteq> 0" "e \<notin> set (nodes l xs)"
  shows "\<exists>h'. list_insert_ordered h lt l e = Some (Inr h') \<and> list_rep h' l (insert_sorted lt e xs)"
proof -
  let ?ys = "takeWhile (\<lambda>x. \<not> lt e x) xs" and ?zs = "dropWhile (\<lambda>x. \<not> lt e x) xs"
  have "\<exists>h'. list_insert h (after_pos l ?zs) e = Inr h' \<and> list_rep h' l (?ys @ e # ?zs)"
    using list_insert_rep [of h l ?ys ?zs e] assms by auto
  then show ?thesis
    using list_insert_ordered_loop_rep [of h l "[]" xs lt e] assms list_rep_nonnull [OF assms(1)]
    by (auto simp: list_insert_ordered_def list_begin_rep insert_sorted_def)
qed

lemma asc_append:
  "asc lt (xs @ ys) \<longleftrightarrow> asc lt xs \<and> asc lt ys \<and> (xs \<noteq> [] \<and> ys \<noteq> [] \<longrightarrow> \<not> lt (hd ys) (last xs))"
proof (induction lt xs rule: asc.induct)
  case (2 lt x)
  then show ?case by (cases ys) auto
qed auto

lemma asc_insert_sorted:
  assumes "asymp lt" "asc lt xs"
  shows "asc lt (insert_sorted lt e xs)"
proof -
  let ?P = "\<lambda>x. \<not> lt e x"
  have split: "asc lt (takeWhile ?P xs)" "asc lt (dropWhile ?P xs)"
    using assms(2) asc_append [of lt "takeWhile ?P xs" "dropWhile ?P xs"] by auto
  have "\<not> lt e (last (takeWhile ?P xs))" if "takeWhile ?P xs \<noteq> []"
    using last_in_set [OF that] set_takeWhileD by fastforce
  moreover have "\<not> lt y e" if "dropWhile ?P xs = y # ys" for y ys
    using hd_dropWhile [of ?P xs] that asympD [OF assms(1)] by auto
  ultimately show ?thesis using split unfolding insert_sorted_def asc_append by (auto simp: asc_Cons)
qed

fun split_dups :: "('a \<Rightarrow> 'a \<Rightarrow> bool) \<Rightarrow> 'a \<Rightarrow> 'a list \<Rightarrow> 'a list \<times> 'a list" where
  "split_dups lt x [] = ([x], [])"
| "split_dups lt x (y # ys) =
     (if \<not> lt x y \<and> \<not> lt y x then (let (us, ds) = split_dups lt x ys in (us, y # ds))
      else (let (us, ds) = split_dups lt y ys in (x # us, ds)))"

lemma list_max_loop_rep:
  "list_rep h l (ys @ zs) \<Longrightarrow>
     list_max_loop h lt l m (after_pos l zs) = Some (Inr (foldl (\<lambda>m x. if lt m x then x else m) m zs))"
proof (induction zs arbitrary: ys m)
  case Nil
  then show ?case by (simp add: list_max_loop.simps)
next
  case (Cons z zs)
  then show ?case
    using list_next_rep [OF Cons.prems] list_rep_not_tail [OF Cons.prems, of z] Cons.IH [of "ys @ [z]"]
    by (subst list_max_loop.simps) (simp add: Let_def)
qed

lemma list_max_rep:
  assumes "list_rep h l (x # xs)"
  shows "list_max h lt l = Some (Inr (foldl (\<lambda>m x. if lt m x then x else m) x xs))"
  using list_max_loop_rep [of h l "[x]" xs lt x] list_next_rep [of h l "[]" x xs]
    list_rep_not_tail [OF assms, of x] assms
  by (simp add: list_max_def list_begin_rep)

lemma list_min_loop_rep:
  "list_rep h l (ys @ zs) \<Longrightarrow>
     list_min_loop h lt l m (after_pos l zs) = Some (Inr (foldl (\<lambda>m x. if lt x m then x else m) m zs))"
proof (induction zs arbitrary: ys m)
  case Nil
  then show ?case by (simp add: list_min_loop.simps)
next
  case (Cons z zs)
  then show ?case
    using list_next_rep [OF Cons.prems] list_rep_not_tail [OF Cons.prems, of z] Cons.IH [of "ys @ [z]"]
    by (subst list_min_loop.simps) (simp add: Let_def)
qed

lemma list_min_rep:
  assumes "list_rep h l (x # xs)"
  shows "list_min h lt l = Some (Inr (foldl (\<lambda>m x. if lt x m then x else m) x xs))"
  using list_min_loop_rep [of h l "[x]" xs lt x] list_next_rep [of h l "[]" x xs]
    list_rep_not_tail [OF assms, of x] assms
  by (simp add: list_min_def list_begin_rep)

text \<open>Removing an element from one list and appending it to another.\<close>

lemma list_move_rep:
  assumes rep: "list_rep h l (ys @ y # zs)" "list_rep h l2 ds"
    and dj: "set (nodes l2 ds) \<inter> set (nodes l (ys @ y # zs)) = {}"
  shows "\<exists>h1 h2. list_remove h y = Inr (h1, after_pos l zs) \<and> list_push_back h1 l2 y = Inr h2
    \<and> list_rep h2 l (ys @ zs) \<and> list_rep h2 l2 (ds @ [y])
    \<and> set (nodes l2 (ds @ [y])) \<inter> set (nodes l (ys @ zs)) = {}"
proof -
  let ?N = "set (nodes l (ys @ zs))" and ?N2 = "set (nodes l2 ds)"
  have N: "set (nodes l (ys @ y # zs)) = insert y ?N" by (auto simp: nodes_def)
  have y: "y \<noteq> 0" "y \<notin> ?N" using rep(1) by (auto simp: list_rep_def nodes_def)
  have dj': "x \<notin> ?N2" if "x \<in> insert y ?N" for x using dj that unfolding N by blast
  obtain h1 where h1: "list_remove h y = Inr (h1, after_pos l zs)" "list_rep h1 l (ys @ zs)"
    "\<forall>q. q \<notin> {before_pos l ys, after_pos l zs} \<longrightarrow> h1 q = h q"
    using list_remove_rep [OF rep(1)] by blast
  have "h1 x = h x" if "x \<in> ?N2" for x
  proof -
    have "x \<noteq> before_pos l ys" "x \<noteq> after_pos l zs"
      using dj' pos_in_nodes [of l zs ys] pos_in_nodes [of l ys zs] that
      by (metis insertCI pos_in_nodes)+
    then show ?thesis using h1(3) by simp
  qed
  then have "list_rep h1 l2 ds" using rep(2) list_rep_frame [of l2 ds h1 h] by simp
  then obtain h2 where h2: "list_push_back h1 l2 y = Inr h2" "list_rep h2 l2 (ds @ [y])"
    "\<forall>q. q \<notin> insert y ?N2 \<longrightarrow> h2 q = h1 q"
    using list_push_back_rep [of h1 l2 ds y] y(1) dj' by auto
  have "h2 x = h1 x" if "x \<in> ?N" for x
  proof -
    have "x \<notin> insert y ?N2" using that dj' [of x] y(2) by auto
    then show ?thesis using h2(3) by simp
  qed
  then have "list_rep h2 l (ys @ zs)" using h1(2) list_rep_frame [of l "ys @ zs" h2 h1] by simp
  moreover have "set (nodes l2 (ds @ [y])) \<inter> ?N = {}"
  proof -
    have "set (nodes l2 (ds @ [y])) = insert y ?N2" by (auto simp: nodes_def)
    then show ?thesis using dj' y(2) by auto
  qed
  ultimately show ?thesis using h1(1) h2(1,2) by blast
qed

lemma list_unique_loop_rep:
  assumes "l2 \<noteq> 0 \<Longrightarrow> list_rep h l2 ds \<and> set (nodes l2 ds) \<inter> set (nodes l (ys @ x # zs)) = {}"
    and "list_rep h l (ys @ x # zs)" and "split_dups lt x zs = (us, es)"
  shows "\<exists>h'. list_unique_loop h lt l l2 x = Some (Inr h') \<and> list_rep h' l (ys @ us)
    \<and> (l2 \<noteq> 0 \<longrightarrow> list_rep h' l2 (ds @ es))"
  using assms
proof (induction zs arbitrary: h ys x ds us es)
  case Nil
  then show ?case
    using list_next_rep [of h l ys x "[]"] by (subst list_unique_loop.simps) auto
next
  case (Cons y zs)
  have nx: "list_next h x = Inr y" using list_next_rep [of h l ys x "y # zs"] Cons.prems by simp
  have yt: "y \<noteq> tail_of l" using list_rep_not_tail Cons.prems(2) by simp
  show ?case
  proof (cases "\<not> lt x y \<and> \<not> lt y x")
    case False
    then obtain us' where us: "split_dups lt y zs = (us', es)" "us = x # us'"
      using Cons.prems(3) by (auto split: if_splits prod.splits)
    have "list_unique_loop h lt l l2 x = list_unique_loop h lt l l2 y"
      using False nx yt by (subst list_unique_loop.simps) auto
    then show ?thesis
      using Cons.IH [of h ds "ys @ [x]" y us' es] Cons.prems(1,2) us by simp
  next
    case eq: True
    then obtain es' where es: "split_dups lt x zs = (us, es')" "es = y # es'"
      using Cons.prems(3) by (auto split: if_splits prod.splits)
    show ?thesis
    proof (cases "l2 = 0")
      case True
      obtain h1 where h1: "list_remove h y = Inr (h1, after_pos l zs)" "list_rep h1 l (ys @ x # zs)"
        using list_remove_rep [of h l "ys @ [x]" y zs] Cons.prems(2) by auto
      have "list_unique_loop h lt l l2 x = list_unique_loop h1 lt l l2 x"
        using eq nx yt h1(1) True by (subst list_unique_loop.simps) simp
      then show ?thesis using Cons.IH [of h1 ds ys x us es'] True h1(2) es(1) by simp
    next
      case False
      have "\<exists>h1 h2. list_remove h y = Inr (h1, after_pos l zs) \<and> list_push_back h1 l2 y = Inr h2
        \<and> list_rep h2 l ((ys @ [x]) @ zs) \<and> list_rep h2 l2 (ds @ [y])
        \<and> set (nodes l2 (ds @ [y])) \<inter> set (nodes l ((ys @ [x]) @ zs)) = {}"
        by (rule list_move_rep) (use Cons.prems(1,2) False in simp_all)
      then obtain h1 h2 where h: "list_remove h y = Inr (h1, after_pos l zs)"
        "list_push_back h1 l2 y = Inr h2" "list_rep h2 l (ys @ x # zs)" "list_rep h2 l2 (ds @ [y])"
        "set (nodes l2 (ds @ [y])) \<inter> set (nodes l (ys @ x # zs)) = {}" by auto
      have "list_unique_loop h lt l l2 x = list_unique_loop h2 lt l l2 x"
        using eq nx yt h(1,2) False by (subst list_unique_loop.simps) simp
      then show ?thesis
        using Cons.IH [of h2 "ds @ [y]" ys x us es'] h(3-5) es by simp
    qed
  qed
qed

lemma list_unique_rep:
  assumes "list_rep h l (x # xs)"
    and "l2 \<noteq> 0 \<longrightarrow> list_rep h l2 ds \<and> set (nodes l2 ds) \<inter> set (nodes l (x # xs)) = {}"
    and "split_dups lt x xs = (us, es)"
  shows "\<exists>h'. list_unique h lt l l2 = Some (Inr h') \<and> list_rep h' l us
    \<and> (l2 \<noteq> 0 \<longrightarrow> list_rep h' l2 (ds @ es))"
  using list_unique_loop_rep [of l2 h ds l "[]" x xs lt us es] assms list_rep_nonnull [OF assms(1)]
  by (simp add: list_unique_def list_empty_rep list_begin_rep)

section \<open>Reversal\<close>

definition swapped :: "heap \<Rightarrow> heap \<Rightarrow> addr set \<Rightarrow> bool" where
  "swapped h' h S \<longleftrightarrow>
     (\<forall>q. h' q = (if q \<in> S then \<lparr>prv = nxt (h q), nxt = prv (h q)\<rparr> else h q))"

lemma list_reverse_loop_rep:
  assumes "list_rep h0 l (ys @ zs)" "swapped h h0 (set ys)"
  shows "\<exists>h'. list_reverse_loop h l (after_pos l zs) = Some (Inr h') \<and> swapped h' h0 (set (ys @ zs))"
  using assms
proof (induction zs arbitrary: h ys)
  case Nil
  then show ?case by (auto simp: list_reverse_loop.simps)
next
  case (Cons z zs)
  have z: "z \<noteq> tail_of l" "z \<noteq> 0" "z \<notin> set ys"
    using Cons.prems(1) by (auto simp: list_rep_def nodes_def)
  then have "h z = h0 z" using Cons.prems(2) by (simp add: swapped_def)
  then have "prv (swap_links h z z) = after_pos l zs"
    using list_rep_elem(2) [OF Cons.prems(1)] by (simp add: swap_links_def)
  moreover have "swapped (swap_links h z) h0 (set (ys @ [z]))"
    using Cons.prems(2) z(3) by (auto simp: swapped_def swap_links_def)
  ultimately show ?case
    using Cons.IH [of "ys @ [z]" "swap_links h z"] Cons.prems(1) z
    by (subst list_reverse_loop.simps) (simp add: Let_def)
qed

lemma chain_swapped: "chain h xs \<Longrightarrow> swapped h' h S \<Longrightarrow> set xs \<subseteq> S \<Longrightarrow> chain h' (rev xs)"
proof (induction h xs rule: chain.induct)
  case (3 h x y zs)
  then have "chain h' (rev zs @ [y])" by simp
  with 3 show ?case by (simp add: swapped_def)
qed auto

lemma list_reverse_rep:
  assumes rep: "list_rep h l xs"
  shows "\<exists>h'. list_reverse h l = Some (Inr h') \<and> list_rep h' l (rev xs)"
proof (cases xs)
  case Nil
  then show ?thesis using rep by (simp add: list_reverse_def list_empty_rep)
next
  case (Cons x xs')
  obtain h1 where h1: "list_reverse_loop h l x = Some (Inr h1)" "swapped h1 h (set xs)"
    using list_reverse_loop_rep [of h l "[]" xs h] rep Cons by (auto simp: swapped_def)
  let ?H = "head_of l" and ?T = "tail_of l" and ?y = "last xs"
  have D: "distinct (?H # xs @ [?T])" "0 \<notin> set (?H # xs @ [?T])" and ch: "chain h (?H # xs @ [?T])"
    and e: "prv (h ?H) = 0" "nxt (h ?T) = 0"
    using rep by (simp_all add: list_rep_def nodes_def)
  have m: "x \<in> set xs" "?y \<in> set xs" using Cons by auto
  have ne: "xs \<noteq> []" using Cons by simp
  have lk: "nxt (h ?H) = x" "prv (h x) = ?H" "nxt (h ?y) = ?T" "prv (h ?T) = ?y" "chain h xs"
    using ch ne chain_app [of "[?H]" "xs @ [?T]" h] chain_app [of xs "[?T]" h] Cons by simp_all
  have sent: "h1 ?H = h ?H" "h1 ?T = h ?T" using h1(2) D by (auto simp: swapped_def)
  have crev: "chain h1 (rev xs)" by (rule chain_swapped [OF lk(5) h1(2)]) simp
  define h2 where "h2 = set_nxt (set_prv (set_prv (set_nxt h1 ?H ?y) ?T x) ?y ?H) x ?T"
  have ends: "nxt (h1 x) = ?H" "prv (h1 ?y) = ?T"
    using h1(2) m lk by (simp_all add: swapped_def)
  have neq: "?H \<noteq> ?y" "?T \<noteq> ?y" "?H \<noteq> x" "?T \<noteq> x" "?H \<noteq> ?T" using D m by auto
  have sw: "swap_ends h1 l = h2"
    using sent lk neq ends unfolding swap_ends_def h2_def by (simp add: Let_def)
  have rv: "hd (rev xs) = ?y" "last (rev xs) = x" using Cons by (simp_all add: hd_rev)
  have "chain h2 (rev xs)"
  proof -
    have "?y \<notin> set (tl (rev xs))" "x \<notin> set (butlast (rev xs))"
      using hd_notin_tl [of "rev xs"] last_notin_butlast [of "rev xs"] rv D(1) ne by simp_all
    then show ?thesis unfolding h2_def using crev D(1) by simp
  qed
  moreover have "nxt (h2 ?H) = ?y" "prv (h2 ?y) = ?H" "nxt (h2 x) = ?T" "prv (h2 ?T) = x"
    "prv (h2 ?H) = 0" "nxt (h2 ?T) = 0"
    using neq e sent unfolding h2_def by simp_all
  ultimately have "chain h2 (?H # rev xs @ [?T])"
    using chain_app [of "[?H]" "rev xs @ [?T]" h2] chain_app [of "rev xs" "[?T]" h2] ne rv by simp
  then have "list_rep h2 l (rev xs)"
    using D \<open>prv (h2 ?H) = 0\<close> \<open>nxt (h2 ?T) = 0\<close> by (auto simp: list_rep_def nodes_def)
  then show ?thesis
    using rep h1(1) sw Cons by (simp add: list_reverse_def list_empty_rep list_begin_rep)
qed

section \<open>Queues\<close>

text \<open>The run queue, the wait lists and the free lists use a list as a queue: append at the back,
  remove at the front. The locale states what such a client relies on.\<close>

primrec enq_all :: "('h \<Rightarrow> 'q \<Rightarrow> 'e \<Rightarrow> 'h res) \<Rightarrow> 'h \<Rightarrow> 'q \<Rightarrow> 'e list \<Rightarrow> 'h res" where
  "enq_all enq h q [] = Inr h"
| "enq_all enq h q (e # es) = bnd (enq h q e) (\<lambda>h. enq_all enq h q es)"

primrec deq_n :: "('h \<Rightarrow> 'q \<Rightarrow> ('h \<times> 'e) res) \<Rightarrow> 'h \<Rightarrow> 'q \<Rightarrow> nat \<Rightarrow> ('h \<times> 'e list) res" where
  "deq_n deq h q 0 = Inr (h, [])"
| "deq_n deq h q (Suc n) =
     bnd (deq h q) (\<lambda>(h, e). bnd (deq_n deq h q n) (\<lambda>(h, es). Inr (h, e # es)))"

locale fifo_queue =
  fixes rep :: "'h \<Rightarrow> 'q \<Rightarrow> 'e list \<Rightarrow> bool"
    and enq :: "'h \<Rightarrow> 'q \<Rightarrow> 'e \<Rightarrow> 'h res"
    and deq :: "'h \<Rightarrow> 'q \<Rightarrow> ('h \<times> 'e) res"
    and may_enter :: "'q \<Rightarrow> 'e \<Rightarrow> bool"
  assumes enq_rep: "rep h q xs \<Longrightarrow> may_enter q e \<Longrightarrow> e \<notin> set xs \<Longrightarrow>
      \<exists>h'. enq h q e = Inr h' \<and> rep h' q (xs @ [e])"
    and deq_rep: "rep h q (x # xs) \<Longrightarrow> \<exists>h'. deq h q = Inr (h', x) \<and> rep h' q xs"
    and deq_empty: "rep h q [] \<Longrightarrow> deq h q = Inl Assert_failed"
begin

lemma enq_all_rep:
  "rep h q xs \<Longrightarrow> list_all (may_enter q) es \<Longrightarrow> distinct (xs @ es) \<Longrightarrow>
     \<exists>h'. enq_all enq h q es = Inr h' \<and> rep h' q (xs @ es)"
proof (induction es arbitrary: h xs)
  case (Cons e es)
  then obtain h1 where "enq h q e = Inr h1" "rep h1 q (xs @ [e])" using enq_rep [of h q xs e] by auto
  with Cons.IH [of h1 "xs @ [e]"] Cons.prems show ?case by auto
qed simp

lemma deq_n_rep:
  "rep h q (ys @ zs) \<Longrightarrow> \<exists>h'. deq_n deq h q (length ys) = Inr (h', ys) \<and> rep h' q zs"
proof (induction ys arbitrary: h)
  case (Cons y ys)
  then obtain h1 where "deq h q = Inr (h1, y)" "rep h1 q (ys @ zs)" using deq_rep [of h q y] by auto
  with Cons.IH [of h1] show ?case by auto
qed simp

lemma fifo:
  assumes "rep h q xs" "list_all (may_enter q) es" "distinct (xs @ es)"
  shows "\<exists>h1 h2. enq_all enq h q es = Inr h1 \<and> deq_n deq h1 q (length (xs @ es)) = Inr (h2, xs @ es)
    \<and> deq h2 q = Inl Assert_failed"
proof -
  obtain h1 where h1: "enq_all enq h q es = Inr h1" "rep h1 q (xs @ es)"
    using enq_all_rep [OF assms] by blast
  obtain h2 where "deq_n deq h1 q (length (xs @ es)) = Inr (h2, xs @ es)" "rep h2 q []"
    using deq_n_rep [of h1 q "xs @ es" "[]"] h1(2) by auto
  with h1 deq_empty show ?thesis by blast
qed

end

interpretation kernel_queue: fifo_queue list_rep list_push_back list_pop_front
  "\<lambda>l e. e \<notin> {0, head_of l, tail_of l}"
proof
  fix h l xs e
  assume "list_rep h l xs" "e \<notin> {0, head_of l, tail_of l}" "e \<notin> set xs"
  then show "\<exists>h'. list_push_back h l e = Inr h' \<and> list_rep h' l (xs @ [e])"
    using list_push_back_rep [of h l xs e] by (auto simp: nodes_def)
next
  fix h l x xs
  assume "list_rep h l (x # xs)"
  then show "\<exists>h'. list_pop_front h l = Inr (h', x) \<and> list_rep h' l xs"
    using list_pop_front_rep by blast
next
  fix h l
  assume "list_rep h l []"
  then show "list_pop_front h l = Inl Assert_failed" by (rule list_pop_front_empty)
qed

section \<open>Properties\<close>

text \<open>C10: \<^verbatim>\<open>list_sort\<close> always returns on a well-formed list when the comparison is a strict weak
  order; no \<^verbatim>\<open>ASSERT\<close> in it, in \<^verbatim>\<open>inplace_merge\<close> or in \<^verbatim>\<open>list_splice\<close> fails; the list afterwards is
  well formed, holds the same elements, is sorted, keeps equal elements in their order, and no
  memory outside the list's own nodes is written.\<close>

theorem list_sort_correct:
  assumes "list_rep h l xs"
    and asym: "\<And>x y. lt x y \<Longrightarrow> \<not> lt y x"
    and weak: "\<And>x y z. lt x z \<Longrightarrow> lt x y \<or> lt y z"
  shows "\<exists>h' ys. list_sort h lt l = Some (Inr h') \<and> list_rep h' l ys \<and> mset ys = mset xs
    \<and> sorted_wrt (\<lambda>x y. \<not> lt y x) ys
    \<and> (\<forall>k. filter (\<lambda>x. \<not> lt k x \<and> \<not> lt x k) ys = filter (\<lambda>x. \<not> lt k x \<and> \<not> lt x k) xs)
    \<and> (\<forall>q. q \<notin> set (nodes l xs) \<longrightarrow> h' q = h q)"
proof -
  have sw: "strict_weak lt" by (rule strict_weak.intro) (fact asym, fact weak)
  obtain h' ys where s: "list_sort h lt l = Some (Inr h')" "list_rep h' l ys" "asc lt ys"
    "pass_steps lt xs ys" "\<forall>q. q \<notin> set (nodes l xs) \<longrightarrow> h' q = h q"
    using list_sort_rep [OF strict_weak.asymp_lt [OF sw] assms(1)] by blast
  have "filter (\<lambda>x. \<not> lt k x \<and> \<not> lt x k) ys = filter (\<lambda>x. \<not> lt k x \<and> \<not> lt x k) xs" for k
    using strict_weak.filter_pass_steps [OF sw s(4), of k] unfolding strict_weak.same_def [OF sw] .
  with s mset_pass_steps [OF s(4)] strict_weak.asc_sorted_wrt [OF sw] show ?thesis by blast
qed

text \<open>A small heap for the witnesses: the list at address 16 holds the elements 72 and 64, the list
  at address 160 is empty.\<close>

definition demo_heap :: heap where
  "demo_heap = (\<lambda>_. \<lparr>prv = 0, nxt = 0\<rparr>)
     (16 := \<lparr>prv = 0, nxt = 72\<rparr>, 72 := \<lparr>prv = 16, nxt = 64\<rparr>, 64 := \<lparr>prv = 72, nxt = 24\<rparr>,
      24 := \<lparr>prv = 64, nxt = 0\<rparr>, 160 := \<lparr>prv = 0, nxt = 168\<rparr>, 168 := \<lparr>prv = 160, nxt = 0\<rparr>)"

lemma demo_heap_rep: "list_rep demo_heap 16 [72, 64]" "list_rep demo_heap 160 []"
  by (simp_all add: list_rep_def nodes_def head_of_def tail_of_def demo_heap_def)

theorem list_sort_correct_witness:
  "\<exists>h' ys. list_sort demo_heap (<) 16 = Some (Inr h') \<and> list_rep h' 16 ys \<and> mset ys = mset [72, 64]
    \<and> sorted_wrt (\<lambda>x y. \<not> y < x) ys"
proof -
  have 1: "x < y \<Longrightarrow> \<not> y < x" and 2: "x < z \<Longrightarrow> x < y \<or> y < z" for x y z :: addr
    by auto
  show ?thesis
    using list_sort_correct [OF demo_heap_rep(1), of "(<)", OF 1 2] by blast
qed

text \<open>C13: a list used with \<^verbatim>\<open>list_push_back\<close> and \<^verbatim>\<open>list_pop_front\<close> is a first-in first-out queue: what is
  pushed comes out in the order of the pushes, after what was there before, and a further
  \<^verbatim>\<open>list_pop_front\<close> on the emptied list fails its assertion.\<close>

theorem list_fifo:
  assumes "list_rep h l xs" and "list_all (\<lambda>e. e \<notin> {0, head_of l, tail_of l}) es" and "distinct (xs @ es)"
  shows "\<exists>h1 h2. enq_all list_push_back h l es = Inr h1
    \<and> deq_n list_pop_front h1 l (length (xs @ es)) = Inr (h2, xs @ es)
    \<and> list_pop_front h2 l = Inl Assert_failed"
  by (rule kernel_queue.fifo [OF assms])

theorem list_fifo_witness:
  "\<exists>h1 h2. enq_all list_push_back demo_heap 16 [80, 96] = Inr h1
    \<and> deq_n list_pop_front h1 16 (Suc (Suc (Suc (Suc 0)))) = Inr (h2, [72, 64, 80, 96])
    \<and> list_pop_front h2 16 = Inl Assert_failed"
  using list_fifo [OF demo_heap_rep(1), of "[80, 96]"]
  by (simp add: head_of_def tail_of_def del: deq_n.simps enq_all.simps)

text \<open>C14: inserting a fresh element before any position and removing it again succeed, put the
  element there in between, return the position, and leave every other node of memory exactly as it
  was.\<close>

theorem list_insert_remove:
  assumes "list_rep h l (ys @ zs)" and "e \<noteq> 0" and "e \<notin> set (nodes l (ys @ zs))"
  shows "\<exists>h1 h2. list_insert h (after_pos l zs) e = Inr h1 \<and> list_rep h1 l (ys @ e # zs)
    \<and> list_remove h1 e = Inr (h2, after_pos l zs) \<and> list_rep h2 l (ys @ zs)
    \<and> (\<forall>q. q \<noteq> e \<longrightarrow> h2 q = h q)"
proof -
  obtain h1 where h1: "list_insert h (after_pos l zs) e = Inr h1" "list_rep h1 l (ys @ e # zs)"
    using list_insert_rep [OF assms] by blast
  obtain h2 where h2: "list_remove h1 e = Inr (h2, after_pos l zs)" "list_rep h2 l (ys @ zs)"
    using list_remove_rep [OF h1(2)] by blast
  note lk = list_rep_links [OF assms(1)]
  have ne: "e \<noteq> before_pos l ys" "e \<noteq> after_pos l zs"
    using assms(3) pos_in_nodes(1) [of l zs ys] pos_in_nodes(2) [of l ys zs] by auto
  let ?p = "before_pos l ys" and ?b = "after_pos l zs"
  have e1: "h1 = set_prv (set_nxt (set_nxt (set_prv h e ?p) e ?b) ?p e) ?b e"
    using h1(1) lk(2) ne by (simp add: list_insert_def Let_def res_simps)
  have e2: "h2 = set_prv (set_nxt h1 ?p ?b) ?b ?p"
    using h2(1) list_rep_elem(1,2) [OF h1(2)] ne by (simp add: list_remove_def Let_def res_simps)
  have "h2 q = h q" if "q \<noteq> e" for q
    using that lk(1,2) unfolding e1 e2 by (intro list_elem.equality) auto
  then show ?thesis using h1 h2 by blast
qed

theorem list_insert_remove_witness:
  "\<exists>h1 h2. list_insert demo_heap 64 80 = Inr h1 \<and> list_rep h1 16 [72, 80, 64]
    \<and> list_remove h1 80 = Inr (h2, 64) \<and> list_rep h2 16 [72, 64]"
  using list_insert_remove [of demo_heap 16 "[72]" "[64]" 80] demo_heap_rep(1)
  by (auto simp: nodes_def head_of_def tail_of_def)

text \<open>C15: \<^verbatim>\<open>list_reverse\<close> returns on every well-formed list, without a null dereference, and
  reverses it.\<close>

theorem list_reverse_correct:
  assumes "list_rep h l xs"
  shows "\<exists>h'. list_reverse h l = Some (Inr h') \<and> list_rep h' l (rev xs)"
  by (rule list_reverse_rep [OF assms])

theorem list_reverse_correct_witness:
  "\<exists>h'. list_reverse demo_heap 16 = Some (Inr h') \<and> list_rep h' 16 [64, 72]"
  using list_reverse_correct [OF demo_heap_rep(1)] by simp

text \<open>C16: \<^verbatim>\<open>list_insert_ordered\<close> returns on a well-formed list; if the list was in order for an
  asymmetric comparison it is in order afterwards, with the new element behind every element it
  is not less than.\<close>

theorem list_insert_ordered_correct:
  assumes "list_rep h l xs" and "e \<noteq> 0" and "e \<notin> set (nodes l xs)" and "asymp lt" and "asc lt xs"
  shows "\<exists>h' us vs. list_insert_ordered h lt l e = Some (Inr h') \<and> list_rep h' l (us @ e # vs)
    \<and> us @ vs = xs \<and> asc lt (us @ e # vs) \<and> (\<forall>x\<in>set us. \<not> lt e x) \<and> (vs \<noteq> [] \<longrightarrow> lt e (hd vs))"
proof -
  let ?us = "takeWhile (\<lambda>x. \<not> lt e x) xs" and ?vs = "dropWhile (\<lambda>x. \<not> lt e x) xs"
  obtain h' where "list_insert_ordered h lt l e = Some (Inr h')" "list_rep h' l (?us @ e # ?vs)"
    using list_insert_ordered_rep [OF assms(1-3), of lt] by (auto simp: insert_sorted_def)
  moreover have "asc lt (?us @ e # ?vs)"
    using asc_insert_sorted [OF assms(4,5), of e] by (simp add: insert_sorted_def)
  moreover have "\<forall>x\<in>set ?us. \<not> lt e x" by (auto dest: set_takeWhileD)
  moreover have "?vs \<noteq> [] \<longrightarrow> lt e (hd ?vs)" using hd_dropWhile [of "\<lambda>x. \<not> lt e x" xs] by auto
  ultimately show ?thesis using takeWhile_dropWhile_id [of "\<lambda>x. \<not> lt e x" xs] by blast
qed

theorem list_insert_ordered_correct_witness:
  "\<exists>h' us vs. list_insert_ordered demo_heap (\<lambda>x y. y < x) 16 80 = Some (Inr h')
    \<and> list_rep h' 16 (us @ 80 # vs) \<and> us @ vs = [72, 64]"
proof -
  have "asymp (\<lambda>x y. y < (x :: addr))" by (rule asympI) auto
  then show ?thesis
    using list_insert_ordered_correct [OF demo_heap_rep(1), of 80 "\<lambda>x y. y < x"]
    by (auto simp: nodes_def head_of_def tail_of_def)
qed

text \<open>The runs of neighbours that equal the first of the run.\<close>

definition runs_of :: "('a \<Rightarrow> 'a \<Rightarrow> bool) \<Rightarrow> 'a list \<Rightarrow> ('a \<times> 'a list) list \<Rightarrow> bool" where
  "runs_of lt xs gs \<longleftrightarrow> xs = concat (map (\<lambda>r. fst r # snd r) gs)
     \<and> (\<forall>r \<in> set gs. \<forall>d \<in> set (snd r). \<not> lt (fst r) d \<and> \<not> lt d (fst r))
     \<and> successively (\<lambda>a b. lt a b \<or> lt b a) (map fst gs)"

lemma split_dups_runs:
  "split_dups lt x xs = (us, es) \<Longrightarrow>
     \<exists>ds rs. us = x # map fst rs \<and> es = ds @ concat (map snd rs) \<and> runs_of lt (x # xs) ((x, ds) # rs)"
proof (induction lt x xs arbitrary: us es rule: split_dups.induct)
  case (1 lt x)
  then show ?case by (intro exI [of _ "[]"]) (auto simp: runs_of_def)
next
  case (2 lt x y ys)
  show ?case
  proof (cases "\<not> lt x y \<and> \<not> lt y x")
    case True
    then obtain es' where es': "split_dups lt x ys = (us, es')" "es = y # es'"
      using "2.prems" by (auto split: prod.splits)
    obtain ds rs where r: "us = x # map fst rs" "es' = ds @ concat (map snd rs)" "runs_of lt (x # ys) ((x, ds) # rs)"
      using "2.IH"(1) [OF True es'(1)] by blast
    have "runs_of lt (x # y # ys) ((x, y # ds) # rs)"
      using r(3) True by (simp add: runs_of_def)
    then show ?thesis
      using r(1,2) es'(2) by (intro exI [of _ "y # ds"] exI [of _ rs]) simp
  next
    case False
    then obtain us' where us': "split_dups lt y ys = (us', es)" "us = x # us'"
      using "2.prems" by (auto split: prod.splits if_splits)
    obtain ds rs where r: "us' = y # map fst rs" "es = ds @ concat (map snd rs)" "runs_of lt (y # ys) ((y, ds) # rs)"
      using "2.IH"(2) [OF False us'(1)] by blast
    have "runs_of lt (x # y # ys) ((x, []) # (y, ds) # rs)"
      using r(3) False by (auto simp: runs_of_def)
    then show ?thesis
      using r(1,2) us'(2) by (intro exI [of _ "[]"] exI [of _ "(y, ds) # rs"]) simp
  qed
qed

text \<open>C17: \<^verbatim>\<open>list_unique\<close> returns. It divides the list into runs of adjacent elements, each equal under the comparison to the first of
  its run, and the first elements of neighbouring runs unequal. It keeps exactly the first element of every run, in order, and appends the
  others, in order, to \<^verbatim>\<open>duplicates\<close> when that is not null.\<close>

theorem list_unique_correct:
  assumes "list_rep h l (x # xs)"
    and "l2 \<noteq> 0 \<longrightarrow> list_rep h l2 ds \<and> set (nodes l2 ds) \<inter> set (nodes l (x # xs)) = {}"
  shows "\<exists>h' gs. list_unique h lt l l2 = Some (Inr h') \<and> list_rep h' l (map fst gs)
    \<and> (l2 \<noteq> 0 \<longrightarrow> list_rep h' l2 (ds @ concat (map snd gs)))
    \<and> x # xs = concat (map (\<lambda>r. fst r # snd r) gs)
    \<and> (\<forall>r \<in> set gs. \<forall>e \<in> set (snd r). \<not> lt (fst r) e \<and> \<not> lt e (fst r))
    \<and> successively (\<lambda>a b. lt a b \<or> lt b a) (map fst gs)"
proof -
  obtain us es where sd: "split_dups lt x xs = (us, es)" by force
  obtain ds' rs where r: "us = map fst ((x, ds') # rs)" "es = concat (map snd ((x, ds') # rs))" "runs_of lt (x # xs) ((x, ds') # rs)"
    using split_dups_runs [OF sd] by auto
  show ?thesis
    using list_unique_rep [OF assms sd] r(3) unfolding r(1,2) runs_of_def by blast
qed

theorem list_unique_correct_witness:
  "\<exists>h'. list_unique demo_heap (\<lambda>_ _. False) 16 160 = Some (Inr h') \<and> list_rep h' 16 [72] \<and> list_rep h' 160 [64]"
proof -
  have "set (nodes 160 []) \<inter> set (nodes 16 [72, 64]) = {}"
    by (simp add: nodes_def head_of_def tail_of_def)
  then obtain h' gs where r: "list_unique demo_heap (\<lambda>_ _. False) 16 160 = Some (Inr h')" "list_rep h' 16 (map fst gs)"
    "list_rep h' 160 (concat (map snd gs))" "[72, 64] = concat (map (\<lambda>r. fst r # snd r) gs)"
    "successively (\<lambda>a b. False) (map fst gs)"
    using list_unique_correct [of demo_heap 16 72 "[64]" 160 "[]" "\<lambda>_ _. False"] demo_heap_rep by auto
  obtain e where "gs = [e]"
    using r(4,5) by (cases gs; cases "tl gs") auto
  then show ?thesis
    using r by auto
qed

end
