(* ===== verification/Kernel_Hash.thy ===== *)
theory Kernel_Hash
  imports Kernel_List
begin

text \<open>
  The hash tables of \<^verbatim>\<open>lib/kernel/hash.c\<close>. An element stands for the address of its
  \<^verbatim>\<open>struct hash_elem\<close>; a null result is \<open>None\<close>. A bucket is the list of its elements, in list
  order: \<open>Kernel_List\<close> shows that \<^verbatim>\<open>list.c\<close> implements these lists. The bucket array holds as many
  buckets as its \<^verbatim>\<open>malloc\<close> request has room for, and an access beyond them is
  \<open>Out_of_bounds\<close>. \<open>mem n\<close> says whether \<^verbatim>\<open>malloc (n)\<close> succeeds.
\<close>

section \<open>The table\<close>

record 'e hash =
  elem_count :: u32
  bucket_cnt :: u32
  buckets :: "'e list list"
  hash_fn :: "'e \<Rightarrow> u32"
  less_fn :: "'e \<Rightarrow> 'e \<Rightarrow> bool"

text \<open>The number of 16-byte \<^verbatim>\<open>struct list\<close>s in a block of \<^verbatim>\<open>sizeof (struct list) * n\<close> bytes; the
  product wraps around.\<close>

definition bucket_room :: "u32 \<Rightarrow> nat" where
  "bucket_room n = unat (16 * n) div 16"

definition bucket_at :: "'e hash \<Rightarrow> u32 \<Rightarrow> 'e list res" where
  "bucket_at h i = (if unat i < length (buckets h) then Inr (buckets h ! unat i) else Inl Out_of_bounds)"

definition find_bucket :: "'e hash \<Rightarrow> 'e \<Rightarrow> u32" where
  "find_bucket h e = hash_fn h e AND (bucket_cnt h - 1)"

definition find_elem :: "'e hash \<Rightarrow> 'e list \<Rightarrow> 'e \<Rightarrow> 'e option" where
  "find_elem h bucket e = find (\<lambda>hi. \<not> less_fn h hi e \<and> \<not> less_fn h e hi) bucket"

definition insert_elem :: "'e hash \<Rightarrow> u32 \<Rightarrow> 'e \<Rightarrow> 'e hash res" where
  "insert_elem h i e =
     (let h = h\<lparr>elem_count := elem_count h + 1\<rparr> in
      bnd (bucket_at h i) (\<lambda>bucket. Inr (h\<lparr>buckets := (buckets h)[unat i := e # bucket]\<rparr>)))"

text \<open>\<^verbatim>\<open>list_remove\<close> unlinks the element from whichever bucket links it.\<close>

definition remove_elem :: "'e hash \<Rightarrow> 'e \<Rightarrow> 'e hash" where
  "remove_elem h e = h\<lparr>elem_count := elem_count h - 1, buckets := map (remove1 e) (buckets h)\<rparr>"

section \<open>Changing the number of buckets\<close>

definition turn_off_least_1bit :: "u32 \<Rightarrow> u32" where
  "turn_off_least_1bit x = x AND (x - 1)"

definition is_power_of_2 :: "u32 \<Rightarrow> bool" where
  "is_power_of_2 x \<longleftrightarrow> x \<noteq> 0 \<and> turn_off_least_1bit x = 0"

partial_function (option) power_loop :: "u32 \<Rightarrow> u32 run" where
  "power_loop n = (if \<not> is_power_of_2 n then power_loop (turn_off_least_1bit n) else Some (Inr n))"

definition BEST_ELEMS_PER_BUCKET :: u32 where
  "BEST_ELEMS_PER_BUCKET = 2"

definition new_bucket_count :: "'e hash \<Rightarrow> u32 run" where
  "new_bucket_count h =
     (let n = elem_count h div BEST_ELEMS_PER_BUCKET;
          n = (if n < 4 then 4 else n)
      in power_loop n)"

text \<open>The inner loop of \<^verbatim>\<open>rehash\<close>: each element of an old bucket goes to the front of its new
  bucket.\<close>

primrec move_elems :: "'e hash \<Rightarrow> 'e list \<Rightarrow> 'e hash res" where
  "move_elems h [] = Inr h"
| "move_elems h (e # es) =
     bnd (bucket_at h (find_bucket h e)) (\<lambda>new_bucket.
       move_elems (h\<lparr>buckets := (buckets h)[unat (find_bucket h e) := e # new_bucket]\<rparr>) es)"

text \<open>The loops \<^verbatim>\<open>for (i = 0; i < bucket_cnt; i++)\<close> over a bucket array: the body gets the bucket with each number in turn.\<close>

primrec for_buckets :: "'e list list \<Rightarrow> nat list \<Rightarrow> ('e list \<Rightarrow> 's \<Rightarrow> 's res) \<Rightarrow> 's \<Rightarrow> 's res" where
  "for_buckets bs [] body s = Inr s"
| "for_buckets bs (i # is) body s =
     (if i < length bs then bnd (body (bs ! i) s) (for_buckets bs is body) else Inl Out_of_bounds)"

definition move_buckets :: "'e hash \<Rightarrow> 'e list list \<Rightarrow> u32 \<Rightarrow> 'e hash res" where
  "move_buckets h old_buckets old_bucket_cnt =
     for_buckets old_buckets [0..<unat old_bucket_cnt] (\<lambda>old_bucket h. move_elems h old_bucket) h"

definition rehash :: "(u32 \<Rightarrow> bool) \<Rightarrow> 'e hash \<Rightarrow> 'e hash run" where
  "rehash mem h =
     (let old_buckets = buckets h; old_bucket_cnt = bucket_cnt h in
      andThen (new_bucket_count h) (\<lambda>new_bucket_cnt.
        if new_bucket_cnt = old_bucket_cnt then Some (Inr h)
        else if \<not> mem (16 * new_bucket_cnt) then Some (Inr h)
        else if bucket_room new_bucket_cnt < unat new_bucket_cnt then Some (Inl Out_of_bounds)
        else
          let h = h\<lparr>buckets := replicate (bucket_room new_bucket_cnt) [], bucket_cnt := new_bucket_cnt\<rparr>
          in Some (move_buckets h old_buckets old_bucket_cnt)))"

section \<open>Life cycle\<close>

text \<open>With a destructor, the destroyed elements are returned in the order of the destructor
  calls. The table's functions are not called while it runs.\<close>

definition hash_clear :: "'e hash \<Rightarrow> bool \<Rightarrow> ('e hash \<times> 'e list) res" where
  "hash_clear h destructor =
     bnd (for_buckets (buckets h) [0..<unat (bucket_cnt h)]
            (\<lambda>bucket (cleared, seen). Inr (cleared @ [[]], seen @ (if destructor then bucket else []))) ([], []))
       (\<lambda>(cleared, seen). Inr (h\<lparr>buckets := cleared @ drop (length cleared) (buckets h), elem_count := 0\<rparr>, seen))"

definition hash_init ::
  "(u32 \<Rightarrow> bool) \<Rightarrow> ('e \<Rightarrow> u32) \<Rightarrow> ('e \<Rightarrow> 'e \<Rightarrow> bool) \<Rightarrow> 'e list list \<Rightarrow> 'e hash option res" where
  "hash_init mem hf lt junk =
     (if mem (16 * 4) then
        bnd (hash_clear \<lparr>elem_count = 0, bucket_cnt = 4, buckets = take 4 junk, hash_fn = hf, less_fn = lt\<rparr> False)
          (\<lambda>(h, _). Inr (Some h))
      else Inr None)"

definition hash_destroy :: "'e hash \<Rightarrow> bool \<Rightarrow> 'e list res" where
  "hash_destroy h destructor = (if destructor then bnd (hash_clear h True) (\<lambda>(_, seen). Inr seen) else Inr [])"

section \<open>Search, insertion, deletion\<close>

definition hash_find :: "'e hash \<Rightarrow> 'e \<Rightarrow> 'e option res" where
  "hash_find h e = bnd (bucket_at h (find_bucket h e)) (\<lambda>b. Inr (find_elem h b e))"

definition hash_insert :: "(u32 \<Rightarrow> bool) \<Rightarrow> 'e hash \<Rightarrow> 'e \<Rightarrow> ('e hash \<times> 'e option) run" where
  "hash_insert mem h new =
     andThen (Some (bucket_at h (find_bucket h new))) (\<lambda>bucket.
     let old = find_elem h bucket new in
     andThen (if old = None then Some (insert_elem h (find_bucket h new) new) else Some (Inr h)) (\<lambda>h.
     andThen (rehash mem h) (\<lambda>h. Some (Inr (h, old)))))"

definition hash_replace :: "(u32 \<Rightarrow> bool) \<Rightarrow> 'e hash \<Rightarrow> 'e \<Rightarrow> ('e hash \<times> 'e option) run" where
  "hash_replace mem h new =
     andThen (Some (bucket_at h (find_bucket h new))) (\<lambda>bucket.
     let old = find_elem h bucket new;
         h' = (case old of None \<Rightarrow> h | Some e \<Rightarrow> remove_elem h e)
     in andThen (Some (insert_elem h' (find_bucket h new) new)) (\<lambda>h.
        andThen (rehash mem h) (\<lambda>h. Some (Inr (h, old)))))"

definition hash_delete :: "(u32 \<Rightarrow> bool) \<Rightarrow> 'e hash \<Rightarrow> 'e \<Rightarrow> ('e hash \<times> 'e option) run" where
  "hash_delete mem h e =
     andThen (Some (hash_find h e)) (\<lambda>found.
       case found of
         None \<Rightarrow> Some (Inr (h, None))
       | Some x \<Rightarrow> andThen (rehash mem (remove_elem h x)) (\<lambda>h. Some (Inr (h, found))))"

definition hash_size :: "'e hash \<Rightarrow> u32" where
  "hash_size h = elem_count h"

definition hash_empty :: "'e hash \<Rightarrow> bool" where
  "hash_empty h \<longleftrightarrow> elem_count h = 0"

section \<open>Iteration\<close>

text \<open>\<^verbatim>\<open>hash_apply\<close> calls the action on the elements in bucket order; the action's effect is a
  state transformer, and no action is the null pointer.\<close>

definition hash_apply :: "'e hash \<Rightarrow> ('e \<Rightarrow> 's \<Rightarrow> 's) option \<Rightarrow> 's \<Rightarrow> 's res" where
  "hash_apply h action s =
     ASSERT (action \<noteq> None)
       (for_buckets (buckets h) [0..<unat (bucket_cnt h)] (\<lambda>bucket s. Inr (fold (the action) bucket s)) s)"

text \<open>An iterator is at a position of a bucket: 0 is the list head, \<open>k\<close> its \<open>k\<close>-th element, one
  past the last element is the list tail; no position is the null element.\<close>

record 'e hash_iterator =
  it_hash :: "'e hash"
  it_bucket :: nat
  it_elem :: "nat option"

definition hash_first :: "'e hash \<Rightarrow> 'e hash_iterator" where
  "hash_first h = \<lparr>it_hash = h, it_bucket = 0, it_elem = Some 0\<rparr>"

definition bucket_len :: "'e hash \<Rightarrow> nat \<Rightarrow> nat" where
  "bucket_len h b = (if b < length (buckets h) then length (buckets h ! b) else 0)"

function skip_empty :: "'e hash_iterator \<Rightarrow> 'e hash_iterator" where
  "skip_empty i =
     (if it_elem i = Some (Suc (bucket_len (it_hash i) (it_bucket i))) then
        if it_bucket i + 1 \<ge> unat (bucket_cnt (it_hash i))
        then i\<lparr>it_bucket := it_bucket i + 1, it_elem := None\<rparr>
        else skip_empty (i\<lparr>it_bucket := it_bucket i + 1, it_elem := Some 1\<rparr>)
      else i)"
  by pat_completeness auto
termination by (relation "measure (\<lambda>i. unat (bucket_cnt (it_hash i)) - it_bucket i)") auto

declare skip_empty.simps [simp del]

definition hash_cur :: "'e hash_iterator \<Rightarrow> 'e option" where
  "hash_cur i =
     (case it_elem i of
        Some (Suc k) \<Rightarrow>
          if it_bucket i < length (buckets (it_hash i)) \<and> k < length (buckets (it_hash i) ! it_bucket i)
          then Some (buckets (it_hash i) ! it_bucket i ! k) else None
      | _ \<Rightarrow> None)"

text \<open>\<^verbatim>\<open>list_next\<close> asserts that the current element is a head or an interior element.\<close>

definition hash_next :: "'e hash_iterator \<Rightarrow> ('e hash_iterator \<times> 'e option) res" where
  "hash_next i =
     (case it_elem i of
        None \<Rightarrow> Inl Assert_failed
      | Some k \<Rightarrow>
          ASSERT (k \<le> bucket_len (it_hash i) (it_bucket i))
            (let i = skip_empty (i\<lparr>it_elem := Some (Suc k)\<rparr>) in Inr (i, hash_cur i)))"

section \<open>Hash functions\<close>

definition FNV_32_PRIME :: u32 where
  "FNV_32_PRIME = 16777619"

definition FNV_32_BASIS :: u32 where
  "FNV_32_BASIS = 2166136261"

fun bytes_loop :: "u8 list \<Rightarrow> nat \<Rightarrow> u32 \<Rightarrow> u32 res" where
  "bytes_loop _ 0 h = Inr h"
| "bytes_loop [] (Suc n) h = Inl Out_of_bounds"
| "bytes_loop (b # bs) (Suc n) h = bytes_loop bs n ((h * FNV_32_PRIME) XOR ucast b)"

definition hash_bytes :: "u8 list \<Rightarrow> u32 \<Rightarrow> u32 res" where
  "hash_bytes buf sz = bytes_loop buf (unat sz) FNV_32_BASIS"

fun string_loop :: "u8 list \<Rightarrow> u32 \<Rightarrow> u32 res" where
  "string_loop [] h = Inl Out_of_bounds"
| "string_loop (b # bs) h =
     (if b \<noteq> 0 then string_loop bs ((h * FNV_32_PRIME) XOR ucast b) else Inr h)"

definition hash_string :: "u8 list \<Rightarrow> u32 res" where
  "hash_string s = string_loop s FNV_32_BASIS"

definition hash_int :: "u32 \<Rightarrow> u32 res" where
  "hash_int i = hash_bytes (le_bytes i) 4"

section \<open>Powers of two\<close>

lemma bit_unat: "bit w n \<longleftrightarrow> bit (unat w) n" for w :: u32
  by (simp add: bit_unsigned_iff)

lemma unat_exp: "k < 32 \<Longrightarrow> unat (2 ^ k :: u32) = 2 ^ k"
proof -
  assume "k < 32"
  then have "(2 :: nat) ^ k < 2 ^ 32"
    by (rule power_strict_increasing) simp
  then show ?thesis
    using unat_of_nat [of "2 ^ k", where 'a = 32] by simp
qed

lemma top_bit:
  fixes x :: u32
  assumes "2 ^ k \<le> unat x" and "unat x < 2 ^ Suc k"
  shows "bit x k"
proof -
  have "unat x div 2 ^ k = 1"
    using assms by (intro div_nat_eqI) simp_all
  then show ?thesis
    by (simp add: bit_unat bit_iff_odd)
qed

lemma bit_le_unat: "bit x k \<Longrightarrow> 2 ^ k \<le> unat x" for x :: u32
  using div_less [of "unat x" "2 ^ k"] by (fastforce simp: bit_unat bit_iff_odd not_le)

lemma ex_top_bit:
  fixes x :: u32
  assumes "x \<noteq> 0"
  obtains k where "k < 32" and "2 ^ k \<le> unat x" and "unat x < 2 ^ Suc k"
proof -
  have x: "unat x \<ge> 1"
    using assms by (simp add: Suc_le_eq unat_gt_0)
  obtain k where k: "2 ^ k \<le> unat x" "unat x < 2 ^ Suc k"
    using ex_power_ivl1 [of 2 "unat x"] x by auto
  then have "(2 :: nat) ^ k < 2 ^ 32"
    using unat_less_size [of x] by simp
  then have "k < 32"
    by (rule power_less_imp_less_exp [rotated]) simp
  then show ?thesis
    using k that by blast
qed

lemma turn_off_top_bit:
  fixes x :: u32
  assumes k: "2 ^ k \<le> unat x" "unat x < 2 ^ Suc k"
  shows "turn_off_least_1bit x = 0 \<longleftrightarrow> unat x = 2 ^ k"
    and "unat x \<noteq> 2 ^ k \<Longrightarrow> bit (turn_off_least_1bit x) k"
proof -
  have x: "unat (x - 1) = unat x - 1"
    using k(1) by (intro unat_minus_one [unfolded One_nat_def [symmetric]]) (auto simp: not_le)
  show keep: "bit (turn_off_least_1bit x) k" if "unat x \<noteq> 2 ^ k"
    using top_bit [OF k] top_bit [of k "x - 1"] k that x
    by (simp add: turn_off_least_1bit_def bit_and_iff)
  have "turn_off_least_1bit x = 0" if eq: "unat x = 2 ^ k"
  proof (rule bit_word_eqI)
    fix n assume "n < LENGTH(32)"
    have "\<not> (bit (2 ^ k :: nat) n \<and> bit (mask k :: nat) n)"
      by (auto simp: bit_exp_iff bit_mask_iff)
    then show "bit (turn_off_least_1bit x) n = bit 0 n"
      using x eq bit_unat [of x n] bit_unat [of "x - 1" n]
      by (simp add: turn_off_least_1bit_def bit_and_iff mask_eq_exp_minus_1)
  qed
  then show "turn_off_least_1bit x = 0 \<longleftrightarrow> unat x = 2 ^ k"
    using keep by fastforce
qed

lemma turn_off_less: "x \<noteq> 0 \<Longrightarrow> unat (turn_off_least_1bit x) < unat x"
proof -
  assume "x \<noteq> 0"
  then have "unat (x - 1) < unat x"
    by (rule measure_unat)
  moreover have "unat (x AND (x - 1)) \<le> unat (x - 1)"
    using word_and_le1 [of x "x - 1"] by (simp add: word_le_nat_alt)
  ultimately show ?thesis
    by (simp add: turn_off_least_1bit_def)
qed

lemma is_power_of_2_iff: "is_power_of_2 x \<longleftrightarrow> (\<exists>k. unat x = 2 ^ k)"
proof
  assume p: "is_power_of_2 x"
  then have "x \<noteq> 0"
    by (simp add: is_power_of_2_def)
  then obtain k where "2 ^ k \<le> unat x" "unat x < 2 ^ Suc k"
    by (rule ex_top_bit)
  then show "\<exists>k. unat x = 2 ^ k"
    using p turn_off_top_bit(1) by (auto simp: is_power_of_2_def)
next
  assume "\<exists>k. unat x = 2 ^ k"
  then obtain k where "unat x = 2 ^ k"
    by blast
  then show "is_power_of_2 x"
    using turn_off_top_bit(1) [of k x] by (auto simp: is_power_of_2_def)
qed

lemma power_loop_top_bit:
  fixes x :: u32
  assumes "2 ^ k \<le> unat x" and "unat x < 2 ^ Suc k"
  shows "power_loop x = Some (Inr (2 ^ k))"
  using assms
proof (induction "unat x" arbitrary: x rule: less_induct)
  case less
  have nz: "x \<noteq> 0"
    using less.prems(1) by auto
  show ?case
  proof (cases "unat x = 2 ^ k")
    case True
    have "x = of_nat (unat x)"
      by simp
    also have "\<dots> = 2 ^ k"
      unfolding True by simp
    finally have "x = 2 ^ k" .
    then show ?thesis
      using True is_power_of_2_iff [of x] by (subst power_loop.simps) auto
  next
    case False
    let ?y = "turn_off_least_1bit x"
    have "\<not> is_power_of_2 x"
      using turn_off_top_bit(1) [OF less.prems] False by (simp add: is_power_of_2_def)
    moreover have "2 ^ k \<le> unat ?y"
      using turn_off_top_bit(2) [OF less.prems False] by (rule bit_le_unat)
    moreover have "unat ?y < unat x"
      using nz by (rule turn_off_less)
    ultimately show ?thesis
      using less.hyps [of ?y] less.prems(2) by (subst power_loop.simps) simp
  qed
qed

lemma new_bucket_count_correct:
  "\<exists>n. new_bucket_count h = Some (Inr n) \<and> is_power_of_2 n \<and> 4 \<le> n"
proof -
  let ?n = "if elem_count h div 2 < 4 then 4 else elem_count h div 2"
  have n: "4 \<le> ?n"
    by (simp add: not_less)
  then have "?n \<noteq> 0"
    by auto
  then obtain k where k: "k < 32" "2 ^ k \<le> unat ?n" "unat ?n < 2 ^ Suc k"
    by (rule ex_top_bit)
  have "4 < (2 :: nat) ^ Suc k"
    using n k(3) by (simp only: word_le_nat_alt) simp
  then have "(2 :: nat) ^ 2 < 2 ^ Suc k"
    by simp
  then have "2 \<le> k"
    using power_less_imp_less_exp [of "2 :: nat" 2 "Suc k"] by simp
  then have "(2 :: nat) ^ 2 \<le> 2 ^ k"
    by (intro power_increasing) simp_all
  moreover have "unat (2 ^ k :: u32) = 2 ^ k"
    using k(1) by (rule unat_exp)
  ultimately have "is_power_of_2 (2 ^ k) \<and> (4 :: u32) \<le> 2 ^ k"
    by (auto simp: is_power_of_2_iff word_le_nat_alt)
  then show ?thesis
    using power_loop_top_bit [OF k(2,3)]
    by (auto simp: new_bucket_count_def BEST_ELEMS_PER_BUCKET_def Let_def)
qed

section \<open>Contents and invariant\<close>

definition contents :: "'e hash \<Rightarrow> 'e multiset" where
  "contents h = mset (concat (buckets h))"

text \<open>Every bucket is where \<^verbatim>\<open>find_bucket\<close> looks for its elements.\<close>

definition placed :: "'e hash \<Rightarrow> bool" where
  "placed h \<longleftrightarrow> bucket_cnt h \<noteq> 0 \<and> length (buckets h) = unat (bucket_cnt h)
     \<and> (\<forall>i < length (buckets h). \<forall>e \<in> set (buckets h ! i). unat (find_bucket h e) = i)"

text \<open>No two elements are equal, where equal means that neither is less than the other.\<close>

definition apart :: "('e \<Rightarrow> 'e \<Rightarrow> bool) \<Rightarrow> 'e multiset \<Rightarrow> bool" where
  "apart lt M \<longleftrightarrow> (\<forall>x y. {#x, y#} \<subseteq># M \<longrightarrow> lt x y \<or> lt y x)"

definition hash_ok :: "('e \<Rightarrow> u32) \<Rightarrow> ('e \<Rightarrow> 'e \<Rightarrow> bool) \<Rightarrow> 'e hash \<Rightarrow> bool" where
  "hash_ok hf lt h \<longleftrightarrow> hash_fn h = hf \<and> less_fn h = lt \<and> is_power_of_2 (bucket_cnt h) \<and> placed h
     \<and> unat (elem_count h) = size (contents h) \<and> apart lt (contents h)"

lemma apart_add [simp]:
  "apart lt (add_mset e M) \<longleftrightarrow> apart lt M \<and> (\<forall>x \<in># M. lt x e \<or> lt e x)"
proof
  assume a: "apart lt (add_mset e M)"
  have "M \<subseteq># add_mset e M"
    by simp
  then have "apart lt M"
    using a unfolding apart_def by (blast intro: subset_mset.order_trans)
  moreover have "lt x e \<or> lt e x" if "x \<in># M" for x
  proof -
    have "{#e, x#} \<subseteq># add_mset e M"
      using that by simp
    then show ?thesis
      using a unfolding apart_def by blast
  qed
  ultimately show "apart lt M \<and> (\<forall>x \<in># M. lt x e \<or> lt e x)"
    by blast
next
  assume a: "apart lt M \<and> (\<forall>x \<in># M. lt x e \<or> lt e x)"
  show "apart lt (add_mset e M)"
    unfolding apart_def
  proof (intro allI impI)
    fix x y assume s: "{#x, y#} \<subseteq># add_mset e M"
    consider "x = e" | "y = e" | "x \<noteq> e" "y \<noteq> e"
      by blast
    then show "lt x y \<or> lt y x"
    proof cases
      case 1
      then have "y \<in># M"
        using s by simp
      then show ?thesis
        using a 1 by blast
    next
      case 2
      then have "x \<in># M"
        using s by (simp add: add_mset_commute [of x])
      then show ?thesis
        using a 2 by blast
    next
      case 3
      then have "{#x, y#} \<subseteq># M"
        using s by (auto simp: subseteq_mset_def split: if_splits)
      then show ?thesis
        using a unfolding apart_def by blast
    qed
  qed
qed

lemma apart_empty [simp]: "apart lt {#}"
  by (simp add: apart_def)

lemma apart_minus: "apart lt M \<Longrightarrow> apart lt (M - N)"
  unfolding apart_def by (meson diff_subset_eq_self subset_mset.order_trans)

lemma mset_concat_update:
  "i < length bs \<Longrightarrow> mset (concat (bs[i := e # bs ! i])) = add_mset e (mset (concat bs))"
proof (induction bs arbitrary: i)
  case (Cons b bs)
  then show ?case
    by (cases i) auto
qed simp

lemma bucket_index:
  assumes "placed h"
  shows "unat (find_bucket h e) < length (buckets h)"
proof -
  have "unat (find_bucket h e) \<le> unat (bucket_cnt h - 1)"
    unfolding find_bucket_def word_le_nat_alt [symmetric] by (rule word_and_le1)
  also have "\<dots> < unat (bucket_cnt h)"
    using assms by (intro measure_unat) (simp add: placed_def)
  finally show ?thesis
    using assms by (simp add: placed_def)
qed

text \<open>Pushing an element to the front of its bucket, the step shared by insertion and
  \<^verbatim>\<open>rehash\<close>.\<close>

definition push_elem :: "'e hash \<Rightarrow> 'e \<Rightarrow> 'e hash" where
  "push_elem h e =
     h\<lparr>buckets := (buckets h)[unat (find_bucket h e) := e # buckets h ! unat (find_bucket h e)]\<rparr>"

lemma push_elem_sel [simp]:
  "elem_count (push_elem h e) = elem_count h" "bucket_cnt (push_elem h e) = bucket_cnt h"
  "hash_fn (push_elem h e) = hash_fn h" "less_fn (push_elem h e) = less_fn h"
  by (simp_all add: push_elem_def)

lemma push_elem_placed:
  assumes "placed h"
  shows "placed (push_elem h e)" and "contents (push_elem h e) = add_mset e (contents h)"
proof -
  define i where "i = unat (find_bucket h e)"
  have i: "i < length (buckets h)"
    using bucket_index [OF assms] by (simp add: i_def)
  have push: "push_elem h e = h\<lparr>buckets := (buckets h)[i := e # buckets h ! i]\<rparr>"
    by (simp add: push_elem_def i_def)
  have fb: "find_bucket (push_elem h e) x = find_bucket h x" for x
    by (simp add: find_bucket_def push_elem_def)
  have old: "unat (find_bucket h x) = j" if "j < length (buckets h)" "x \<in> set (buckets h ! j)" for x j
    using assms that unfolding placed_def by blast
  have "unat (find_bucket h x) = j" if j: "j < length (buckets h)"
    and x: "x \<in> set ((buckets h)[i := e # buckets h ! i] ! j)" for x j
  proof (cases "j = i")
    case True
    then have "x = e \<or> x \<in> set (buckets h ! i)"
      using x i by simp
    then show ?thesis
      using True old [OF i] i_def by blast
  next
    case False
    then show ?thesis
      using x old [OF j] by simp
  qed
  then show "placed (push_elem h e)"
    using assms unfolding placed_def fb by (simp add: push)
  show "contents (push_elem h e) = add_mset e (contents h)"
    using mset_concat_update [OF i] by (simp add: contents_def push)
qed

lemma insert_elem_push:
  assumes "placed h"
  shows "insert_elem h (find_bucket h e) e = Inr ((push_elem h e)\<lparr>elem_count := elem_count h + 1\<rparr>)"
  using bucket_index [OF assms, of e] by (simp add: insert_elem_def bucket_at_def push_elem_def)

lemma move_elems_push:
  assumes "placed h"
  shows "move_elems h (e # es) = move_elems (push_elem h e) es"
  using bucket_index [OF assms, of e] by (simp add: bucket_at_def push_elem_def)

declare move_elems.simps(2) [simp del]

lemma move_elems_ok:
  "placed h \<Longrightarrow> \<exists>h'. move_elems h es = Inr h' \<and> placed h' \<and> contents h' = contents h + mset es
     \<and> elem_count h' = elem_count h \<and> bucket_cnt h' = bucket_cnt h \<and> hash_fn h' = hash_fn h
     \<and> less_fn h' = less_fn h"
proof (induction es arbitrary: h)
  case (Cons e es)
  show ?case
    using Cons.IH [OF push_elem_placed(1) [OF Cons.prems, of e]] push_elem_placed(2) [OF Cons.prems, of e]
    by (auto simp: move_elems_push [OF Cons.prems])
qed simp

text \<open>The loops over all buckets, as recursions over the list of buckets.\<close>

primrec each_bucket :: "('e list \<Rightarrow> 's \<Rightarrow> 's res) \<Rightarrow> 'e list list \<Rightarrow> 's \<Rightarrow> 's res" where
  "each_bucket body [] s = Inr s"
| "each_bucket body (b # bs) s = bnd (body b s) (each_bucket body bs)"

lemma for_buckets_all: "for_buckets bs [0..<length bs] body s = each_bucket body bs s"
proof -
  have "for_buckets (pre @ bs) [length pre..<length pre + length bs] body s = each_bucket body bs s" for pre
  proof (induction bs arbitrary: pre s)
    case (Cons b bs)
    have "for_buckets (pre @ b # bs) [Suc (length pre)..<length pre + length (b # bs)] body = each_bucket body bs"
      using Cons.IH [of "pre @ [b]"] by (simp add: fun_eq_iff del: upt_Suc)
    moreover have "[length pre..<length pre + length (b # bs)] = length pre # [Suc (length pre)..<length pre + length (b # bs)]"
      by (rule upt_conv_Cons) simp
    ultimately show ?case
      by (simp del: upt_Suc)
  qed simp
  from this [of "[]"] show ?thesis
    by simp
qed

lemma each_bucket_total: "each_bucket (\<lambda>b s. Inr (f b s)) bs s = Inr (fold f bs s)"
  by (induction bs arbitrary: s) simp_all

lemma move_buckets_ok:
  "placed h \<Longrightarrow> \<exists>h'. each_bucket (\<lambda>b h. move_elems h b) bs h = Inr h' \<and> placed h' \<and> contents h' = contents h + mset (concat bs)
     \<and> elem_count h' = elem_count h \<and> bucket_cnt h' = bucket_cnt h \<and> hash_fn h' = hash_fn h
     \<and> less_fn h' = less_fn h"
proof (induction bs arbitrary: h)
  case (Cons b bs)
  obtain h1 where h1: "move_elems h b = Inr h1" "placed h1" "contents h1 = contents h + mset b"
    "elem_count h1 = elem_count h" "bucket_cnt h1 = bucket_cnt h" "hash_fn h1 = hash_fn h"
    "less_fn h1 = less_fn h"
    using move_elems_ok [OF Cons.prems] by blast
  show ?case
    using Cons.IH [OF h1(2)] h1 by (auto simp: ac_simps)
qed simp

text \<open>A request for \<open>2\<^sup>2\<^sup>8\<close> buckets or more wraps around to 0 bytes, which \<^verbatim>\<open>malloc\<close> refuses, so
  an array that is obtained has room for all its buckets.\<close>

lemma bucket_room_enough:
  assumes "is_power_of_2 n" and "16 * n \<noteq> 0"
  shows "bucket_room n = unat n"
proof -
  obtain k where k: "unat n = 2 ^ k"
    using assms(1) by (auto simp: is_power_of_2_iff)
  have eq: "unat (16 * n) = 16 * 2 ^ k mod 2 ^ 32"
    using unat_word_ariths(2) [of 16 n] k by simp
  have "k < 28"
  proof (rule ccontr)
    assume "\<not> k < 28"
    then obtain j where "k = 28 + j"
      using le_Suc_ex by (metis not_less)
    then have "16 * 2 ^ k = (2 :: nat) ^ 32 * 2 ^ j"
      by (simp add: power_add)
    then have "unat (16 * n) = 0"
      using eq by simp
    then show False
      using assms(2) by (simp add: unat_eq_zero)
  qed
  then have "(2 :: nat) ^ k < 2 ^ 28"
    by (rule power_strict_increasing) simp
  then show ?thesis
    using eq k by (simp add: bucket_room_def)
qed

lemma rehash_ok:
  assumes ok: "hash_ok hf lt h" and mem: "\<not> mem 0"
  shows "\<exists>h'. rehash mem h = Some (Inr h') \<and> hash_ok hf lt h' \<and> contents h' = contents h"
proof -
  obtain n where n: "new_bucket_count h = Some (Inr n)" "is_power_of_2 n" "4 \<le> n"
    using new_bucket_count_correct by blast
  show ?thesis
  proof (cases "n = bucket_cnt h \<or> \<not> mem (16 * n)")
    case True
    then show ?thesis
      using n ok by (auto simp: rehash_def Let_def)
  next
    case False
    then have room: "bucket_room n = unat n"
      using mem by (intro bucket_room_enough [OF n(2)]) metis
    let ?h = "h\<lparr>buckets := replicate (bucket_room n) [], bucket_cnt := n\<rparr>"
    have "placed ?h"
      using n(2) room by (auto simp: placed_def is_power_of_2_def)
    moreover have "contents ?h = {#}"
      by (simp add: contents_def)
    moreover have "length (buckets h) = unat (bucket_cnt h)"
      using ok by (simp add: hash_ok_def placed_def)
    then have "move_buckets ?h (buckets h) (bucket_cnt h) = each_bucket (\<lambda>b h. move_elems h b) (buckets h) ?h"
      by (simp only: move_buckets_def for_buckets_all [symmetric])
    ultimately obtain h' where "move_buckets ?h (buckets h) (bucket_cnt h) = Inr h'" "placed h'"
      "contents h' = contents h" "elem_count h' = elem_count h" "bucket_cnt h' = n"
      "hash_fn h' = hash_fn h" "less_fn h' = less_fn h"
      using move_buckets_ok [of ?h "buckets h"] by (auto simp: contents_def)
    then show ?thesis
      using n False room ok by (simp add: rehash_def Let_def hash_ok_def)
  qed
qed

lemma remove1_other: "e \<notin> set (concat bs) \<Longrightarrow> map (remove1 e) bs = bs"
  by (induction bs) (auto simp: remove1_idem)

lemma mset_concat_remove:
  assumes "count (mset (concat bs)) e \<le> 1"
  shows "mset (concat (map (remove1 e) bs)) = mset (concat bs) - {#e#}"
  using assms
proof (induction bs)
  case (Cons b bs)
  show ?case
  proof (cases "e \<in> set b")
    case True
    then have "count (mset b) e \<ge> 1"
      by (simp add: Suc_le_eq)
    then have "count (mset (concat bs)) e = 0"
      using Cons.prems unfolding concat.simps mset_append count_union by linarith
    then have "e \<notin> set (concat bs)"
      by (metis count_eq_zero_iff set_mset_mset)
    then show ?thesis
      using True remove1_other [of e bs] by (simp del: set_concat)
  next
    case False
    then have "count (mset b) e = 0"
      by (metis count_eq_zero_iff set_mset_mset)
    then have "mset b + (mset (concat bs) - {#e#}) = mset b + mset (concat bs) - {#e#}"
      by (intro multiset_eqI) (auto simp del: count_mset_0_iff)
    then show ?thesis
      using Cons False by (simp add: remove1_idem)
  qed
qed simp

section \<open>The table as a set of elements\<close>

locale hash_laws = strict_weak lt for lt :: "'e \<Rightarrow> 'e \<Rightarrow> bool" +
  fixes hf :: "'e \<Rightarrow> u32"
  assumes hash_same: "\<not> lt x y \<Longrightarrow> \<not> lt y x \<Longrightarrow> hf x = hf y"
begin

lemma same_refl: "same x x"
  using asym [of x x] by (auto simp: same_def)

lemma same_sym: "same x y \<Longrightarrow> same y x"
  by (simp add: same_def)

lemma same_trans: "same x y \<Longrightarrow> same y z \<Longrightarrow> same x z"
  using split [of x z y] split [of z x y] by (auto simp: same_def)

lemma apart_not_same: "apart lt M \<Longrightarrow> {#x, y#} \<subseteq># M \<Longrightarrow> \<not> same x y"
  by (auto simp: apart_def same_def)

lemma apart_unique:
  assumes "apart lt M" and "x \<in># M" and "y \<in># M" and "same x y"
  shows "x = y"
proof (rule ccontr)
  assume "x \<noteq> y"
  obtain N where N: "M = add_mset x N"
    using multi_member_split [OF assms(2)] by blast
  then have "{#x, y#} \<subseteq># M"
    using assms(3) \<open>x \<noteq> y\<close> by simp
  then show False
    using assms apart_not_same by blast
qed

lemma apart_count: "apart lt M \<Longrightarrow> count M x \<le> 1"
proof (rule ccontr)
  assume a: "apart lt M" and "\<not> count M x \<le> 1"
  then have "{#x, x#} \<subseteq># M"
    by (auto simp: subseteq_mset_def)
  then show False
    using a apart_not_same same_refl by blast
qed

text \<open>\<^verbatim>\<open>hash_find\<close> returns the element equal to its argument, if the table has one.\<close>

lemma find_ok:
  assumes ok: "hash_ok hf lt h"
  shows "\<exists>r. hash_find h e = Inr r
     \<and> (case r of None \<Rightarrow> \<forall>x \<in># contents h. \<not> same x e | Some x \<Rightarrow> x \<in># contents h \<and> same x e)"
proof -
  define i where "i = unat (find_bucket h e)"
  have p: "placed h" and fns: "hash_fn h = hf" "less_fn h = lt"
    using ok by (simp_all add: hash_ok_def)
  have i: "i < length (buckets h)"
    using bucket_index [OF p] by (simp add: i_def)
  have res: "hash_find h e = Inr (find (\<lambda>x. same x e) (buckets h ! i))"
    using i fns by (simp add: hash_find_def bucket_at_def find_elem_def same_def i_def)
  show ?thesis
  proof (cases "find (\<lambda>x. same x e) (buckets h ! i)")
    case None
    have "\<not> same x e" if x: "x \<in># contents h" for x
    proof
      assume s: "same x e"
      obtain j where j: "j < length (buckets h)" "x \<in> set (buckets h ! j)"
        using x by (metis contents_def in_set_conv_nth set_concat set_mset_mset UN_E)
      then have "unat (find_bucket h x) = j"
        using p by (simp add: placed_def)
      moreover have "find_bucket h x = find_bucket h e"
        using s hash_same [of x e] fns by (simp add: find_bucket_def same_def)
      ultimately have "j = i"
        by (simp add: i_def)
      then show False
        using None j s by (auto simp: find_None_iff)
    qed
    then show ?thesis
      using res None by simp
  next
    case (Some x)
    then have "same x e" "x \<in> set (buckets h ! i)"
      by (auto simp: find_Some_iff)
    then show ?thesis
      using res Some i by (auto simp: contents_def)
  qed
qed

lemma find_bucket_elem:
  assumes "hash_ok hf lt h"
  shows "bnd (bucket_at h (find_bucket h e)) (\<lambda>b. Inr (find_elem h b e)) = hash_find h e"
    and "\<exists>b. bucket_at h (find_bucket h e) = Inr b \<and> hash_find h e = Inr (find_elem h b e)"
  using bucket_index [of h e] assms by (auto simp: hash_find_def bucket_at_def hash_ok_def)

lemma insert_step_ok:
  assumes ok: "hash_ok hf lt h" and new: "\<forall>x \<in># contents h. \<not> same x e"
    and room: "size (contents h) < 2 ^ 32 - 1"
  shows "\<exists>h'. insert_elem h (find_bucket h e) e = Inr h' \<and> hash_ok hf lt h'
     \<and> contents h' = add_mset e (contents h)"
proof -
  let ?h = "(push_elem h e)\<lparr>elem_count := elem_count h + 1\<rparr>"
  have p: "placed h"
    using ok by (simp add: hash_ok_def)
  have "unat (elem_count h + 1) = Suc (unat (elem_count h))"
    using unat_plus_no_wrap [of "elem_count h" 1] ok room by (simp add: hash_ok_def)
  moreover have "placed ?h" "contents ?h = contents (push_elem h e)"
    using push_elem_placed(1) [OF p, of e] by (simp_all add: placed_def find_bucket_def contents_def)
  moreover have "apart lt (add_mset e (contents h))"
    using ok new by (auto simp: hash_ok_def same_def)
  ultimately have "hash_ok hf lt ?h" "contents ?h = add_mset e (contents h)"
    using ok push_elem_placed(2) [OF p, of e] by (simp_all add: hash_ok_def)
  then show ?thesis
    using insert_elem_push [OF p, of e] by auto
qed

lemma remove_step_ok:
  assumes ok: "hash_ok hf lt h" and x: "x \<in># contents h"
  shows "hash_ok hf lt (remove_elem h x)" and "contents (remove_elem h x) = contents h - {#x#}"
    and "find_bucket (remove_elem h x) e = find_bucket h e"
proof -
  have ap: "apart lt (contents h)" and p: "placed h" and sz: "unat (elem_count h) = size (contents h)"
    using ok by (simp_all add: hash_ok_def)
  show fb: "find_bucket (remove_elem h x) e = find_bucket h e" for e
    by (simp add: find_bucket_def remove_elem_def)
  show c: "contents (remove_elem h x) = contents h - {#x#}"
    using mset_concat_remove [of "buckets h" x] apart_count [OF ap, of x]
    by (simp add: contents_def remove_elem_def)
  have "elem_count h \<noteq> 0"
    using x sz by (metis size_eq_0_iff_empty empty_iff set_mset_empty unat_0)
  then have "unat (elem_count h - 1) = size (contents h - {#x#})"
    using sz x by (simp add: unat_minus_one size_Diff_singleton)
  moreover have "placed (remove_elem h x)"
    unfolding placed_def fb
  proof (intro conjI allI impI ballI)
    fix i e assume i: "i < length (buckets (remove_elem h x))" and "e \<in> set (buckets (remove_elem h x) ! i)"
    then have "e \<in> set (buckets h ! i)"
      using set_remove1_subset [of x "buckets h ! i"] by (auto simp: remove_elem_def)
    then show "unat (find_bucket h e) = i"
      using p i by (simp add: placed_def remove_elem_def)
  qed (use p in \<open>simp_all add: placed_def remove_elem_def\<close>)
  ultimately show "hash_ok hf lt (remove_elem h x)"
    using ok c apart_minus [OF ap, of "{#x#}"] by (simp add: hash_ok_def) (simp add: remove_elem_def)
qed

lemma insert_ok:
  assumes ok: "hash_ok hf lt h" and mem: "\<not> mem 0" and room: "size (contents h) < 2 ^ 32 - 1"
  shows "\<exists>h' r. hash_insert mem h e = Some (Inr (h', r)) \<and> hash_find h e = Inr r \<and> hash_ok hf lt h'
     \<and> contents h' = (if r = None then add_mset e (contents h) else contents h)"
proof -
  obtain b r where b: "bucket_at h (find_bucket h e) = Inr b" "hash_find h e = Inr r" "r = find_elem h b e"
    using find_bucket_elem(2) [OF ok] by blast
  show ?thesis
  proof (cases r)
    case None
    then have "\<forall>x \<in># contents h. \<not> same x e"
      using find_ok [OF ok, of e] b(2) by auto
    then obtain h1 where h1: "insert_elem h (find_bucket h e) e = Inr h1" "hash_ok hf lt h1"
      "contents h1 = add_mset e (contents h)"
      using insert_step_ok [OF ok _ room] by blast
    then show ?thesis
      using rehash_ok [where mem = mem, OF h1(2) mem] b None by (auto simp: hash_insert_def)
  next
    case (Some x)
    then show ?thesis
      using rehash_ok [where mem = mem, OF ok mem] b by (auto simp: hash_insert_def)
  qed
qed

lemma delete_ok:
  assumes ok: "hash_ok hf lt h" and mem: "\<not> mem 0"
  shows "\<exists>h' r. hash_delete mem h e = Some (Inr (h', r)) \<and> hash_find h e = Inr r \<and> hash_ok hf lt h'
     \<and> contents h' = (case r of None \<Rightarrow> contents h | Some x \<Rightarrow> contents h - {#x#})"
proof -
  obtain r where r: "hash_find h e = Inr r"
    "case r of None \<Rightarrow> \<forall>x \<in># contents h. \<not> same x e | Some x \<Rightarrow> x \<in># contents h \<and> same x e"
    using find_ok [OF ok] by blast
  show ?thesis
  proof (cases r)
    case None
    then show ?thesis
      using r ok by (simp add: hash_delete_def)
  next
    case (Some x)
    then have "x \<in># contents h"
      using r by simp
    note rm = remove_step_ok [OF ok this]
    show ?thesis
      using rehash_ok [where mem = mem, OF rm(1) mem] rm(2) r Some by (auto simp: hash_delete_def)
  qed
qed

lemma replace_ok:
  assumes ok: "hash_ok hf lt h" and mem: "\<not> mem 0" and room: "size (contents h) < 2 ^ 32 - 1"
  shows "\<exists>h' r. hash_replace mem h e = Some (Inr (h', r)) \<and> hash_find h e = Inr r \<and> hash_ok hf lt h'
     \<and> contents h' = add_mset e (case r of None \<Rightarrow> contents h | Some x \<Rightarrow> contents h - {#x#})"
proof -
  obtain b r where b: "bucket_at h (find_bucket h e) = Inr b" "hash_find h e = Inr r" "r = find_elem h b e"
    using find_bucket_elem(2) [OF ok] by blast
  define h0 where "h0 = (case r of None \<Rightarrow> h | Some x \<Rightarrow> remove_elem h x)"
  have r: "case r of None \<Rightarrow> \<forall>x \<in># contents h. \<not> same x e | Some x \<Rightarrow> x \<in># contents h \<and> same x e"
    using find_ok [OF ok, of e] b(2) by auto
  have h0: "hash_ok hf lt h0 \<and> (\<forall>x \<in># contents h0. \<not> same x e) \<and> find_bucket h0 e = find_bucket h e
      \<and> contents h0 = (case r of None \<Rightarrow> contents h | Some x \<Rightarrow> contents h - {#x#})"
  proof (cases r)
    case None
    then show ?thesis
      using r ok by (simp add: h0_def)
  next
    case (Some x)
    then have x: "x \<in># contents h" "same x e"
      using r by simp_all
    have ap: "apart lt (contents h)"
      using ok by (simp add: hash_ok_def)
    have "\<not> same y e" if "y \<in># contents h - {#x#}" for y
    proof
      assume "same y e"
      then have "same x y"
        using x(2) same_trans same_sym by blast
      moreover have "{#x, y#} \<subseteq># contents h"
        using that multi_member_split [OF x(1)] by auto
      ultimately show False
        using apart_not_same [OF ap] by blast
    qed
    then show ?thesis
      using remove_step_ok [OF ok x(1)] Some by (simp add: h0_def)
  qed
  have "size (contents h0) \<le> size (contents h)"
    using h0 by (auto split: option.splits intro: size_mset_mono)
  then obtain h1 where h1: "insert_elem h0 (find_bucket h e) e = Inr h1" "hash_ok hf lt h1"
    "contents h1 = add_mset e (contents h0)"
    using insert_step_ok [of h0 e] h0 room by fastforce
  have rep: "hash_replace mem h e
      = andThen (Some (insert_elem h0 (find_bucket h e) e)) (\<lambda>h. andThen (rehash mem h) (\<lambda>h. Some (Inr (h, r))))"
    by (simp add: hash_replace_def b(1) b(3) [symmetric] h0_def Let_def)
  show ?thesis
    using rehash_ok [where mem = mem, OF h1(2) mem] b(2) h0 h1(1,3) rep by auto
qed

text \<open>What a lookup gives after an insertion or a deletion.\<close>

lemma find_unique:
  assumes ok: "hash_ok hf lt h" and "x \<in># contents h" and "same x e"
  shows "hash_find h e = Inr (Some x)"
proof -
  obtain r where r: "hash_find h e = Inr r"
    "case r of None \<Rightarrow> \<forall>x \<in># contents h. \<not> same x e | Some x \<Rightarrow> x \<in># contents h \<and> same x e"
    using find_ok [OF ok] by blast
  then obtain y where y: "r = Some y" "y \<in># contents h" "same y e"
    using assms(2,3) by (cases r) auto
  have "same x y"
    using same_trans [OF assms(3) same_sym [OF y(3)]] .
  then have "x = y"
    using apart_unique [of "contents h" x y] ok assms(2) y(2) by (simp add: hash_ok_def)
  then show ?thesis
    using r y by simp
qed

lemma find_none:
  assumes "hash_ok hf lt h" and "\<forall>x \<in># contents h. \<not> same x e"
  shows "hash_find h e = Inr None"
  using find_ok [OF assms(1), of e] assms(2) by (auto split: option.splits)

lemma find_cong:
  assumes ok: "hash_ok hf lt h" "hash_ok hf lt h'"
    and c: "\<And>x. same x e \<Longrightarrow> x \<in># contents h' \<longleftrightarrow> x \<in># contents h"
  shows "hash_find h' e = hash_find h e"
proof -
  obtain r where r: "hash_find h e = Inr r"
    "case r of None \<Rightarrow> \<forall>x \<in># contents h. \<not> same x e | Some x \<Rightarrow> x \<in># contents h \<and> same x e"
    using find_ok [OF ok(1)] by blast
  show ?thesis
  proof (cases r)
    case None
    then show ?thesis
      using r c find_none [OF ok(2), of e] by auto
  next
    case (Some x)
    then show ?thesis
      using r c find_unique [OF ok(2), of x e] by auto
  qed
qed

end

section \<open>Iteration\<close>

text \<open>The iteration idiom documented at \<^verbatim>\<open>hash_first\<close>: advance until a null element.\<close>

partial_function (option) hash_walk :: "'e hash_iterator \<Rightarrow> 'e list run" where
  "hash_walk i =
     andThen (Some (hash_next i)) (\<lambda>(i, cur).
       case cur of
         None \<Rightarrow> Some (Inr [])
       | Some e \<Rightarrow> andThen (hash_walk i) (\<lambda>es. Some (Inr (e # es))))"

text \<open>The elements at or after position \<open>k\<close> (counted from 0) of bucket \<open>b\<close>.\<close>

definition elems_from :: "'e hash \<Rightarrow> nat \<Rightarrow> nat \<Rightarrow> 'e list" where
  "elems_from h b k = drop k (buckets h ! b) @ concat (drop (Suc b) (buckets h))"

lemma elems_from_next:
  assumes "Suc b < length (buckets h)"
  shows "elems_from h b (length (buckets h ! b)) = elems_from h (Suc b) 0"
  using Cons_nth_drop_Suc [OF assms] by (simp add: elems_from_def) (metis concat.simps(2))

definition at_elem :: "'e hash \<Rightarrow> 'e hash_iterator \<Rightarrow> 'e list \<Rightarrow> bool" where
  "at_elem h i xs \<longleftrightarrow>
     it_hash i = h \<and>
     (case xs of
        [] \<Rightarrow> it_elem i = None
      | x # ys \<Rightarrow> \<exists>k. it_elem i = Some (Suc k) \<and> it_bucket i < length (buckets h)
                   \<and> k < length (buckets h ! it_bucket i) \<and> x = buckets h ! it_bucket i ! k
                   \<and> ys = elems_from h (it_bucket i) (Suc k))"

lemma skip_empty_at_elem:
  assumes "it_hash i = h" and "length (buckets h) = unat (bucket_cnt h)" and "it_elem i = Some (Suc k)"
    and "it_bucket i < length (buckets h)" and "k \<le> length (buckets h ! it_bucket i)"
  shows "at_elem h (skip_empty i) (elems_from h (it_bucket i) k)"
  using assms
proof (induction i arbitrary: k rule: skip_empty.induct)
  case (1 i)
  let ?b = "it_bucket i"
  have blen: "bucket_len (it_hash i) ?b = length (buckets h ! ?b)"
    using "1.prems" by (simp add: bucket_len_def)
  show ?case
  proof (cases "k = length (buckets h ! ?b)")
    case False
    then have k: "k < length (buckets h ! ?b)"
      using "1.prems"(5) by simp
    then have "elems_from h ?b k = buckets h ! ?b ! k # elems_from h ?b (Suc k)"
      by (simp add: elems_from_def Cons_nth_drop_Suc [symmetric])
    moreover have "skip_empty i = i"
      using False "1.prems"(3) blen by (subst skip_empty.simps) simp
    ultimately show ?thesis
      using "1.prems" k by (simp add: at_elem_def)
  next
    case True
    then have el: "it_elem i = Some (Suc (bucket_len (it_hash i) ?b))"
      using "1.prems"(3) blen by simp
    show ?thesis
    proof (cases "Suc ?b < length (buckets h)")
      case last: False
      then have "skip_empty i = i\<lparr>it_bucket := Suc ?b, it_elem := None\<rparr>"
        using el "1.prems" by (subst skip_empty.simps) simp
      moreover have "elems_from h ?b k = []"
        using True last by (simp add: elems_from_def)
      ultimately show ?thesis
        using "1.prems"(1) by (simp add: at_elem_def)
    next
      case more: True
      let ?j = "i\<lparr>it_bucket := Suc ?b, it_elem := Some 1\<rparr>"
      have "skip_empty i = skip_empty ?j"
        using el more "1.prems"(1,2) by (subst skip_empty.simps) simp
      moreover have "at_elem h (skip_empty ?j) (elems_from h (it_bucket ?j) 0)"
        using "1.IH" [of 0] el more "1.prems"(1,2) by simp
      ultimately show ?thesis
        using elems_from_next [OF more] True by simp
    qed
  qed
qed

lemma hash_next_at_elem:
  assumes "length (buckets h) = unat (bucket_cnt h)" and "it_hash i = h" and "it_elem i = Some k"
    and "it_bucket i < length (buckets h)" and "k \<le> length (buckets h ! it_bucket i)"
  shows "\<exists>i'. hash_next i = Inr (i', case elems_from h (it_bucket i) k of [] \<Rightarrow> None | x # _ \<Rightarrow> Some x)
           \<and> at_elem h i' (elems_from h (it_bucket i) k)"
proof -
  let ?i = "skip_empty (i\<lparr>it_elem := Some (Suc k)\<rparr>)" and ?xs = "elems_from h (it_bucket i) k"
  have at: "at_elem h ?i ?xs"
    using skip_empty_at_elem [of "i\<lparr>it_elem := Some (Suc k)\<rparr>" h k] assms by simp
  then have "hash_cur ?i = (case ?xs of [] \<Rightarrow> None | x # _ \<Rightarrow> Some x)"
    by (auto simp: at_elem_def hash_cur_def split: list.splits)
  then show ?thesis
    using at assms by (simp add: hash_next_def bucket_len_def Let_def)
qed

lemma hash_walk_from:
  assumes "length (buckets h) = unat (bucket_cnt h)"
  shows "it_hash i = h \<Longrightarrow> it_elem i = Some k \<Longrightarrow> it_bucket i < length (buckets h) \<Longrightarrow>
    k \<le> length (buckets h ! it_bucket i) \<Longrightarrow>
    hash_walk i = Some (Inr (elems_from h (it_bucket i) k))"
proof (induction "length (elems_from h (it_bucket i) k)" arbitrary: i k rule: less_induct)
  case less
  obtain i' where i': "hash_next i
      = Inr (i', case elems_from h (it_bucket i) k of [] \<Rightarrow> None | x # _ \<Rightarrow> Some x)"
    "at_elem h i' (elems_from h (it_bucket i) k)"
    using hash_next_at_elem [OF assms less.prems] by blast
  show ?case
  proof (cases "elems_from h (it_bucket i) k")
    case Nil
    then show ?thesis
      using i'(1) by (subst hash_walk.simps) simp
  next
    case (Cons x ys)
    then obtain m where m: "it_elem i' = Some (Suc m)" "it_bucket i' < length (buckets h)"
      "m < length (buckets h ! it_bucket i')" "ys = elems_from h (it_bucket i') (Suc m)" "it_hash i' = h"
      using i'(2) by (auto simp: at_elem_def)
    then have "hash_walk i' = Some (Inr ys)"
      using less.hyps [of i' "Suc m"] Cons by simp
    then show ?thesis
      using i'(1) Cons by (subst hash_walk.simps) simp
  qed
qed

lemma hash_walk_all:
  assumes "placed h"
  shows "hash_walk (hash_first h) = Some (Inr (concat (buckets h)))"
proof -
  have len: "length (buckets h) = unat (bucket_cnt h)" "0 < length (buckets h)"
    using assms by (simp_all add: placed_def unat_gt_0)
  then have "elems_from h 0 0 = concat (buckets h)"
    by (cases "buckets h") (simp_all add: elems_from_def)
  then show ?thesis
    using hash_walk_from [OF len(1), of "hash_first h" 0] len(2) by (simp add: hash_first_def)
qed

section \<open>Initialisation\<close>

lemma concat_map_Nil [simp]: "concat (map (\<lambda>_. []) xs) = []"
  by (induction xs) simp_all

lemma hash_clear_all:
  assumes len: "length (buckets h) = unat (bucket_cnt h)"
  shows "hash_clear h d = Inr (h\<lparr>buckets := map (\<lambda>_. []) (buckets h), elem_count := 0\<rparr>, if d then concat (buckets h) else [])"
proof -
  let ?body = "\<lambda>bucket (cleared, seen). Inr (cleared @ [[]], seen @ (if d then bucket else []))"
  have "each_bucket ?body bs (cl, seen) = Inr (cl @ map (\<lambda>_. []) bs, seen @ (if d then concat bs else []))"
    for bs cl :: "'a list list" and seen :: "'a list"
    by (induction bs arbitrary: cl seen) simp_all
  from this [of "buckets h" "[]" "[]"] show ?thesis
    unfolding hash_clear_def len [symmetric] for_buckets_all by (cases d) simp_all
qed

lemma hash_init_ok:
  assumes "hash_init mem hf lt junk = Inr (Some h)" and "length junk \<ge> 4"
  shows "hash_ok hf lt h" and "contents h = {#}"
proof -
  let ?h = "\<lparr>elem_count = 0, bucket_cnt = 4, buckets = take 4 junk, hash_fn = hf, less_fn = lt\<rparr>"
  have "length (buckets ?h) = unat (bucket_cnt ?h)"
    using assms(2) by simp
  note clear = hash_clear_all [OF this, of False]
  have h: "h = \<lparr>elem_count = 0, bucket_cnt = 4, buckets = map (\<lambda>_. []) (take 4 junk), hash_fn = hf, less_fn = lt\<rparr>"
    using assms(1) unfolding hash_init_def clear by (simp split: if_splits)
  have "unat (4 :: u32) = 2 ^ 2"
    by simp
  then have "is_power_of_2 4"
    using is_power_of_2_iff by blast
  then show "hash_ok hf lt h" and "contents h = {#}"
    using assms(2) h by (auto simp: hash_ok_def placed_def contents_def)
qed

section \<open>Properties\<close>

text \<open>A concrete table: elements are numbers, compared by their value divided by 10, hashed alike.\<close>

definition demo_lt :: "nat \<Rightarrow> nat \<Rightarrow> bool" where
  "demo_lt x y \<longleftrightarrow> x div 10 < y div 10"

definition demo_hf :: "nat \<Rightarrow> u32" where
  "demo_hf x = of_nat (x div 10)"

definition demo_hash :: "nat hash" where
  "demo_hash = \<lparr>elem_count = 3, bucket_cnt = 4, buckets = [[40], [51, 12], [], []], hash_fn = demo_hf,
     less_fn = demo_lt\<rparr>"

lemma demo_laws: "hash_laws demo_lt demo_hf"
  by unfold_locales (auto simp: demo_lt_def demo_hf_def)

lemma demo_hash_ok: "hash_ok demo_hf demo_lt demo_hash"
proof -
  have "placed demo_hash"
    by code_simp
  moreover have "is_power_of_2 4"
    by (simp add: is_power_of_2_def turn_off_least_1bit_def)
  moreover have "apart demo_lt (contents demo_hash)"
    by (simp add: contents_def demo_hash_def demo_lt_def)
  ultimately show ?thesis
    by (simp add: hash_ok_def contents_def demo_hash_def)
qed

text \<open>C8: With a hash function that agrees with the comparison function, and a \<^verbatim>\<open>malloc\<close> that refuses
  requests for no bytes, \<^verbatim>\<open>hash_insert\<close> on a well-formed table with room in its counter always
  returns, whether or not the table could be resized. It keeps the table well-formed; it returns the
  element equal to the new one that was there, leaving the contents alone, or a null pointer after
  adding the new element. Afterwards \<^verbatim>\<open>hash_find\<close> finds the new element (or the one that was there)
  for every equal key and what it found before for every other key.\<close>

theorem hash_insert_find:
  assumes laws: "hash_laws lt hf" and ok: "hash_ok hf lt h" and mem: "\<not> mem 0"
    and room: "size (contents h) < 2 ^ 32 - 1"
  shows "\<exists>h' old. hash_insert mem h e = Some (Inr (h', old)) \<and> hash_find h e = Inr old \<and> hash_ok hf lt h'
     \<and> contents h' = (if old = None then add_mset e (contents h) else contents h)
     \<and> (\<forall>k. hash_find h' k =
          (if \<not> lt k e \<and> \<not> lt e k then Inr (Some (case old of None \<Rightarrow> e | Some x \<Rightarrow> x)) else hash_find h k))"
proof -
  note same_def = strict_weak.same_def [OF hash_laws.axioms(1) [OF laws]]
  obtain h' old where h': "hash_insert mem h e = Some (Inr (h', old))" "hash_find h e = Inr old" "hash_ok hf lt h'"
    "contents h' = (if old = None then add_mset e (contents h) else contents h)"
    using hash_laws.insert_ok [OF laws, where mem = mem, OF ok mem room] by blast
  have "hash_find h' k =
      (if \<not> lt k e \<and> \<not> lt e k then Inr (Some (case old of None \<Rightarrow> e | Some x \<Rightarrow> x)) else hash_find h k)" for k
  proof (cases "\<not> lt k e \<and> \<not> lt e k")
    case True
    then have ek: "strict_weak.same lt e k"
      by (simp add: same_def)
    obtain x where x: "x = (case old of None \<Rightarrow> e | Some x \<Rightarrow> x)" "x \<in># contents h'" "strict_weak.same lt x k"
    proof (cases old)
      case None
      then show ?thesis
        using that [of e] h'(4) ek by simp
    next
      case (Some y)
      then have "y \<in># contents h \<and> strict_weak.same lt y e"
        using hash_laws.find_ok [OF laws ok, of e] h'(2) by auto
      then show ?thesis
        using that [of y] Some h'(4) hash_laws.same_trans [OF laws _ ek] by simp
    qed
    then show ?thesis
      using hash_laws.find_unique [OF laws h'(3) x(2,3)] True by simp
  next
    case False
    then have "\<not> strict_weak.same lt e k"
      by (auto simp: same_def)
    then have "hash_find h' k = hash_find h k"
      using h'(4) by (intro hash_laws.find_cong [OF laws ok h'(3)]) (auto split: if_splits)
    then show ?thesis
      using False by auto
  qed
  then show ?thesis
    using h' by blast
qed

theorem hash_insert_find_witness:
  "\<exists>h'. hash_insert (\<lambda>n. n \<noteq> 0) demo_hash 33 = Some (Inr (h', None)) \<and> hash_find h' 35 = Inr (Some 33)
     \<and> hash_find h' 59 = Inr (Some 51) \<and> hash_find h' 60 = Inr None"
proof -
  have "size (contents demo_hash) < 2 ^ 32 - 1"
    by (simp add: contents_def demo_hash_def)
  from hash_insert_find [OF demo_laws demo_hash_ok _ this, of "\<lambda>n. n \<noteq> 0" 33]
  obtain h' old where h': "hash_insert (\<lambda>n. n \<noteq> 0) demo_hash 33 = Some (Inr (h', old))"
    "hash_find demo_hash 33 = Inr old" and f: "\<And>k. hash_find h' k =
       (if \<not> demo_lt k 33 \<and> \<not> demo_lt 33 k then Inr (Some (case old of None \<Rightarrow> 33 | Some x \<Rightarrow> x))
        else hash_find demo_hash k)"
    by auto
  have old: "hash_find demo_hash 33 = Inr None" "hash_find demo_hash 59 = Inr (Some 51)"
    "hash_find demo_hash 60 = Inr None"
    by code_simp+
  then show ?thesis
    using h' f [of 35] f [of 59] f [of 60] by (simp add: demo_lt_def)
qed

text \<open>C20: \<^verbatim>\<open>hash_delete\<close> on a well-formed table always returns, keeps the table well-formed, removes and
  returns exactly the element equal to its argument, if there is one, and leaves every other element
  where \<^verbatim>\<open>hash_find\<close> finds it.\<close>

theorem hash_delete_find:
  assumes laws: "hash_laws lt hf" and ok: "hash_ok hf lt h" and mem: "\<not> mem 0"
  shows "\<exists>h' old. hash_delete mem h e = Some (Inr (h', old)) \<and> hash_find h e = Inr old \<and> hash_ok hf lt h'
     \<and> contents h' = (case old of None \<Rightarrow> contents h | Some x \<Rightarrow> contents h - {#x#})
     \<and> (\<forall>k. hash_find h' k = (if \<not> lt k e \<and> \<not> lt e k then Inr None else hash_find h k))"
proof -
  note same_def = strict_weak.same_def [OF hash_laws.axioms(1) [OF laws]]
  note same_trans = hash_laws.same_trans [OF laws]
  note same_sym = hash_laws.same_sym [OF laws]
  obtain h' old where h': "hash_delete mem h e = Some (Inr (h', old))" "hash_find h e = Inr old" "hash_ok hf lt h'"
    "contents h' = (case old of None \<Rightarrow> contents h | Some x \<Rightarrow> contents h - {#x#})"
    using hash_laws.delete_ok [OF laws, where mem = mem, OF ok mem] by blast
  have old: "case old of None \<Rightarrow> \<forall>x \<in># contents h. \<not> strict_weak.same lt x e
      | Some x \<Rightarrow> x \<in># contents h \<and> strict_weak.same lt x e"
    using hash_laws.find_ok [OF laws ok, of e] h'(2) by auto
  have gone: "\<not> strict_weak.same lt y e" if "y \<in># contents h'" for y
  proof (cases old)
    case None
    then show ?thesis
      using old h'(4) that by simp
  next
    case (Some x)
    have "x \<in># contents h"
      using old Some by simp
    then obtain N where N: "contents h = add_mset x N"
      using multi_member_split by metis
    then have "{#x, y#} \<subseteq># contents h"
      using that h'(4) Some by simp
    moreover have "apart lt (contents h)"
      using ok by (simp add: hash_ok_def)
    ultimately have "\<not> strict_weak.same lt x y"
      using hash_laws.apart_not_same [OF laws] by blast
    then show ?thesis
      using old Some same_trans [of x e y] same_sym [of y e] by auto
  qed
  have "hash_find h' k = (if \<not> lt k e \<and> \<not> lt e k then Inr None else hash_find h k)" for k
  proof (cases "\<not> lt k e \<and> \<not> lt e k")
    case True
    then have "strict_weak.same lt k e"
      by (simp add: same_def)
    then have "\<forall>x \<in># contents h'. \<not> strict_weak.same lt x k"
      using gone same_trans by blast
    then show ?thesis
      using hash_laws.find_none [OF laws h'(3)] True by simp
  next
    case False
    then have "\<not> strict_weak.same lt e k"
      by (auto simp: same_def)
    then have ne: "\<not> strict_weak.same lt z e" if "strict_weak.same lt z k" for z
      using that same_trans same_sym by blast
    have "z \<in># contents h' \<longleftrightarrow> z \<in># contents h" if "strict_weak.same lt z k" for z
    proof (cases old)
      case (Some x)
      then obtain N where "contents h = add_mset x N"
        using old multi_member_split [of x "contents h"] by auto
      moreover have "z \<noteq> x"
        using ne [OF that] old Some by auto
      ultimately show ?thesis
        using h'(4) Some by simp
    qed (use h'(4) in simp)
    then show ?thesis
      using hash_laws.find_cong [OF laws ok h'(3), of k] False by auto
  qed
  then show ?thesis
    using h' by blast
qed

theorem hash_delete_find_witness:
  "\<exists>h'. hash_delete (\<lambda>n. n \<noteq> 0) demo_hash 55 = Some (Inr (h', Some 51)) \<and> hash_find h' 51 = Inr None
     \<and> hash_find h' 19 = Inr (Some 12)"
proof -
  from hash_delete_find [OF demo_laws demo_hash_ok, of "\<lambda>n. n \<noteq> 0" 55]
  obtain h' old where h': "hash_delete (\<lambda>n. n \<noteq> 0) demo_hash 55 = Some (Inr (h', old))"
    "hash_find demo_hash 55 = Inr old" and f: "\<And>k. hash_find h' k =
       (if \<not> demo_lt k 55 \<and> \<not> demo_lt 55 k then Inr None else hash_find demo_hash k)"
    by auto
  have "hash_find demo_hash 55 = Inr (Some 51)" "hash_find demo_hash 19 = Inr (Some 12)"
    by code_simp+
  then show ?thesis
    using h' f [of 51] f [of 19] by (simp add: demo_lt_def)
qed

text \<open>C21: Iterating over a well-formed table as \<^verbatim>\<open>hash.c\<close> documents (\<^verbatim>\<open>hash_first\<close>, then
  \<^verbatim>\<open>hash_next\<close> until it returns a null pointer) terminates without an assertion failure and visits
  every element exactly once, in the order in which \<^verbatim>\<open>hash_apply\<close> calls its action.\<close>

theorem hash_iteration_complete:
  assumes "hash_ok hf lt h"
  shows "\<exists>es. hash_walk (hash_first h) = Some (Inr es) \<and> mset es = contents h
     \<and> hash_apply h (Some (\<lambda>e seen. seen @ [e])) [] = Inr es"
proof -
  have f: "fold (\<lambda>e seen. seen @ [e]) b s = s @ b" for b s :: "'a list"
    by (induction b arbitrary: s) simp_all
  have "fold (\<lambda>b s. fold (\<lambda>e seen. seen @ [e]) b s) bs s = s @ concat bs" for bs and s :: "'a list"
    by (induction bs arbitrary: s) (simp_all add: f)
  moreover have len: "length (buckets h) = unat (bucket_cnt h)"
    using assms by (simp add: hash_ok_def placed_def)
  ultimately show ?thesis
    using hash_walk_all [of h] assms
    by (simp add: hash_ok_def contents_def hash_apply_def each_bucket_total for_buckets_all [of "buckets h", unfolded len])
qed

theorem hash_iteration_complete_witness:
  "\<exists>es. hash_walk (hash_first demo_hash) = Some (Inr es) \<and> mset es = {#40, 51, 12#}"
  using hash_iteration_complete [OF demo_hash_ok] by (auto simp: contents_def demo_hash_def)

text \<open>C22: The search for the new number of buckets in \<^verbatim>\<open>rehash\<close> terminates for every table and gives
  a power of two that is at least 4, and \<^verbatim>\<open>is_power_of_2\<close> recognises exactly the powers of two.\<close>

theorem new_bucket_count_terminates:
  "(\<exists>n. new_bucket_count h = Some (Inr n) \<and> (\<exists>k. unat n = 2 ^ k) \<and> 4 \<le> n)
     \<and> (is_power_of_2 x \<longleftrightarrow> (\<exists>k. unat x = 2 ^ k))"
  using new_bucket_count_correct [of h] is_power_of_2_iff by blast

end
