(* ===== verification/Frame_Table.thy ===== *)
theory Frame_Table
  imports Kernel_Hash
begin

text \<open>
  The frame table of \<^verbatim>\<open>vm/frame_table.c\<close> and the supplemental page table of
  \<^verbatim>\<open>vm/SupplementalPageTable.c\<close>: hash tables of pages keyed by address. Both hash and compare pages by their
  \<^verbatim>\<open>addr\<close> member, so they share the definitions here. The lemmas interpret the laws of hash tables on the two
  functions and say what a lookup finds. \<^verbatim>\<open>add_frame_entry\<close> takes a page and a heap block and enters them in one go; it is not modelled,
  since the hash tables here know of \<^verbatim>\<open>malloc\<close> only whether it succeeds.
\<close>

section \<open>Pages\<close>

record page =
  page_addr :: addr
  lastAccessTime :: u32

text \<open>The four bytes of the \<^verbatim>\<open>addr\<close> member are all there, so \<^verbatim>\<open>hash_bytes\<close> does not run past
  them.\<close>

definition page_hash :: "page \<Rightarrow> u32" where
  "page_hash p = (case hash_bytes (le_bytes (page_addr p)) 4 of Inl _ \<Rightarrow> 0 | Inr h \<Rightarrow> h)"

definition page_less :: "page \<Rightarrow> page \<Rightarrow> bool" where
  "page_less a b \<longleftrightarrow> page_addr a < page_addr b"

definition init_hash_table :: "(u32 \<Rightarrow> bool) \<Rightarrow> page list list \<Rightarrow> page hash option res" where
  "init_hash_table mem junk = hash_init mem page_hash page_less junk"

section \<open>The frame table\<close>

text \<open>\<^verbatim>\<open>frame_table_create\<close> ignores the result of \<^verbatim>\<open>hash_init\<close>; where \<^verbatim>\<open>malloc\<close> fails, no bucket
  array exists.\<close>

definition frame_table_create :: "(u32 \<Rightarrow> bool) \<Rightarrow> page list list \<Rightarrow> page hash res" where
  "frame_table_create mem junk =
     bnd (hash_init mem page_hash page_less junk) (\<lambda>r.
       Inr (case r of
              Some h \<Rightarrow> h
            | None \<Rightarrow> \<lparr>elem_count = 0, bucket_cnt = 4, buckets = [], hash_fn = page_hash, less_fn = page_less\<rparr>))"

text \<open>The key's \<^verbatim>\<open>lastAccessTime\<close> is not initialised; \<open>t\<close> is what it happens to hold.\<close>

definition page_lookup :: "u32 \<Rightarrow> page hash \<Rightarrow> addr \<Rightarrow> page option res" where
  "page_lookup t table address = hash_find table \<lparr>page_addr = address, lastAccessTime = t\<rparr>"

section \<open>Hash table laws\<close>

lemma bytes_loop_ok: "n \<le> length bs \<Longrightarrow> \<exists>h'. bytes_loop bs n h = Inr h'"
  by (induction bs n h rule: bytes_loop.induct) simp_all

lemma hash_bytes_addr: "\<exists>h. hash_bytes (le_bytes a) 4 = Inr h"
  unfolding hash_bytes_def by (rule bytes_loop_ok) (simp add: le_bytes_def)

interpretation pages: hash_laws page_less page_hash
proof
  fix x y z :: page
  show "page_less x y \<Longrightarrow> \<not> page_less y x"
    by (simp add: page_less_def)
  show "page_less x z \<Longrightarrow> page_less x y \<or> page_less y z"
    by (auto simp: page_less_def)
  show "\<not> page_less x y \<Longrightarrow> \<not> page_less y x \<Longrightarrow> page_hash x = page_hash y"
    by (simp add: page_less_def page_hash_def)
qed

lemma pages_same [simp]: "pages.same p q \<longleftrightarrow> page_addr p = page_addr q"
  by (auto simp: pages.same_def page_less_def)

section \<open>Lookups\<close>

text \<open>\<^verbatim>\<open>page_lookup\<close> finds the entry with exactly the given address, whatever the stale member of its key holds. An address inside a page
  but not at its start is not found, although the comment of the function says that it returns the page containing the
  address.\<close>

lemma page_lookup_exact:
  assumes "hash_ok page_hash page_less table"
  shows "\<exists>r. page_lookup t table a = Inr r
     \<and> (case r of None \<Rightarrow> \<forall>p \<in># contents table. page_addr p \<noteq> a | Some p \<Rightarrow> p \<in># contents table \<and> page_addr p = a)"
  using pages.find_ok [OF assms, of "\<lparr>page_addr = a, lastAccessTime = t\<rparr>"] by (auto simp: page_lookup_def split: option.splits)

lemma page_lookup_unique:
  assumes "hash_ok page_hash page_less table" and "p \<in># contents table"
  shows "page_lookup t table (page_addr p) = Inr (Some p)"
  using pages.find_unique [OF assms, of "\<lparr>page_addr = page_addr p, lastAccessTime = t\<rparr>"] by (simp add: page_lookup_def)

text \<open>A freshly created table is empty, when \<^verbatim>\<open>malloc\<close> grants its buckets.\<close>

lemma frame_table_create_ok:
  assumes "mem 64" and "length junk \<ge> 4"
  shows "\<exists>table. frame_table_create mem junk = Inr table \<and> hash_ok page_hash page_less table \<and> contents table = {#}"
proof -
  obtain h where h: "hash_init mem page_hash page_less junk = Inr (Some h)"
    using assms hash_clear_all [of "\<lparr>elem_count = 0, bucket_cnt = 4, buckets = take 4 junk, hash_fn = page_hash, less_fn = page_less\<rparr>" False]
    by (simp add: hash_init_def)
  then show ?thesis
    using hash_init_ok [OF h assms(2)] by (simp add: frame_table_create_def)
qed

end
