(* ===== verification/Arithmetic.thy ===== *)
theory Arithmetic
  imports Prelude "HOL-Library.Signed_Division"
begin

text \<open>
  The 64-bit division routines of \<^verbatim>\<open>lib/arithmetic.c\<close>, which GCC calls for \<^verbatim>\<open>/\<close> and \<^verbatim>\<open>%\<close> on
  \<^verbatim>\<open>long long\<close> operands. They are built on the \<^verbatim>\<open>divl\<close> instruction of IA-32, which divides a
  64-bit number by a 32-bit one and traps when the quotient has more than 32 bits. The lemmas
  show that the quotients are exact and never trap, and what the remainder routines return.
\<close>

section \<open>Routines\<close>

definition divl :: "u64 \<Rightarrow> u32 \<Rightarrow> u32 res" where
  "divl n d =
     (if d = 0 \<or> unat n div unat d \<ge> 2 ^ 32 then Inl Divide_error else Inr (of_nat (unat n div unat d)))"

definition nlz :: "u32 \<Rightarrow> nat" where
  "nlz x =
     (let n = 0;
          (n, x) = (if x \<le> 0x0000FFFF then (n + 16, push_bit 16 x) else (n, x));
          (n, x) = (if x \<le> 0x00FFFFFF then (n + 8, push_bit 8 x) else (n, x));
          (n, x) = (if x \<le> 0x0FFFFFFF then (n + 4, push_bit 4 x) else (n, x));
          (n, x) = (if x \<le> 0x3FFFFFFF then (n + 2, push_bit 2 x) else (n, x))
      in if x \<le> 0x7FFFFFFF then n + 1 else n)"

text \<open>A 32-bit remainder or quotient by 0 traps as \<^verbatim>\<open>divl\<close> does.\<close>

definition udiv64 :: "u64 \<Rightarrow> u64 \<Rightarrow> u64 res" where
  "udiv64 n d =
     (if drop_bit 32 d = 0 then
        let b = push_bit 32 1 :: u64;
            n1 = ucast (drop_bit 32 n) :: u32;
            n0 = ucast n :: u32;
            d0 = ucast d :: u32
        in bnd (divl (b * ucast (n1 mod d0) + ucast n0) d0) (\<lambda>q. Inr (ucast q + b * ucast (n1 div d0)))
      else if n < d then Inr 0
      else
        let d1 = ucast (drop_bit 32 d) :: u32;
            s = nlz d1
        in bnd (divl (drop_bit 1 n) (ucast (drop_bit 32 (push_bit s d)))) (\<lambda>r.
             let q = ucast (drop_bit (31 - s) r) :: u64
             in Inr (if n - (q - 1) * d < d then q - 1 else q)))"

definition umod64 :: "u64 \<Rightarrow> u64 \<Rightarrow> u32 res" where
  "umod64 n d = bnd (udiv64 n d) (\<lambda>q. Inr (ucast (n - d * q)))"

text \<open>Signed 64-bit integers are words read with \<open>sint\<close>.\<close>

definition sdiv64 :: "u64 \<Rightarrow> u64 \<Rightarrow> u64 res" where
  "sdiv64 n d =
     (let n_abs = (if 0 \<le>s n then n else - n);
          d_abs = (if 0 \<le>s d then d else - d)
      in bnd (udiv64 n_abs d_abs) (\<lambda>q_abs. Inr (if (n <s 0) = (d <s 0) then q_abs else - q_abs)))"

definition smod64 :: "u64 \<Rightarrow> u64 \<Rightarrow> u32 res" where
  "smod64 n d = bnd (sdiv64 n d) (\<lambda>q. Inr (ucast (n - d * q)))"

definition divdi3 :: "u64 \<Rightarrow> u64 \<Rightarrow> u64 res" where
  "divdi3 n d = sdiv64 n d"

definition moddi3 :: "u64 \<Rightarrow> u64 \<Rightarrow> u64 res" where
  "moddi3 n d = bnd (smod64 n d) (\<lambda>r. Inr (scast r))"

definition udivdi3 :: "u64 \<Rightarrow> u64 \<Rightarrow> u64 res" where
  "udivdi3 n d = udiv64 n d"

definition umoddi3 :: "u64 \<Rightarrow> u64 \<Rightarrow> u64 res" where
  "umoddi3 n d = bnd (umod64 n d) (\<lambda>r. Inr (ucast r))"

section \<open>Leading zeros\<close>

lemma unat_push_bit_no_wrap:
  "unat x * 2 ^ k < 2 ^ LENGTH('a) \<Longrightarrow> unat (push_bit k x) = unat x * 2 ^ k" for x :: "'a::len word"
  by (simp only: unsigned_push_bit_eq) (simp add: push_bit_eq_mult take_bit_nat_eq_self)

lemma nlz_step:
  fixes x :: u32
  assumes "x \<le> m" and "unat m * 2 ^ k < 2 ^ 32"
  shows "unat (push_bit k x) = unat x * 2 ^ k"
proof -
  have "unat x * 2 ^ k \<le> unat m * 2 ^ k"
    using assms(1) by (simp add: word_le_nat_alt)
  then show ?thesis
    using le_less_trans [OF _ assms(2)] by (intro unat_push_bit_no_wrap) simp
qed

text \<open>One stage of \<^verbatim>\<open>nlz\<close>: the number shifted so far stays below \<open>2 ^ 32\<close> and above the next bound.\<close>

lemma nlz_stage:
  fixes x :: u32
  assumes "unat x = x0 * 2 ^ n" and "b \<le> unat x" and "unat m * 2 ^ k < 2 ^ 32" and "unat m < b * 2 ^ k"
  shows "\<exists>n' x'. (if x \<le> m then (n + k, push_bit k x) else (n, x)) = (n', x') \<and> unat x' = x0 * 2 ^ n'
     \<and> n' \<le> n + k \<and> (b * 2 ^ k \<le> unat x' \<or> Suc (unat m) \<le> unat x')"
proof (cases "x \<le> m")
  case True
  then show ?thesis
    using assms nlz_step [OF True assms(3)] by (simp add: power_add)
next
  case False
  then show ?thesis
    using assms by (simp add: word_le_nat_alt)
qed

lemma nlz_correct:
  assumes "x \<noteq> 0"
  shows "nlz x \<le> 31" and "2 ^ 31 \<le> unat x * 2 ^ nlz x" and "unat x * 2 ^ nlz x < 2 ^ 32"
proof -
  have x: "1 \<le> unat x"
    using assms by (simp add: Suc_le_eq unat_gt_0)
  obtain n1 x1 where 1: "(if x \<le> 0x0000FFFF then (0 + 16, push_bit 16 x) else (0, x)) = (n1, x1)"
    "unat x1 = unat x * 2 ^ n1" "n1 \<le> 16" "2 ^ 16 \<le> unat x1"
    using nlz_stage [of x "unat x" 0 1 "0x0000FFFF" 16] x by auto
  obtain n2 x2 where 2: "(if x1 \<le> 0x00FFFFFF then (n1 + 8, push_bit 8 x1) else (n1, x1)) = (n2, x2)"
    "unat x2 = unat x * 2 ^ n2" "n2 \<le> n1 + 8" "2 ^ 24 \<le> unat x2"
    using nlz_stage [OF 1(2) 1(4), of "0x00FFFFFF" 8] by auto
  obtain n3 x3 where 3: "(if x2 \<le> 0x0FFFFFFF then (n2 + 4, push_bit 4 x2) else (n2, x2)) = (n3, x3)"
    "unat x3 = unat x * 2 ^ n3" "n3 \<le> n2 + 4" "2 ^ 28 \<le> unat x3"
    using nlz_stage [OF 2(2) 2(4), of "0x0FFFFFFF" 4] by auto
  obtain n4 x4 where 4: "(if x3 \<le> 0x3FFFFFFF then (n3 + 2, push_bit 2 x3) else (n3, x3)) = (n4, x4)"
    "unat x4 = unat x * 2 ^ n4" "n4 \<le> n3 + 2" "2 ^ 30 \<le> unat x4"
    using nlz_stage [OF 3(2) 3(4), of "0x3FFFFFFF" 2] by auto
  have n: "nlz x = (if x4 \<le> 0x7FFFFFFF then n4 + 1 else n4)"
    using 1(1) 2(1) 3(1) 4(1) unfolding nlz_def Let_def by simp
  show "nlz x \<le> 31"
    using n 1(3) 2(3) 3(3) 4(3) by simp
  have "unat x * 2 ^ nlz x = (if x4 \<le> 0x7FFFFFFF then 2 * unat x4 else unat x4)"
    using n 4(2) by simp
  then show "2 ^ 31 \<le> unat x * 2 ^ nlz x" "unat x * 2 ^ nlz x < 2 ^ 32"
    using 4(4) unat_less_size [of x4] by (auto simp: word_le_nat_alt)
qed

section \<open>Quotients\<close>

text \<open>Dividing by the leading 32 bits of the divisor, scaled back, overestimates the quotient by at
  most one.\<close>

lemma overestimate:
  fixes n d D t :: nat
  assumes d: "d = D + t" and D: "0 < D" and t: "n * t \<le> D * d"
  shows "n div d \<le> n div D" and "n div D \<le> n div d + 1"
proof -
  show "n div d \<le> n div D"
    using d D by (intro div_le_mono2) simp_all
  have pos: "0 < d"
    using d D by simp
  have "n * d = n * D + n * t"
    unfolding d by (rule distrib_left)
  then have "n * d \<le> (n + d) * D"
    using t by (simp add: algebra_simps)
  also have "n + d < (n div d + 2) * d"
    using dividend_less_div_times [OF pos, of n] by simp
  then have "(n + d) * D < (n div d + 2) * d * D"
    using D by (rule mult_less_mono1)
  also have "\<dots> = (n div d + 2) * D * d"
    by (simp only: mult_ac)
  finally have "n < (n div d + 2) * D"
    by (rule mult_less_cancel2 [THEN iffD1, THEN conjunct2])
  then have "n div D < n div d + 2"
    by (simp add: less_mult_imp_div_less)
  then show "n div D \<le> n div d + 1"
    by simp
qed

lemma normalised_estimate:
  fixes n d k :: nat
  assumes n: "n < 2 ^ 64" and big: "2 ^ 31 \<le> d div 2 ^ k" and k: "1 \<le> k"
  shows "n div d \<le> n div (d div 2 ^ k * 2 ^ k)" and "n div (d div 2 ^ k * 2 ^ k) \<le> n div d + 1"
proof -
  define D where "D = d div 2 ^ k * 2 ^ k"
  define t where "t = d mod 2 ^ k"
  have d: "d = D + t"
    unfolding D_def t_def by (rule div_mult_mod_eq [symmetric])
  have t: "t < 2 ^ k"
    by (simp add: t_def)
  have D: "2 ^ 31 * 2 ^ k \<le> D"
    unfolding D_def using big by (rule mult_le_mono1)
  have "2 ^ 1 \<le> (2 :: nat) ^ k"
    using k by (rule power_increasing) simp
  then obtain p where p: "(2 :: nat) ^ k = p + 2"
    by (metis le_add_diff_inverse2 power_one_right)
  have "4 * t \<le> 4 * (p + 1)"
    using t p by simp
  also have "\<dots> \<le> (p + 2) * (p + 2)"
    by (simp add: distrib_left)
  finally have "2 ^ 62 * (4 * t) \<le> 2 ^ 62 * ((p + 2) * (p + 2))"
    by (rule mult_le_mono2)
  also have "\<dots> = (2 ^ 31 * (p + 2)) * (2 ^ 31 * (p + 2))"
    by (simp add: algebra_simps)
  also have "\<dots> \<le> D * d"
    using D unfolding d p by (intro mult_le_mono) simp_all
  finally have "2 ^ 64 * t \<le> D * d"
    by simp
  then have "n * t \<le> D * d"
    using mult_le_mono1 [OF less_imp_le [OF n], of t] by (rule order_trans [rotated])
  moreover have "0 < D"
    using less_le_trans [OF _ D, of 0] by simp
  ultimately show "n div d \<le> n div (d div 2 ^ k * 2 ^ k)" "n div (d div 2 ^ k * 2 ^ k) \<le> n div d + 1"
    using overestimate [OF d] by (simp_all only: D_def)
qed

lemma divl_ok: "d \<noteq> 0 \<Longrightarrow> unat n div unat d < 2 ^ 32 \<Longrightarrow> \<exists>q. divl n d = Inr q \<and> unat q = unat n div unat d"
  by (auto simp: divl_def unat_of_nat)

lemma unat_drop_bit: "unat (drop_bit k w) = unat w div 2 ^ k" for w :: "'a::len word"
  by (simp only: unsigned_drop_bit_eq) (simp add: drop_bit_eq_div take_bit_nat_eq_self)

lemma unat_ucast_32: "unat (ucast w :: u32) = unat w mod 2 ^ 32" for w :: u64
  by (simp add: unsigned_ucast_eq take_bit_eq_mod)

lemma unat_ucast_64 [simp]: "unat (ucast w :: u64) = unat w" for w :: u32
proof -
  have "unat w < 2 ^ 64"
    using unat_less_size [of w] by simp
  then show ?thesis
    by (simp add: unsigned_ucast_eq take_bit_nat_eq_self)
qed

lemma udiv64_small:
  assumes d: "drop_bit 32 d = 0" "d \<noteq> 0"
  shows "udiv64 n d = Inr (n div d)"
proof -
  define n1 where "n1 = (ucast (drop_bit 32 n) :: u32)"
  define n0 where "n0 = (ucast n :: u32)"
  define d0 where "d0 = (ucast d :: u32)"
  have "unat d div 2 ^ 32 = 0"
    unfolding unat_drop_bit [symmetric] d(1) by simp
  then have lt: "unat d < 2 ^ 32"
    by simp
  then have d0: "unat d0 = unat d" "d0 \<noteq> 0"
    using d(2) by (auto simp: d0_def unat_ucast_32 word_unat_eq_iff)
  have "unat n div 2 ^ 32 < 2 ^ 32"
    using unat_less_size [of n] by (simp add: less_mult_imp_div_less)
  then have n1: "unat n1 = unat n div 2 ^ 32"
    unfolding n1_def unat_ucast_32 unat_drop_bit by simp
  have n0: "unat n0 = unat n mod 2 ^ 32"
    unfolding n0_def unat_ucast_32 by simp
  let ?a = "push_bit 32 1 * ucast (n1 mod d0) + ucast n0 :: u64"
  have m: "unat (n1 mod d0) < unat d"
    using d0 d(2) by (simp add: unat_mod unat_gt_0)
  have "2 ^ 32 * unat (n1 mod d0) + unat n0 < 2 ^ 32 * unat d"
  proof -
    have "2 ^ 32 * (unat (n1 mod d0) + 1) \<le> 2 ^ 32 * unat d"
      using m by (intro mult_le_mono2) simp
    then show ?thesis
      using unat_less_size [of n0] by simp
  qed
  moreover have "2 ^ 32 * unat d < 2 ^ 64"
    using lt by simp
  ultimately have a: "unat ?a = 2 ^ 32 * unat (n1 mod d0) + unat n0" "unat ?a < 2 ^ 32 * unat d"
    by (simp_all add: push_bit_eq_mult unat_word_ariths)
  have "unat ?a div unat d0 < 2 ^ 32"
    using a(2) d0(1) by (simp add: less_mult_imp_div_less)
  then obtain q where q: "divl ?a d0 = Inr q" "unat q = unat ?a div unat d"
    using divl_ok [OF d0(2), of ?a] d0(1) by auto
  have "unat n = 2 ^ 32 * (unat n1 div unat d * unat d + unat n1 mod unat d) + unat n0"
    using n1 n0 by simp
  also have "\<dots> = unat ?a + 2 ^ 32 * (unat n1 div unat d) * unat d"
    unfolding a(1) unat_mod d0(1) by (simp only: distrib_left add_ac mult_ac)
  finally have "unat n div unat d = 2 ^ 32 * (unat n1 div unat d) + unat ?a div unat d"
    using d(2) by (simp add: word_unat_eq_iff)
  then have sum: "unat (n div d) = 2 ^ 32 * unat (n1 div d0) + unat q"
    unfolding unat_div q(2) d0(1) .
  let ?h = "push_bit 32 1 * ucast (n1 div d0) :: u64"
  have b: "unat (push_bit 32 1 :: u64) = 2 ^ 32" "2 ^ LENGTH(64) = (2 :: nat) ^ 64"
    by simp_all
  have h: "unat ?h = 2 ^ 32 * unat (n1 div d0)"
    using unat_mult_lem [of "push_bit 32 1 :: u64" "ucast (n1 div d0)"] unat_less_size [of "n1 div d0"]
    unfolding b unat_ucast_64 by simp
  have "unat (ucast q + ?h) = unat (n div d)"
    using unat_plus_no_wrap [of "ucast q" ?h] unat_less_size [of "n div d"] sum
    unfolding h unat_ucast_64 by simp
  then have "ucast q + push_bit 32 1 * ucast (n1 div d0) = n div d"
    by (simp add: word_unat_eq_iff)
  then show ?thesis
    using q(1) d(1) by (simp add: udiv64_def n1_def n0_def d0_def Let_def)
qed

lemma udiv64_large:
  assumes d: "drop_bit 32 d \<noteq> 0"
  shows "udiv64 n d = Inr (n div d)"
proof (cases "n < d")
  case True
  then show ?thesis
    using d by (simp add: udiv64_def div_word_less)
next
  case False
  define d1 where "d1 = (ucast (drop_bit 32 d) :: u32)"
  define s where "s = nlz d1"
  define v where "v = (ucast (drop_bit 32 (push_bit s d)) :: u32)"
  define Q where "Q = unat n div unat d"
  have dlt: "unat d div 2 ^ 32 < 2 ^ 32"
    using unat_less_size [of d] by (simp add: less_mult_imp_div_less)
  then have d1: "unat d1 = unat d div 2 ^ 32"
    unfolding d1_def unat_ucast_32 unat_drop_bit by simp
  have "unat d div 2 ^ 32 \<noteq> 0"
    using d unfolding unat_drop_bit [symmetric] by (simp add: word_unat_eq_iff)
  then have "d1 \<noteq> 0"
    using d1 by (auto simp: word_unat_eq_iff)
  note s = nlz_correct [OF this, folded s_def]
  have split: "unat d = unat d1 * 2 ^ 32 + unat d mod 2 ^ 32"
    unfolding d1 by (rule div_mult_mod_eq [symmetric])
  define k where "k = 32 - s"
  have k: "(2 :: nat) ^ 32 = 2 ^ k * 2 ^ s" "1 \<le> k" "31 - s = k - 1"
    using s(1) by (simp_all add: k_def power_add [symmetric])
  have "unat d1 < 2 ^ k"
    using s(3) unfolding k(1) by simp
  then have "(unat d1 + 1) * 2 ^ s \<le> 2 ^ k * 2 ^ s"
    by (intro mult_le_mono1) simp
  then have "(unat d1 + 1) * 2 ^ s * 2 ^ 32 \<le> 2 ^ 32 * 2 ^ 32"
    unfolding k(1) [symmetric] by (rule mult_le_mono1)
  moreover have "unat d * 2 ^ s < (unat d1 + 1) * 2 ^ 32 * 2 ^ s"
    using split by (intro mult_less_mono1) simp_all
  moreover have "(unat d1 + 1) * 2 ^ 32 * 2 ^ s = (unat d1 + 1) * 2 ^ s * 2 ^ 32"
    by (simp only: mult_ac)
  ultimately have "unat d * 2 ^ s < 2 ^ 32 * 2 ^ 32"
    by (simp only: less_le_trans)
  then have lim: "unat d * 2 ^ s < 2 ^ 64"
    by simp
  then have "unat (drop_bit 32 (push_bit s d)) = unat d * 2 ^ s div (2 ^ k * 2 ^ s)"
    unfolding unat_drop_bit k(1) by (subst unat_push_bit_no_wrap) simp_all
  also have "\<dots> = unat d div 2 ^ k"
    by (rule div_mult_mult2) simp
  finally have v: "unat v = unat d div 2 ^ k"
    unfolding v_def unat_ucast_32
    using unat_drop_bit [of 32 "push_bit s d"] unat_less_size [of "push_bit s d"]
    by (simp add: less_mult_imp_div_less)
  have "unat d1 * 2 ^ 32 div 2 ^ k \<le> unat d div 2 ^ k"
    using split by (intro div_le_mono) simp
  then have big: "2 ^ 31 \<le> unat d div 2 ^ k"
    using s(2) unfolding k(1) by (simp add: mult_ac)
  then have vnz: "v \<noteq> 0"
    using v by auto
  have "unat n div 2 < 2 ^ 32 * 2 ^ 31"
    using unat_less_size [of n] by simp
  also have "(2 :: nat) ^ 32 * 2 ^ 31 \<le> 2 ^ 32 * unat v"
    using big v by (intro mult_le_mono2) simp
  finally have "unat (drop_bit 1 n) div unat v < 2 ^ 32"
    unfolding unat_drop_bit by (simp add: less_mult_imp_div_less)
  then obtain r where r: "divl (drop_bit 1 n) v = Inr r" "unat r = unat n div 2 div unat v"
    using divl_ok [OF vnz, of "drop_bit 1 n"] unfolding unat_drop_bit by auto
  define q where "q = (ucast (drop_bit (31 - s) r) :: u64)"
  have "unat q = unat n div 2 div unat v div 2 ^ (k - 1)"
    unfolding q_def unat_ucast_64 unat_drop_bit r(2) k(3) ..
  also have "\<dots> = unat n div (2 * unat v * 2 ^ (k - 1))"
    by (simp only: div_mult2_eq)
  also have "2 * unat v * 2 ^ (k - 1) = unat v * 2 ^ k"
    using k(2) by (cases k) simp_all
  finally have q: "unat q = unat n div (unat d div 2 ^ k * 2 ^ k)"
    unfolding v .
  have n64: "unat n < 2 ^ 64"
    using unat_less_size [of n] by simp
  have Qq: "Q \<le> unat q" "unat q \<le> Q + 1"
    unfolding q Q_def using normalised_estimate [OF n64 big k(2)] by simp_all
  have dpos: "0 < unat d"
    using d by (auto simp: unat_gt_0)
  have "1 \<le> Q"
    unfolding Q_def using False dpos by (simp add: word_less_nat_alt div_greater_zero_iff Suc_le_eq)
  then have q1: "unat (q - 1) = unat q - 1"
    using Qq(1) by (intro unat_minus_one [unfolded One_nat_def [symmetric]]) (auto simp: word_unat_eq_iff)
  have P: "unat (q - 1) * unat d \<le> unat n"
  proof -
    have "unat (q - 1) * unat d \<le> Q * unat d"
      using q1 Qq(2) by (intro mult_le_mono1) simp
    then show ?thesis
      unfolding Q_def using div_times_less_eq_dividend order_trans by blast
  qed
  then have "unat ((q - 1) * d) = unat (q - 1) * unat d"
    using unat_mult_lem [of "q - 1" d] unat_less_size [of n] by simp
  then have sub: "unat (n - (q - 1) * d) = unat n - unat (q - 1) * unat d"
    using P by (simp add: unat_sub word_le_nat_alt)
  have "(if n - (q - 1) * d < d then q - 1 else q) = n div d"
  proof (cases "unat q = Q")
    case True
    moreover have "Q * unat d \<le> unat n"
      unfolding Q_def by (rule div_times_less_eq_dividend)
    ultimately have "unat n \<ge> unat (q - 1) * unat d + unat d"
      using q1 \<open>1 \<le> Q\<close> by (cases Q) simp_all
    then have "\<not> n - (q - 1) * d < d"
      using sub by (simp add: word_less_nat_alt)
    then show ?thesis
      using True by (simp add: word_unat_eq_iff unat_div Q_def)
  next
    case False
    then have "unat (q - 1) = Q"
      using q1 Qq by simp
    moreover have "unat n - Q * unat d < unat d"
      unfolding Q_def using dpos by (simp add: minus_div_mult_eq_mod)
    ultimately show ?thesis
      using sub by (simp add: word_less_nat_alt) (simp add: word_unat_eq_iff unat_div Q_def)
  qed
  then show ?thesis
    using d False r(1) by (simp add: udiv64_def Let_def d1_def [symmetric] s_def [symmetric] v_def [symmetric] q_def [symmetric]
        split: if_splits)
qed

lemma udiv64_correct: "udiv64 n d = (if d = 0 then Inl Divide_error else Inr (n div d))"
  using udiv64_small [of d n] udiv64_large [of d n] by (auto simp: udiv64_def divl_def Let_def)

section \<open>Signed operands\<close>

lemma sint_eq_0: "sint w = 0 \<longleftrightarrow> w = 0" for w :: u64
proof
  assume "sint w = 0"
  then have "of_int (sint w) = (0 :: u64)"
    by simp
  then show "w = 0"
    by simp
qed simp

lemma abs_word: "(if 0 \<le>s n then n else - n) = (of_int \<bar>sint n\<bar> :: u64)" "uint (of_int \<bar>sint n\<bar> :: u64) = \<bar>sint n\<bar>"
proof -
  show "(if 0 \<le>s n then n else - n) = (of_int \<bar>sint n\<bar> :: u64)"
    by (simp add: word_sle_eq abs_if)
  have "- (2 ^ 63) \<le> sint n" "sint n < 2 ^ 63"
    using sint_greater_eq [of n] sint_less [of n] by simp_all
  then show "uint (of_int \<bar>sint n\<bar> :: u64) = \<bar>sint n\<bar>"
    by (simp add: unsigned_of_int take_bit_int_eq_self)
qed

lemma sdiv64_correct: "sdiv64 n d = (if d = 0 then Inl Divide_error else Inr (of_int (sint n sdiv sint d)))"
proof -
  let ?n = "of_int \<bar>sint n\<bar> :: u64" and ?d = "of_int \<bar>sint d\<bar> :: u64"
  have d: "?d = 0 \<longleftrightarrow> d = 0"
    using uint_0_iff [of ?d] abs_word(2) [of d] sint_eq_0 [of d] by simp
  have "?n div ?d = of_int (\<bar>sint n\<bar> div \<bar>sint d\<bar>)"
    using abs_word(2) [of n] abs_word(2) [of d] by (metis uint_div word_of_int_uint)
  then have "(if (n <s 0) = (d <s 0) then ?n div ?d else - (?n div ?d)) = of_int (sint n sdiv sint d)"
    by (auto simp: word_sless_alt signed_divide_int_def sgn_if)
  then show ?thesis
    using d unfolding sdiv64_def Let_def abs_word(1) udiv64_correct by simp
qed

lemma ucast_of_int: "ucast (of_int k :: u64) = (of_int k :: u32)"
  by (rule bit_word_eqI) (simp add: bit_simps)

lemma smod64_correct: "smod64 n d = (if d = 0 then Inl Divide_error else Inr (of_int (sint n smod sint d)))"
proof -
  have "n - d * of_int (sint n sdiv sint d) = of_int (sint n - sint d * (sint n sdiv sint d))"
    by simp
  also have "sint n - sint d * (sint n sdiv sint d) = sint n smod sint d"
    by (rule minus_mult_sdiv_eq_smod)
  finally show ?thesis
    by (simp add: smod64_def sdiv64_correct ucast_of_int)
qed

lemma smod_range: "- (2 ^ 63) < sint n smod sint d \<and> sint n smod sint d < 2 ^ 63" if "d \<noteq> 0" for n d :: u64
proof -
  have "\<bar>sint n smod sint d\<bar> \<le> \<bar>sint n\<bar> mod \<bar>sint d\<bar>"
    using that sint_eq_0 [of d] by (simp add: smod_int_alt_def abs_mult sgn_if)
  also have "\<dots> < \<bar>sint d\<bar>"
    using that sint_eq_0 [of d] by simp
  also have "\<dots> \<le> 2 ^ 63"
    using sint_greater_eq [of d] sint_less [of d] by simp
  finally show ?thesis
    by linarith
qed

lemma signed_of_int_eq: "- (2 ^ 63) \<le> r \<Longrightarrow> r < 2 ^ 63 \<Longrightarrow> sint (of_int r :: u64) = r"
  by (simp add: signed_of_int signed_take_bit_int_eq_self)

lemma of_int_small:
  assumes "(of_int (signed_take_bit 31 r) :: u64) = of_int r" and "- (2 ^ 63) < r \<and> r < 2 ^ 63"
  shows "signed_take_bit 31 r = r"
proof -
  have "- (2 ^ 31) \<le> signed_take_bit 31 r" "signed_take_bit 31 r < 2 ^ 31"
    by (rule signed_take_bit_int_greater_eq_minus_exp signed_take_bit_int_less_exp)+
  then have "sint (of_int (signed_take_bit 31 r) :: u64) = signed_take_bit 31 r"
    by (intro signed_of_int_eq) simp_all
  moreover have "sint (of_int r :: u64) = r"
    using assms(2) by (intro signed_of_int_eq) simp_all
  ultimately show ?thesis
    using assms(1) by simp
qed

section \<open>Properties\<close>

text \<open>C29: For every 64-bit dividend and every divisor other than 0, \<^verbatim>\<open>__udivdi3\<close> returns the exact unsigned
  quotient and \<^verbatim>\<open>__divdi3\<close> the quotient of the signed operands rounded towards zero; the \<^verbatim>\<open>divl\<close>
  instructions they execute never trap. With divisor 0 both end in a divide error.\<close>

theorem division_correct:
  "udivdi3 n d = (if d = 0 then Inl Divide_error else Inr (n div d))
     \<and> divdi3 n d = (if d = 0 then Inl Divide_error else Inr (of_int (sint n sdiv sint d)))"
  by (simp add: udivdi3_def divdi3_def udiv64_correct sdiv64_correct)

text \<open>C30: The remainder routines return only the low 32 bits of the remainder: \<^verbatim>\<open>umod64\<close> and
  \<^verbatim>\<open>smod64\<close> have 32-bit result types. \<^verbatim>\<open>__umoddi3\<close> is the unsigned remainder exactly when
  that remainder is below \<open>2 ^ 32\<close>, and \<^verbatim>\<open>__moddi3\<close> is the signed remainder exactly when it fits in 32
  bits with sign, while the comments of all four functions promise the remainder for all arguments.\<close>

theorem remainder_truncated:
  assumes "d \<noteq> 0"
  shows "(umoddi3 n d = Inr (n mod d) \<longleftrightarrow> unat n mod unat d < 2 ^ 32)
     \<and> (moddi3 n d = Inr (of_int (sint n smod sint d)) \<longleftrightarrow>
          - (2 ^ 31) \<le> sint n smod sint d \<and> sint n smod sint d < 2 ^ 31)"
proof -
  have "umoddi3 n d = Inr (ucast (ucast (n mod d) :: u32))"
    using assms by (simp add: umoddi3_def umod64_def udiv64_correct minus_mult_div_eq_mod)
  moreover have "ucast (ucast (n mod d) :: u32) = n mod d \<longleftrightarrow> unat n mod unat d < 2 ^ 32"
    unfolding word_unat_eq_iff unat_ucast_64 unat_ucast_32 unat_mod by (metis mod_less mod_less_divisor zero_less_numeral zero_less_power)
  ultimately have u: "umoddi3 n d = Inr (n mod d) \<longleftrightarrow> unat n mod unat d < 2 ^ 32"
    by simp
  define r where "r = sint n smod sint d"
  have "moddi3 n d = Inr (of_int (signed_take_bit 31 r))"
    using assms by (simp add: moddi3_def smod64_correct r_def signed_of_int)
  then have "moddi3 n d = Inr (of_int r) \<longleftrightarrow> (of_int (signed_take_bit 31 r) :: u64) = of_int r"
    by simp
  also have "\<dots> \<longleftrightarrow> signed_take_bit 31 r = r"
    using of_int_small [of r] smod_range [OF assms, of n] by (auto simp: r_def)
  also have "\<dots> \<longleftrightarrow> - (2 ^ 31) \<le> r \<and> r < 2 ^ 31"
    by (rule signed_take_bit_int_eq_self_iff)
  finally show ?thesis
    using u by (simp add: r_def)
qed

theorem remainder_truncated_witness:
  "umoddi3 (2 ^ 32) (2 ^ 33) \<noteq> Inr (2 ^ 32 mod 2 ^ 33) \<and> umoddi3 7 (2 ^ 33) = Inr 7"
  using remainder_truncated [of "2 ^ 33" "2 ^ 32"] remainder_truncated [of "2 ^ 33" 7] by simp

end
