(* ===== verification/Stdlib.thy ===== *)
theory Stdlib
  imports Prelude
begin

text \<open>
  \<^verbatim>\<open>lib/stdlib.c\<close>: \<^verbatim>\<open>atoi\<close> and binary search, and heap sort on lists, the reference for the byte-level \<^verbatim>\<open>sort\<close> of theory
  \<open>Heap_Sort\<close>. A C string is the list of its characters before the terminator. The array of a search is the list of its elements,
  each standing for the \<^verbatim>\<open>size\<close> bytes of one element, and pointers into it are indexes; an access outside the array
  is \<open>Out_of_bounds\<close>. The lemmas show that sorting sorts and searching finds.
\<close>

section \<open>Numbers in strings\<close>

definition isdigit :: "char \<Rightarrow> bool" where
  "isdigit c \<longleftrightarrow> of_char c \<ge> (48 :: nat) \<and> of_char c \<le> (57 :: nat)"

definition isspace :: "char \<Rightarrow> bool" where
  "isspace c \<longleftrightarrow> c \<in> {CHR '' '', CHR 0x0C, CHR 0x0A, CHR 0x0D, CHR 0x09, CHR 0x0B}"

text \<open>The digit loop of \<^verbatim>\<open>atoi\<close>; \<^verbatim>\<open>value\<close> is a 32-bit \<^verbatim>\<open>int\<close>.\<close>

fun atoi_digits :: "u32 \<Rightarrow> string \<Rightarrow> u32" where
  "atoi_digits val [] = val"
| "atoi_digits val (c # s) =
     (if isdigit c then atoi_digits (val * 10 - (of_nat (of_char c) - 48)) s else val)"

definition atoi :: "string \<Rightarrow> u32" where
  "atoi s =
     (let s = dropWhile isspace s;
          (negative, s) = (case s of
             [] \<Rightarrow> (False, s)
           | c # cs \<Rightarrow> if c = CHR ''+'' then (False, cs) else if c = CHR ''-'' then (True, cs) else (False, s));
          val = atoi_digits 0 s
      in if \<not> negative then - val else val)"

section \<open>Heap sort on lists\<close>

text \<open>The algorithm of \<^verbatim>\<open>sort\<close> on a list of elements with one-based indexes.\<close>

definition at :: "'e list \<Rightarrow> nat \<Rightarrow> 'e res" where
  "at array i = (if 1 \<le> i \<and> i \<le> length array then Inr (array ! (i - 1)) else Inl Out_of_bounds)"

definition swap_els :: "'e list \<Rightarrow> nat \<Rightarrow> nat \<Rightarrow> 'e list res" where
  "swap_els array a_idx b_idx =
     bnd (at array a_idx) (\<lambda>a. bnd (at array b_idx) (\<lambda>b. Inr (array[a_idx - 1 := b, b_idx - 1 := a])))"

definition compare_els :: "'e list \<Rightarrow> nat \<Rightarrow> nat \<Rightarrow> ('e \<Rightarrow> 'e \<Rightarrow> int) \<Rightarrow> int res" where
  "compare_els array a_idx b_idx compare =
     bnd (at array a_idx) (\<lambda>a. bnd (at array b_idx) (\<lambda>b. Inr (compare a b)))"

text \<open>The index of the largest element among \<open>i\<close> and its children.\<close>

definition top_child :: "'e list \<Rightarrow> nat \<Rightarrow> nat \<Rightarrow> ('e \<Rightarrow> 'e \<Rightarrow> int) \<Rightarrow> nat res" where
  "top_child array i cnt compare =
     (let left = 2 * i; right = 2 * i + 1 in
      bnd (if left \<le> cnt
           then bnd (compare_els array left i compare) (\<lambda>c. Inr (if c > 0 then left else i))
           else Inr i) (\<lambda>max.
      if right \<le> cnt
      then bnd (compare_els array right max compare) (\<lambda>c. Inr (if c > 0 then right else max))
      else Inr max))"

lemma top_child_cases: "top_child array i cnt compare = Inr k \<Longrightarrow> k = i \<or> (i < k \<and> k \<le> cnt)"
  by (auto simp: top_child_def Let_def res_simps split: if_splits)

function sift_down :: "'e list \<Rightarrow> nat \<Rightarrow> nat \<Rightarrow> ('e \<Rightarrow> 'e \<Rightarrow> int) \<Rightarrow> 'e list res" where
  "sift_down array i cnt compare =
     bnd (top_child array i cnt compare) (\<lambda>max.
       if max = i then Inr array
       else bnd (swap_els array i max) (\<lambda>array. sift_down array max cnt compare))"
  by pat_completeness auto
termination
  by (relation "measure (\<lambda>(array, i, cnt, compare). cnt - i)") (auto dest!: top_child_cases)

declare sift_down.simps [simp del]

primrec sift_all :: "'e list \<Rightarrow> nat \<Rightarrow> nat \<Rightarrow> ('e \<Rightarrow> 'e \<Rightarrow> int) \<Rightarrow> 'e list res" where
  "sift_all array 0 cnt compare = Inr array"
| "sift_all array (Suc i) cnt compare =
     bnd (sift_down array (Suc i) cnt compare) (\<lambda>array. sift_all array i cnt compare)"

fun sort_els :: "'e list \<Rightarrow> nat \<Rightarrow> ('e \<Rightarrow> 'e \<Rightarrow> int) \<Rightarrow> 'e list res" where
  "sort_els array 0 compare = Inr array"
| "sort_els array (Suc i) compare =
     (if Suc i > 1
      then bnd (swap_els array 1 (Suc i)) (\<lambda>array.
           bnd (sift_down array 1 i compare) (\<lambda>array. sort_els array i compare))
      else Inr array)"

definition heap_sort :: "'e list \<Rightarrow> nat \<Rightarrow> ('e \<Rightarrow> 'e \<Rightarrow> int) \<Rightarrow> 'e list res" where
  "heap_sort array cnt compare =
     bnd (sift_all array (cnt div 2) cnt compare) (\<lambda>array. sort_els array cnt compare)"

text \<open>\<^verbatim>\<open>compare_thunk\<close> calls the function its auxiliary argument points to.\<close>

definition compare_thunk :: "'e \<Rightarrow> 'e \<Rightarrow> ('e \<Rightarrow> 'e \<Rightarrow> int) \<Rightarrow> int" where
  "compare_thunk a b compare = compare a b"

section \<open>Searching\<close>

text \<open>Pointers into the array are indexes; the result is the index of a match.\<close>

function search_loop :: "'k \<Rightarrow> 'e list \<Rightarrow> nat \<Rightarrow> nat \<Rightarrow> ('k \<Rightarrow> 'e \<Rightarrow> int) \<Rightarrow> nat option res" where
  "search_loop key array first lst compare =
     (if first < lst then
        let range = lst - first;
            middle = first + range div 2
        in bnd (at array (middle + 1)) (\<lambda>e.
             let cmp = compare key e in
             if cmp < 0 then search_loop key array first middle compare
             else if cmp > 0 then search_loop key array (middle + 1) lst compare
             else Inr (Some middle))
      else Inr None)"
  by pat_completeness auto
termination
  by (relation "measure (\<lambda>(key, array, first, lst, compare). lst - first)") auto

declare search_loop.simps [simp del]

definition binary_search :: "'k \<Rightarrow> 'e list \<Rightarrow> nat \<Rightarrow> ('k \<Rightarrow> 'e \<Rightarrow> int) \<Rightarrow> nat option res" where
  "binary_search key array cnt compare = search_loop key array 0 cnt compare"

definition bsearch :: "'e \<Rightarrow> 'e list \<Rightarrow> nat \<Rightarrow> ('e \<Rightarrow> 'e \<Rightarrow> int) \<Rightarrow> nat option res" where
  "bsearch key array cnt compare = binary_search key array cnt (\<lambda>a b. compare_thunk a b compare)"

section \<open>Heaps\<close>

text \<open>A comparison function as the comment on \<^verbatim>\<open>sort\<close> asks for: the sign of the result is that of a total
  preorder.\<close>

definition strcmp_type :: "('e \<Rightarrow> 'e \<Rightarrow> int) \<Rightarrow> bool" where
  "strcmp_type compare \<longleftrightarrow> (\<forall>a b. compare a b > 0 \<longleftrightarrow> compare b a < 0)
     \<and> (\<forall>a b c. compare a b \<le> 0 \<longrightarrow> compare b c \<le> 0 \<longrightarrow> compare a c \<le> 0)"

lemma strcmp_typeD:
  assumes "strcmp_type compare"
  shows "compare a b > 0 \<longleftrightarrow> compare b a < 0" and "compare a b \<le> 0 \<Longrightarrow> compare b c \<le> 0 \<Longrightarrow> compare a c \<le> 0"
    and "compare a a \<le> 0"
  using assms unfolding strcmp_type_def by (blast, blast, metis linorder_not_less order_less_imp_le)

text \<open>The element at a one-based index.\<close>

abbreviation el :: "'e list \<Rightarrow> nat \<Rightarrow> 'e" where
  "el array k \<equiv> array ! (k - 1)"

definition child :: "nat \<Rightarrow> nat \<Rightarrow> bool" where
  "child p c \<longleftrightarrow> c = 2 * p \<or> c = 2 * p + 1"

text \<open>Among the first \<open>cnt\<close> elements, no child of an element from \<open>lo\<close> on is above it.\<close>

definition heap :: "('e \<Rightarrow> 'e \<Rightarrow> int) \<Rightarrow> 'e list \<Rightarrow> nat \<Rightarrow> nat \<Rightarrow> bool" where
  "heap compare array lo cnt \<longleftrightarrow>
     (\<forall>p c. lo \<le> p \<and> child p c \<and> c \<le> cnt \<longrightarrow> compare (el array c) (el array p) \<le> 0)"

text \<open>The same except at \<open>i\<close>, whose children are not above its parent either.\<close>

definition heap_but :: "('e \<Rightarrow> 'e \<Rightarrow> int) \<Rightarrow> 'e list \<Rightarrow> nat \<Rightarrow> nat \<Rightarrow> nat \<Rightarrow> bool" where
  "heap_but compare array lo cnt i \<longleftrightarrow>
     (\<forall>p c. lo \<le> p \<and> p \<noteq> i \<and> child p c \<and> c \<le> cnt \<longrightarrow> compare (el array c) (el array p) \<le> 0)
     \<and> (\<forall>p c. lo \<le> p \<and> child p i \<and> child i c \<and> c \<le> cnt \<longrightarrow> compare (el array c) (el array p) \<le> 0)"

lemma at_in: "1 \<le> i \<Longrightarrow> i \<le> length array \<Longrightarrow> at array i = Inr (el array i)"
  by (simp add: at_def)

lemma top_child_ok:
  assumes cmp: "strcmp_type compare" and i: "1 \<le> i" "i \<le> cnt" and cnt: "cnt \<le> length array"
  obtains k where "top_child array i cnt compare = Inr k" and "k = i \<or> child i k \<and> k \<le> cnt"
    and "compare (el array i) (el array k) \<le> 0"
    and "\<And>c. child i c \<Longrightarrow> c \<le> cnt \<Longrightarrow> compare (el array c) (el array k) \<le> 0"
proof -
  note c = strcmp_typeD [OF cmp]
  define l where "l = (if 2 * i \<le> cnt \<and> compare (el array (2 * i)) (el array i) > 0 then 2 * i else i)"
  define k where "k = (if 2 * i + 1 \<le> cnt \<and> compare (el array (2 * i + 1)) (el array l) > 0 then 2 * i + 1 else l)"
  have l: "1 \<le> l" "l \<le> cnt" "compare (el array i) (el array l) \<le> 0"
    "2 * i \<le> cnt \<Longrightarrow> compare (el array (2 * i)) (el array l) \<le> 0"
    using i c(1) [of "el array (2 * i)" "el array i"] c(3) by (auto simp: l_def)
  have lk: "compare (el array l) (el array k) \<le> 0" "2 * i + 1 \<le> cnt \<Longrightarrow> compare (el array (2 * i + 1)) (el array k) \<le> 0"
    using c(1) [of "el array (2 * i + 1)" "el array l"] c(3) by (auto simp: k_def)
  have "top_child array i cnt compare = Inr k"
    using i cnt by (auto simp: top_child_def compare_els_def at_in Let_def l_def k_def)
  moreover have "k = i \<or> child i k \<and> k \<le> cnt"
    by (auto simp: k_def l_def child_def)
  moreover have "compare (el array i) (el array k) \<le> 0"
    using c(2) l(3) lk(1) by blast
  moreover have "compare (el array x) (el array k) \<le> 0" if "child i x" "x \<le> cnt" for x
    using that l(4) lk c(2) unfolding child_def by blast
  ultimately show thesis
    by (rule that)
qed

lemma swap_els_ok:
  assumes "1 \<le> a" "a \<le> length array" "1 \<le> b" "b \<le> length array"
  shows "swap_els array a b = Inr (array[a - 1 := el array b, b - 1 := el array a])"
  using assms by (simp add: swap_els_def at_in)

lemma swap_facts:
  assumes "1 \<le> a" "a < b" "b \<le> length array"
  defines "array' \<equiv> array[a - 1 := el array b, b - 1 := el array a]"
  shows "el array' a = el array b" and "el array' b = el array a"
    and "\<And>k. 1 \<le> k \<Longrightarrow> k \<noteq> a \<Longrightarrow> k \<noteq> b \<Longrightarrow> el array' k = el array k"
    and "mset array' = mset array" and "length array' = length array"
    and "\<And>n. b \<le> n \<Longrightarrow> drop n array' = drop n array"
proof -
  have ab: "a - 1 < length array" "b - 1 < length array" "a - 1 \<noteq> b - 1"
    using assms(1-3) by auto
  show "el array' a = el array b" "el array' b = el array a" "length array' = length array"
    using ab by (simp_all add: array'_def nth_list_update)
  show "el array' k = el array k" if "1 \<le> k" "k \<noteq> a" "k \<noteq> b" for k
    using that assms(1,2) by (simp add: array'_def nth_list_update_neq)
  show "mset array' = mset array"
    unfolding array'_def by (rule mset_swap [OF ab(2,1)])
  show "drop n array' = drop n array" if "b \<le> n" for n
    using that assms(1,2) by (simp add: array'_def)
qed

lemma child_bounds: "child p c \<Longrightarrow> 1 \<le> p \<Longrightarrow> p < c"
  by (auto simp: child_def)

lemma child_inj: "child p c \<Longrightarrow> child q c \<Longrightarrow> p = q"
  by (auto simp: child_def)

lemma sift_down_ok:
  assumes cmp: "strcmp_type compare" and "1 \<le> lo" "lo \<le> i" "i \<le> cnt" "cnt \<le> length array"
    and "heap_but compare array lo cnt i"
  shows "\<exists>array'. sift_down array i cnt compare = Inr array' \<and> heap compare array' lo cnt
     \<and> mset array' = mset array \<and> drop cnt array' = drop cnt array"
  using assms(2-)
proof (induction "cnt - i" arbitrary: array i rule: less_induct)
  case less
  note c = strcmp_typeD [OF cmp]
  have i: "1 \<le> i"
    using less.prems(1,2) by simp
  obtain k where k: "top_child array i cnt compare = Inr k" "k = i \<or> child i k \<and> k \<le> cnt"
    "compare (el array i) (el array k) \<le> 0"
    "\<And>c. child i c \<Longrightarrow> c \<le> cnt \<Longrightarrow> compare (el array c) (el array k) \<le> 0"
    using top_child_ok [OF cmp i less.prems(3,4)] by blast
  show ?case
  proof (cases "k = i")
    case True
    then have "heap compare array lo cnt"
      using k(4) less.prems(5) unfolding heap_def heap_but_def by blast
    then show ?thesis
      using k(1) True by (subst sift_down.simps) simp
  next
    case False
    then have ik: "child i k" "k \<le> cnt" "i < k"
      using k(2) child_bounds i by auto
    define array1 where "array1 = array[i - 1 := el array k, k - 1 := el array i]"
    have kl: "k \<le> length array"
      using ik(2) less.prems(4) by simp
    note sw = swap_facts [OF i ik(3) kl, folded array1_def]
    have "heap_but compare array1 lo cnt k"
      unfolding heap_but_def
    proof (intro conjI allI impI)
      fix p c assume a: "lo \<le> p \<and> p \<noteq> k \<and> child p c \<and> c \<le> cnt"
      then have pc: "1 \<le> p" "1 \<le> c" "p < c"
        using less.prems(1) child_bounds by (auto simp: child_def)
      consider "p = i" "c = k" | "p = i" "c \<noteq> k" | "p \<noteq> i" "c = i" | "p \<noteq> i" "c \<noteq> i" "c \<noteq> k"
        using a ik(1) child_inj by blast
      then show "compare (el array1 c) (el array1 p) \<le> 0"
      proof cases
        case 1
        then show ?thesis
          using sw(1,2) k(3) by simp
      next
        case 2
        then show ?thesis
          using sw(1) sw(3) [of c] pc k(4) [of c] a by simp
      next
        case 3
        then have "compare (el array k) (el array p) \<le> 0"
          using less.prems(5) a ik unfolding heap_but_def by blast
        then show ?thesis
          using 3 a sw(1) sw(3) [of p] pc by simp
      next
        case 4
        then have "compare (el array c) (el array p) \<le> 0"
          using less.prems(5) a unfolding heap_but_def by blast
        then show ?thesis
          using 4 a sw(3) [of p] sw(3) [of c] pc by simp
      qed
    next
      fix p c assume a: "lo \<le> p \<and> child p k \<and> child k c \<and> c \<le> cnt"
      then have "p = i"
        using ik(1) child_inj by blast
      moreover have "k < c"
        using a child_bounds ik(3) i by auto
      moreover have "compare (el array c) (el array k) \<le> 0"
        using less.prems(2,5) a ik unfolding heap_but_def by (metis less_imp_le order.strict_implies_not_eq order.trans)
      ultimately show "compare (el array1 c) (el array1 p) \<le> 0"
        using sw(1) sw(3) [of c] ik(3) i by simp
    qed
    moreover have "lo \<le> k" "cnt - k < cnt - i"
      using less.prems(2) ik(2,3) by simp_all
    ultimately obtain array' where "sift_down array1 k cnt compare = Inr array'" "heap compare array' lo cnt"
      "mset array' = mset array1" "drop cnt array' = drop cnt array1"
      using less.hyps [of k array1] less.prems(1,4) ik(2) sw(5) by auto
    moreover have "swap_els array i k = Inr array1"
      unfolding array1_def using i ik(3) kl by (intro swap_els_ok) simp_all
    ultimately show ?thesis
      using k(1) False sw(4) sw(6) [OF ik(2)] by (subst sift_down.simps) simp
  qed
qed

lemma heap_start: "heap_but compare array i cnt i \<longleftrightarrow> heap compare array (Suc i) cnt" if "1 \<le> i"
proof -
  have p: "i \<le> p \<and> p \<noteq> i \<longleftrightarrow> Suc i \<le> p" and no: "\<not> (i \<le> p \<and> child p i)" for p
    using that child_bounds [of p i] by auto
  show ?thesis
    unfolding heap_but_def heap_def using no by (simp flip: p) blast
qed

lemma sift_all_ok:
  assumes cmp: "strcmp_type compare" and "i \<le> cnt" "cnt \<le> length array" "heap compare array (Suc i) cnt"
  shows "\<exists>array'. sift_all array i cnt compare = Inr array' \<and> heap compare array' 1 cnt
     \<and> mset array' = mset array \<and> drop cnt array' = drop cnt array"
  using assms(2-)
proof (induction i arbitrary: array)
  case 0
  then show ?case
    by (auto simp: heap_def)
next
  case (Suc i)
  obtain array1 where 1: "sift_down array (Suc i) cnt compare = Inr array1" "heap compare array1 (Suc i) cnt"
    "mset array1 = mset array" "drop cnt array1 = drop cnt array"
    using sift_down_ok [OF cmp, of "Suc i" "Suc i" cnt array] Suc.prems heap_start [of "Suc i"] by auto
  moreover have "length array1 = length array"
    using 1(3) by (rule mset_eq_length)
  ultimately show ?case
    using Suc.IH [of array1] Suc.prems by simp
qed

text \<open>The root of a heap is at the top.\<close>

lemma heap_root:
  assumes cmp: "strcmp_type compare" and h: "heap compare array 1 cnt" and "1 \<le> k" "k \<le> cnt"
  shows "compare (el array k) (el array 1) \<le> 0"
  using assms(3,4)
proof (induction k rule: less_induct)
  case (less k)
  note c = strcmp_typeD [OF cmp]
  show ?case
  proof (cases "k = 1")
    case True
    then show ?thesis
      using c(3) by simp
  next
    case False
    then have p: "1 \<le> k div 2" "k div 2 < k" "child (k div 2) k"
      using less.prems(1) by (auto simp: child_def)
    then have "compare (el array k) (el array (k div 2)) \<le> 0"
      using h less.prems(2) unfolding heap_def by blast
    then show ?thesis
      using less.IH [OF p(2,1)] less.prems(2) c(2) by auto
  qed
qed

lemma sort_els_ok:
  assumes cmp: "strcmp_type compare" and "i \<le> length array" "heap compare array 1 i"
    and "sorted_wrt (\<lambda>a b. compare a b \<le> 0) (drop i array)"
    and "\<forall>x \<in> set (take i array). \<forall>y \<in> set (drop i array). compare x y \<le> 0"
  shows "\<exists>array'. sort_els array i compare = Inr array' \<and> mset array' = mset array
     \<and> sorted_wrt (\<lambda>a b. compare a b \<le> 0) array'"
  using assms(2-)
proof (induction i arbitrary: array)
  case 0
  then show ?case
    by simp
next
  case (Suc i)
  note c = strcmp_typeD [OF cmp]
  show ?case
  proof (cases "i = 0")
    case True
    then show ?thesis
      using Suc.prems by (cases array) auto
  next
    case False
    define array1 where "array1 = array[1 - 1 := el array (Suc i), Suc i - 1 := el array 1]"
    have lt: "1 \<le> (1 :: nat)" "1 < Suc i"
      using False by simp_all
    note sw = swap_facts [OF lt Suc.prems(1), folded array1_def]
    have swap: "swap_els array 1 (Suc i) = Inr array1"
      unfolding array1_def using Suc.prems(1) by (intro swap_els_ok) simp_all
    have "heap compare array1 2 i"
      unfolding heap_def
    proof (intro allI impI)
      fix p c assume a: "2 \<le> p \<and> child p c \<and> c \<le> i"
      then have "p < c"
        using child_bounds by auto
      then show "compare (el array1 c) (el array1 p) \<le> 0"
        using a Suc.prems(2) sw(3) [of p] sw(3) [of c] unfolding heap_def by simp
    qed
    then obtain array2 where 2: "sift_down array1 1 i compare = Inr array2" "heap compare array2 1 i"
      "mset array2 = mset array1" "drop i array2 = drop i array1"
      using sift_down_ok [OF cmp, of 1 1 i array1] heap_start [of 1 compare array1 i] False Suc.prems(1) sw(5)
      by (auto simp: numeral_2_eq_2)
    have len: "length array2 = length array"
      using mset_eq_length [OF 2(3)] sw(5) by simp
    have d1: "drop i array1 = el array 1 # drop (Suc i) array"
      using sw(2) sw(6) [of "Suc i"] sw(5) Suc.prems(1) Cons_nth_drop_Suc [of i array1] by simp
    have "mset (take i array2) + mset (drop i array2) = mset (take i array1) + mset (drop i array1)"
      using 2(3) by (metis append_take_drop_id mset_append)
    then have t2: "set (take i array2) = set (take i array1)"
      using 2(4) by (metis add_right_cancel set_mset_mset)
    have "set (take i array1) \<subseteq> set (take (Suc i) array)"
    proof
      fix x assume "x \<in> set (take i array1)"
      then obtain k where k: "k < i" "x = array1 ! k"
        using sw(5) Suc.prems(1) by (auto simp: in_set_conv_nth)
      show "x \<in> set (take (Suc i) array)"
      proof (cases "k = 0")
        case True
        then have "x = array ! i"
          using k(2) sw(1) by simp
        then show ?thesis
          using Suc.prems(1) by (auto simp: in_set_conv_nth intro!: exI [of _ i])
      next
        case False
        then have "x = array ! k"
          using k sw(3) [of "Suc k"] by simp
        then show ?thesis
          using k Suc.prems(1) by (auto simp: in_set_conv_nth intro!: exI [of _ k])
      qed
    qed
    then have sub: "set (take i array2) \<subseteq> set (take (Suc i) array)"
      using t2 by simp
    have root: "compare x (el array 1) \<le> 0" if x: "x \<in> set (take (Suc i) array)" for x
    proof -
      obtain k where "k < Suc i" "x = array ! k"
        using x Suc.prems(1) by (auto simp: in_set_conv_nth)
      then show ?thesis
        using heap_root [OF cmp Suc.prems(2), of "Suc k"] by simp
    qed
    have top: "el array 1 \<in> set (take (Suc i) array)"
      using Suc.prems(1) by (cases array) simp_all
    have "\<forall>x \<in> set (take i array2). \<forall>y \<in> set (drop i array2). compare x y \<le> 0"
      unfolding 2(4) d1 using sub root Suc.prems(4) by auto
    moreover have "sorted_wrt (\<lambda>a b. compare a b \<le> 0) (drop i array2)"
      unfolding 2(4) d1 using Suc.prems(3,4) top by auto
    ultimately obtain array' where "sort_els array2 i compare = Inr array'" "mset array' = mset array2"
      "sorted_wrt (\<lambda>a b. compare a b \<le> 0) array'"
      using Suc.IH [of array2] 2(2) Suc.prems(1) len by auto
    then show ?thesis
      using swap 2(1,3) sw(4) False by simp
  qed
qed

lemma heap_sort_ok:
  assumes cmp: "strcmp_type compare"
  shows "\<exists>array'. heap_sort array (length array) compare = Inr array'
     \<and> mset array' = mset array \<and> sorted_wrt (\<lambda>a b. compare a b \<le> 0) array'"
proof -
  let ?n = "length array"
  have "heap compare array (Suc (?n div 2)) ?n"
    by (auto simp: heap_def child_def)
  then obtain array1 where 1: "sift_all array (?n div 2) ?n compare = Inr array1" "heap compare array1 1 ?n"
    "mset array1 = mset array"
    using sift_all_ok [OF cmp, of "?n div 2" ?n array] by auto
  moreover have "length array1 = ?n"
    using 1(3) by (rule mset_eq_length)
  ultimately show ?thesis
    using sort_els_ok [OF cmp, of ?n array1] by (auto simp: heap_sort_def)
qed

section \<open>Search\<close>

lemma search_loop_ok:
  assumes cmp: "strcmp_type compare" and sorted: "sorted_wrt (\<lambda>a b. compare a b \<le> 0) array"
    and "lst \<le> length array" "\<forall>k < first. compare key (array ! k) > 0"
    and "\<forall>k < length array. lst \<le> k \<longrightarrow> compare key (array ! k) < 0" "first \<le> length array"
  shows "\<exists>r. search_loop key array first lst compare = Inr r \<and>
     (case r of Some k \<Rightarrow> k < length array \<and> compare key (array ! k) = 0
      | None \<Rightarrow> \<forall>e \<in> set array. compare key e \<noteq> 0)"
  using assms(3-)
proof (induction "lst - first" arbitrary: first lst rule: less_induct)
  case less
  note c = strcmp_typeD [OF cmp]
  show ?case
  proof (cases "first < lst")
    case False
    then have "compare key (array ! k) \<noteq> 0" if "k < length array" for k
      using less.prems(2,3) that by (cases "k < first") force+
    then show ?thesis
      using False by (subst search_loop.simps) (auto simp: in_set_conv_nth)
  next
    case True
    define mid where "mid = first + (lst - first) div 2"
    have m: "mid < lst" "first \<le> mid" "mid < length array"
      using True less.prems(1) by (auto simp: mid_def)
    have run: "search_loop key array first lst compare =
        (if compare key (array ! mid) < 0 then search_loop key array first mid compare
         else if compare key (array ! mid) > 0 then search_loop key array (mid + 1) lst compare
         else Inr (Some mid))"
      using True m(3) by (subst search_loop.simps) (simp add: mid_def [symmetric] at_def Let_def)
    have mono: "compare (array ! j) (array ! k) \<le> 0" if "j \<le> k" "k < length array" for j k
      using sorted that c(3) by (cases "j = k") (auto simp: sorted_wrt_iff_nth_less)
    consider "compare key (array ! mid) < 0" | "compare key (array ! mid) > 0" | "compare key (array ! mid) = 0"
      by linarith
    then show ?thesis
    proof cases
      case 1
      have "compare key (array ! k) < 0" if k: "k < length array" "mid \<le> k" for k
      proof (rule ccontr)
        assume "\<not> compare key (array ! k) < 0"
        then have "compare (array ! k) key \<le> 0"
          using c(1) [of "array ! k" key] by linarith
        then have "compare (array ! mid) key \<le> 0"
          using c(2) mono [OF k(2,1)] by blast
        then show False
          using 1 c(1) [of "array ! mid" key] by linarith
      qed
      then show ?thesis
        using 1 run less.hyps [of mid first] less.prems m by simp
    next
      case 2
      have "compare key (array ! k) > 0" if k: "k < mid + 1" for k
      proof (rule ccontr)
        assume "\<not> compare key (array ! k) > 0"
        moreover have "compare (array ! k) (array ! mid) \<le> 0"
          using mono k m(3) by simp
        ultimately have "compare key (array ! mid) \<le> 0"
          using c(2) [of key "array ! k" "array ! mid"] by linarith
        then show False
          using 2 by simp
      qed
      moreover have "search_loop key array first lst compare = search_loop key array (mid + 1) lst compare"
        using run 2 by simp
      ultimately show ?thesis
        using less.hyps [of lst "mid + 1"] less.prems m by simp
    next
      case 3
      then show ?thesis
        using run m by simp
    qed
  qed
qed

section \<open>Properties\<close>

text \<open>C34: \<^verbatim>\<open>bsearch\<close> in an array that is in ascending order ends, reads only elements of the array, and returns an element equal to
  the key if there is one and a null pointer otherwise.\<close>

theorem bsearch_correct:
  assumes cmp: "strcmp_type compare" and sorted: "sorted_wrt (\<lambda>a b. compare a b \<le> 0) array"
  shows "\<exists>r. bsearch key array (length array) compare = Inr r \<and>
     (case r of Some k \<Rightarrow> k < length array \<and> compare key (array ! k) = 0
      | None \<Rightarrow> \<forall>e \<in> set array. compare key e \<noteq> 0)"
  using search_loop_ok [OF assms, of "length array" 0 key]
  by (simp add: bsearch_def binary_search_def compare_thunk_def)

theorem bsearch_correct_witness:
  "\<exists>k. bsearch 7 [2, 5, 7, 9] (length [2, 5, 7, 9 :: int]) (\<lambda>a b. a - b) = Inr (Some k) \<and> [2, 5, 7, 9] ! k = (7 :: int)"
proof -
  have "strcmp_type (\<lambda>a b :: int. a - b)"
    by (auto simp: strcmp_type_def)
  from bsearch_correct [OF this, of "[2, 5, 7, 9]" 7] show ?thesis
    by (auto split: option.splits)
qed

end
