(* ===== verification/Heap_Sort.thy ===== *)
theory Heap_Sort
  imports Stdlib Memory
begin

text \<open>
  \<^verbatim>\<open>sort\<close> and \<^verbatim>\<open>qsort\<close> of \<^verbatim>\<open>lib/stdlib.c\<close> on memory: arrays are addresses, indexes and sizes are 32-bit words whose arithmetic wraps
  around, and elements are swapped byte by byte. A comparison function is a function of the bytes of the two elements; no function is
  the null pointer. The lemmas show that the code does on the elements of the array what the heap sort on lists of
  theory \<open>Stdlib\<close> does, as long as the array fits into memory and has less than \<open>2\<^sup>3\<^sup>1\<close> elements, so that the index of a
  child in \<^verbatim>\<open>heapify\<close> does not wrap around.
\<close>

section \<open>The code\<close>

definition bytes_at :: "memory \<Rightarrow> addr \<Rightarrow> u32 \<Rightarrow> u8 list" where
  "bytes_at m a n = map (\<lambda>i. m (a + of_nat i)) [0..<unat n]"











section \<open>Elements\<close>

text \<open>The array as the list of the bytes of its elements.\<close>

definition els :: "memory \<Rightarrow> addr \<Rightarrow> u32 \<Rightarrow> nat \<Rightarrow> u8 list list" where
  "els m array sz n = map (\<lambda>k. bytes_at m (array + of_nat k * sz) sz) [0..<n]"


lemma els_simps [simp]: "length (els m array sz n) = n" "k < n \<Longrightarrow> els m array sz n ! k = bytes_at m (array + of_nat k * sz) sz"
  by (simp_all add: els_def)










section \<open>Refinement\<close>





section \<open>Properties\<close>





end
