(* ===== verification/Kernel_Random.thy ===== *)
theory Kernel_Random
  imports Prelude
begin

text \<open>
  The RC4-based random number generator of \<^verbatim>\<open>lib/random.c\<close>. Its static variables are the fields of
  a record; indexes into the state array are bytes and wrap around as in the code. The lemmas show that the
  array stays a permutation of all bytes and that the output is one stream however it is read.
\<close>

section \<open>State and operations\<close>

record rng =
  s_arr :: "u8 list"
  s_i :: u8
  s_j :: u8
  inited :: bool

definition swap_byte :: "u8 list \<Rightarrow> u8 \<Rightarrow> u8 \<Rightarrow> u8 list" where
  "swap_byte s a b = (let t = s ! unat a in s[unat a := s ! unat b, unat b := t])"

text \<open>The second loop of \<^verbatim>\<open>random_init\<close>; \<^verbatim>\<open>seedp\<close> points to the bytes of the seed.\<close>

fun mix_seed :: "u8 list \<Rightarrow> u8 list \<Rightarrow> u8 \<Rightarrow> nat list \<Rightarrow> u8 list" where
  "mix_seed seedp s j [] = s"
| "mix_seed seedp s j (i # is) =
     (let j = j + (s ! i + seedp ! (i mod 4)) in mix_seed seedp (swap_byte s (of_nat i) j) j is)"

definition random_init :: "u32 \<Rightarrow> rng" where
  "random_init seed =
     \<lparr>s_arr = mix_seed (le_bytes seed) (map of_nat [0..<256]) 0 [0..<256], s_i = 0, s_j = 0, inited = True\<rparr>"

text \<open>One round of the loop of \<^verbatim>\<open>random_bytes\<close>: the next byte.\<close>

definition next_byte :: "rng \<Rightarrow> rng \<times> u8" where
  "next_byte r =
     (let i = s_i r + 1;
          j = s_j r + s_arr r ! unat i;
          s = swap_byte (s_arr r) i j;
          k = s ! unat i + s ! unat j
      in (r\<lparr>s_i := i, s_j := j, s_arr := s\<rparr>, s ! unat k))"

primrec bytes_from :: "rng \<Rightarrow> nat \<Rightarrow> rng \<times> u8 list" where
  "bytes_from r 0 = (r, [])"
| "bytes_from r (Suc n) =
     (let (r, b) = next_byte r; (r, bs) = bytes_from r n in (r, b # bs))"

definition random_bytes :: "rng \<Rightarrow> u32 \<Rightarrow> rng \<times> u8 list" where
  "random_bytes r sz = bytes_from (if \<not> inited r then random_init 0 else r) (unat sz)"

definition random_ulong :: "rng \<Rightarrow> rng \<times> u32" where
  "random_ulong r = (let (r, bs) = random_bytes r 4 in (r, hd (words_of_bytes bs)))"

section \<open>Invariant\<close>

definition all_bytes :: "u8 multiset" where
  "all_bytes = mset (map of_nat [0..<256])"

definition rng_ok :: "rng \<Rightarrow> bool" where
  "rng_ok r \<longleftrightarrow> inited r \<longrightarrow> mset (s_arr r) = all_bytes"

lemma swap_byte_mset: "length s = 256 \<Longrightarrow> mset (swap_byte s a b) = mset s"
  using unat_less_size [of a] unat_less_size [of b] unfolding swap_byte_def Let_def by (intro mset_swap) simp_all

lemma all_bytes_length: "mset s = all_bytes \<Longrightarrow> length s = 256"
  unfolding all_bytes_def by (drule mset_eq_length) simp

lemma mix_seed_mset: "mset s = all_bytes \<Longrightarrow> mset (mix_seed seedp s j is) = all_bytes"
  by (induction seedp s j "is" rule: mix_seed.induct) (simp_all add: Let_def swap_byte_mset all_bytes_length)

lemma random_init_ok: "rng_ok (random_init seed)" "inited (random_init seed)"
  by (simp_all add: rng_ok_def random_init_def mix_seed_mset all_bytes_def)

lemma next_byte_ok: "rng_ok r \<Longrightarrow> inited r \<Longrightarrow> rng_ok (fst (next_byte r)) \<and> inited (fst (next_byte r))"
  by (simp add: rng_ok_def next_byte_def Let_def swap_byte_mset all_bytes_length)

lemma bytes_from_ok:
  "rng_ok r \<Longrightarrow> inited r \<Longrightarrow> rng_ok (fst (bytes_from r n)) \<and> inited (fst (bytes_from r n)) \<and> length (snd (bytes_from r n)) = n"
proof (induction n arbitrary: r)
  case (Suc n)
  obtain r' b where "next_byte r = (r', b)"
    by fastforce
  then show ?case
    using Suc.IH [of r'] next_byte_ok [OF Suc.prems] by (auto split: prod.split)
qed simp

lemma bytes_from_add:
  "bytes_from r (m + n) = (let (r1, bs) = bytes_from r m; (r2, cs) = bytes_from r1 n in (r2, bs @ cs))"
  by (induction m arbitrary: r) (simp_all add: Let_def split: prod.splits)

section \<open>Properties\<close>

text \<open>C35: Whatever the seed and the number of bytes drawn, the generator's state array remains a permutation of all
  256 byte values, an uninitialised generator first seeds itself with 0, and the output is one stream: drawing \<^verbatim>\<open>m\<close> and
  then \<^verbatim>\<open>n\<close> bytes gives the same bytes and the same state as drawing \<^verbatim>\<open>m + n\<close> at once.\<close>

theorem random_stream:
  assumes ok: "rng_ok r" and n: "unat m + unat n < 2 ^ 32"
  shows "rng_ok (random_init seed) \<and> rng_ok (fst (random_bytes r m)) \<and> length (snd (random_bytes r m)) = unat m
     \<and> (\<not> inited r \<longrightarrow> random_bytes r m = random_bytes (random_init 0) m)
     \<and> (let (r1, bs) = random_bytes r m; (r2, cs) = random_bytes r1 n in random_bytes r (m + n) = (r2, bs @ cs))"
proof -
  define q where "q = (if \<not> inited r then random_init 0 else r)"
  have q: "rng_ok q" "inited q"
    using ok random_init_ok by (simp_all add: q_def)
  have run: "random_bytes r k = bytes_from q (unat k)" for k
    by (simp add: random_bytes_def q_def)
  have i: "inited (fst (bytes_from q k))" "rng_ok (fst (bytes_from q k))" "length (snd (bytes_from q k)) = k" for k
    using bytes_from_ok [OF q] by simp_all
  obtain r1 bs where b: "bytes_from q (unat m) = (r1, bs)"
    by fastforce
  then have "random_bytes r1 n = bytes_from r1 (unat n)"
    using i(1) [of "unat m"] by (simp add: random_bytes_def)
  moreover have "unat (m + n) = unat m + unat n"
    using n unat_plus_no_wrap [of m n] by simp
  ultimately have "let (r1, bs) = random_bytes r m; (r2, cs) = random_bytes r1 n in random_bytes r (m + n) = (r2, bs @ cs)"
    using b by (simp add: run bytes_from_add split: prod.splits)
  moreover have "\<not> inited r \<longrightarrow> random_bytes r m = random_bytes (random_init 0) m"
    by (simp add: random_bytes_def random_init_ok)
  ultimately show ?thesis
    using random_init_ok i run by simp
qed

theorem random_stream_witness:
  "length (snd (random_bytes (random_init 42) 3)) = 3 \<and> rng_ok (fst (random_bytes (random_init 42) 3))"
  using random_stream [OF random_init_ok(1), of 3 5 42] by simp

end
