(* ===== verification/Stdio.thy ===== *)
theory Stdio
  imports Stdlib
begin

text \<open>
  Formatted output: \<^verbatim>\<open>lib/stdio.c\<close>. A format string is the list of its characters before the
  terminator. The \<^verbatim>\<open>output\<close> callback is called for one character after the other, so each function that takes
  it returns the characters it outputs. A \<^verbatim>\<open>va_list\<close> is the list of the 32-bit words of the arguments on the stack; a
  64-bit argument is two words, the lower first, and reading past the last word is
  \<open>Out_of_bounds\<close>. Where an argument is a pointer to a string, the parameter \<open>str\<close> gives the
  string at an address. The lemmas show that no conversion overruns its buffers and that a printed number reads back.
\<close>

section \<open>Conversions\<close>

definition MINUS :: u32 where "MINUS = 1"

definition PLUS :: u32 where "PLUS = 2"

definition SPACE :: u32 where "SPACE = 4"

definition POUND :: u32 where "POUND = 8"

definition ZERO :: u32 where "ZERO = 16"

definition GROUP :: u32 where "GROUP = 32"

datatype conversion_type = T_CHAR | T_SHORT | T_INT | T_INTMAX | T_LONG | T_LONGLONG | T_PTRDIFFT | T_SIZET

text \<open>\<^verbatim>\<open>width\<close> and \<^verbatim>\<open>precision\<close> are 32-bit signed integers.\<close>

record printf_conversion =
  conv_flags :: u32
  conv_width :: u32
  conv_precision :: u32
  conv_type :: conversion_type

abbreviation has_flag :: "u32 \<Rightarrow> u32 \<Rightarrow> bool" where
  "has_flag fl f \<equiv> fl AND f \<noteq> 0"

text \<open>The four constants of type \<^verbatim>\<open>struct integer_base\<close> and their members.\<close>

datatype integer_base = base_d | base_o | base_x | base_X

fun base_value :: "integer_base \<Rightarrow> nat" where
  "base_value base_d = 10"
| "base_value base_o = 8"
| "base_value base_x = 16"
| "base_value base_X = 16"

fun base_digits :: "integer_base \<Rightarrow> string" where
  "base_digits base_d = ''0123456789''"
| "base_digits base_o = ''01234567''"
| "base_digits base_x = ''0123456789abcdef''"
| "base_digits base_X = ''0123456789ABCDEF''"

fun base_x_char :: "integer_base \<Rightarrow> char option" where
  "base_x_char base_x = Some (CHR ''x'')"
| "base_x_char base_X = Some (CHR ''X'')"
| "base_x_char _ = None"

fun base_group :: "integer_base \<Rightarrow> nat" where
  "base_group base_x = 4"
| "base_group base_X = 4"
| "base_group _ = 3"

section \<open>Arguments\<close>

fun va_arg32 :: "u32 list \<Rightarrow> (u32 \<times> u32 list) res" where
  "va_arg32 (w # args) = Inr (w, args)"
| "va_arg32 [] = Inl Out_of_bounds"

fun va_arg64 :: "u32 list \<Rightarrow> (u64 \<times> u32 list) res" where
  "va_arg64 (lo # hi # args) = Inr (ucast lo OR push_bit 32 (ucast hi), args)"
| "va_arg64 _ = Inl Out_of_bounds"

text \<open>The two switches over the argument type in \<^verbatim>\<open>__vprintf\<close>; the value is an \<^verbatim>\<open>intmax_t\<close>.\<close>

fun signed_arg :: "conversion_type \<Rightarrow> u32 list \<Rightarrow> (u64 \<times> u32 list) res" where
  "signed_arg T_CHAR args = bnd (va_arg32 args) (\<lambda>(w, args). Inr (scast (ucast w :: u8), args))"
| "signed_arg T_SHORT args = bnd (va_arg32 args) (\<lambda>(w, args). Inr (scast (ucast w :: u16), args))"
| "signed_arg T_INT args = bnd (va_arg32 args) (\<lambda>(w, args). Inr (scast w, args))"
| "signed_arg T_INTMAX args = va_arg64 args"
| "signed_arg T_LONG args = bnd (va_arg32 args) (\<lambda>(w, args). Inr (scast w, args))"
| "signed_arg T_LONGLONG args = va_arg64 args"
| "signed_arg T_PTRDIFFT args = bnd (va_arg32 args) (\<lambda>(w, args). Inr (scast w, args))"
| "signed_arg T_SIZET args =
     bnd (va_arg32 args) (\<lambda>(w, args).
       let v = ucast w :: u64 in Inr (if 0xffffffff div 2 <s v then v - 0xffffffff - 1 else v, args))"

fun unsigned_arg :: "conversion_type \<Rightarrow> u32 list \<Rightarrow> (u64 \<times> u32 list) res" where
  "unsigned_arg T_CHAR args = bnd (va_arg32 args) (\<lambda>(w, args). Inr (ucast (ucast w :: u8), args))"
| "unsigned_arg T_SHORT args = bnd (va_arg32 args) (\<lambda>(w, args). Inr (ucast (ucast w :: u16), args))"
| "unsigned_arg T_INT args = bnd (va_arg32 args) (\<lambda>(w, args). Inr (ucast w, args))"
| "unsigned_arg T_INTMAX args = va_arg64 args"
| "unsigned_arg T_LONG args = bnd (va_arg32 args) (\<lambda>(w, args). Inr (ucast w, args))"
| "unsigned_arg T_LONGLONG args = va_arg64 args"
| "unsigned_arg T_PTRDIFFT args =
     bnd (va_arg32 args) (\<lambda>(w, args). Inr (scast w AND (push_bit 1 0x7fffffff OR 1), args))"
| "unsigned_arg T_SIZET args = bnd (va_arg32 args) (\<lambda>(w, args). Inr (ucast w, args))"

section \<open>Parsing a conversion\<close>

fun parse_flags :: "u32 \<Rightarrow> string \<Rightarrow> u32 \<times> string" where
  "parse_flags fl [] = (fl, [])"
| "parse_flags fl (ch # format) =
     (if ch = CHR ''-'' then parse_flags (fl OR MINUS) format
      else if ch = CHR ''+'' then parse_flags (fl OR PLUS) format
      else if ch = CHR '' '' then parse_flags (fl OR SPACE) format
      else if ch = CHR ''#'' then parse_flags (fl OR POUND) format
      else if ch = CHR ''0'' then parse_flags (fl OR ZERO) format
      else if ch = CHR 0x27 then parse_flags (fl OR GROUP) format
      else (fl, ch # format))"

fun parse_number :: "u32 \<Rightarrow> string \<Rightarrow> u32 \<times> string" where
  "parse_number n [] = (n, [])"
| "parse_number n (ch # format) =
     (if isdigit ch then parse_number (n * 10 + of_nat (of_char ch) - 48) format else (n, ch # format))"

text \<open>\<^verbatim>\<open>*format == ch\<close>.\<close>

abbreviation next_is :: "char \<Rightarrow> string \<Rightarrow> bool" where
  "next_is ch format \<equiv> format \<noteq> [] \<and> hd format = ch"

text \<open>A field width or precision: a \<^verbatim>\<open>*\<close> takes it from the arguments.\<close>

definition parse_count :: "string \<Rightarrow> u32 list \<Rightarrow> (u32 \<times> string \<times> u32 list) res" where
  "parse_count format args =
     (if next_is (CHR ''*'') format then bnd (va_arg32 args) (\<lambda>(w, args). Inr (w, tl format, args))
      else let (n, format) = parse_number 0 format in Inr (n, format, args))"

definition parse_precision :: "string \<Rightarrow> u32 list \<Rightarrow> (u32 \<times> string \<times> u32 list) res" where
  "parse_precision format args =
     (if next_is (CHR ''.'') format then
        bnd (parse_count (tl format) args) (\<lambda>(p, format, args). Inr (if p <s 0 then - 1 else p, format, args))
      else Inr (- 1, format, args))"

definition parse_type :: "string \<Rightarrow> conversion_type \<times> string" where
  "parse_type format =
     (if next_is (CHR ''h'') format then
        if next_is (CHR ''h'') (tl format) then (T_CHAR, tl (tl format)) else (T_SHORT, tl format)
      else if next_is (CHR ''j'') format then (T_INTMAX, tl format)
      else if next_is (CHR ''l'') format then
        if next_is (CHR ''l'') (tl format) then (T_LONGLONG, tl (tl format)) else (T_LONG, tl format)
      else if next_is (CHR ''t'') format then (T_PTRDIFFT, tl format)
      else if next_is (CHR ''z'') format then (T_SIZET, tl format)
      else (T_INT, format))"

definition parse_conversion :: "string \<Rightarrow> u32 list \<Rightarrow> (printf_conversion \<times> string \<times> u32 list) res" where
  "parse_conversion format args =
     (let (fl, format) = parse_flags 0 format;
          fl = (if has_flag fl MINUS then fl AND NOT ZERO else fl);
          fl = (if has_flag fl PLUS then fl AND NOT SPACE else fl)
      in bnd (parse_count format args) (\<lambda>(w, format, args).
           let (w, fl) = (if w <s 0 then (- w, fl OR MINUS) else (w, fl)) in
           bnd (parse_precision format args) (\<lambda>(p, format, args).
             let fl = (if 0 \<le>s p then fl AND NOT ZERO else fl);
                 (ty, format) = parse_type format
             in Inr (\<lparr>conv_flags = fl, conv_width = w, conv_precision = p, conv_type = ty\<rparr>, format, args))))"

section \<open>Formatting\<close>

definition output_dup :: "char \<Rightarrow> u32 \<Rightarrow> string" where
  "output_dup ch cnt = replicate (unat cnt) ch"

text \<open>\<^verbatim>\<open>*cp++ = ch\<close> into the 64 bytes of \<^verbatim>\<open>buf\<close>.\<close>

definition put :: "string \<Rightarrow> char \<Rightarrow> string res" where
  "put buf ch = (if length buf < 64 then Inr (buf @ [ch]) else Inl Out_of_bounds)"

lemma base_value_bounds: "8 \<le> base_value b" "base_value b \<le> 16"
  by (cases b; simp)+

lemma unat_div_base: "unat (val div of_nat (base_value b) :: u64) = unat val div base_value b"
  using base_value_bounds [of b] by (simp add: unat_div unat_of_nat)

function digit_loop :: "u32 \<Rightarrow> integer_base \<Rightarrow> u64 \<Rightarrow> nat \<Rightarrow> string \<Rightarrow> string res" where
  "digit_loop fl b val digit_cnt buf =
     (if val > 0 then
        bnd (if has_flag fl GROUP \<and> digit_cnt > 0 \<and> digit_cnt mod base_group b = 0
             then put buf (CHR '','') else Inr buf) (\<lambda>buf.
        bnd (put buf (base_digits b ! (unat val mod base_value b))) (\<lambda>buf.
        digit_loop fl b (val div of_nat (base_value b)) (digit_cnt + 1) buf))
      else Inr buf)"
  by pat_completeness auto

termination
proof (relation "measure (\<lambda>(fl, b, val, digit_cnt, buf). unat val)", goal_cases)
  case (2 fl b val digit_cnt buf)
  have "0 < unat val"
    using 2(1) by (simp add: word_less_nat_alt)
  then show ?case
    unfolding in_measure split_conv unat_div_base using base_value_bounds [of b] by simp
qed simp

declare digit_loop.simps [simp del]

function precision_loop :: "string \<Rightarrow> int \<Rightarrow> string res" where
  "precision_loop buf p =
     (if int (length buf) < p \<and> length buf < 64 - 1
      then bnd (put buf (CHR ''0'')) (\<lambda>buf. precision_loop buf p) else Inr buf)"
  by pat_completeness auto
termination
  by (relation "measure (\<lambda>(buf, p). 63 - length buf)") (auto simp: put_def split: if_splits)

declare precision_loop.simps [simp del]

definition sign_of :: "u32 \<Rightarrow> bool \<Rightarrow> bool \<Rightarrow> string" where
  "sign_of fl is_signed negative =
     (if is_signed then
        if has_flag fl PLUS then if negative then ''-'' else ''+''
        else if has_flag fl SPACE then if negative then ''-'' else '' ''
        else if negative then ''-'' else []
      else [])"

text \<open>The output of the collected characters with sign, prefix and padding.\<close>

definition pad_integer :: "printf_conversion \<Rightarrow> string \<Rightarrow> char option \<Rightarrow> string \<Rightarrow> string" where
  "pad_integer c sign x buf =
     (let pad_cnt = conv_width c - of_nat (length buf) - (if x \<noteq> None then 2 else 0) - (if sign \<noteq> [] then 1 else 0);
          pad_cnt = (if pad_cnt <s 0 then 0 else pad_cnt)
      in (if \<not> has_flag (conv_flags c) (MINUS OR ZERO) then output_dup (CHR '' '') pad_cnt else [])
         @ sign
         @ (case x of None \<Rightarrow> [] | Some ch \<Rightarrow> [CHR ''0'', ch])
         @ (if has_flag (conv_flags c) ZERO then output_dup (CHR ''0'') pad_cnt else [])
         @ rev buf
         @ (if has_flag (conv_flags c) MINUS then output_dup (CHR '' '') pad_cnt else []))"

definition format_integer ::
  "u64 \<Rightarrow> bool \<Rightarrow> bool \<Rightarrow> integer_base \<Rightarrow> printf_conversion \<Rightarrow> string res" where
  "format_integer val is_signed negative b c =
     (let sign = sign_of (conv_flags c) is_signed negative;
          x = (if has_flag (conv_flags c) POUND \<and> val \<noteq> 0 then base_x_char b else None)
      in bnd (digit_loop (conv_flags c) b val 0 []) (\<lambda>buf.
         let p = (if conv_precision c <s 0 then 1 else sint (conv_precision c)) in
         bnd (precision_loop buf p) (\<lambda>buf.
         bnd (if has_flag (conv_flags c) POUND \<and> base_value b = 8 \<and> (buf = [] \<or> last buf \<noteq> CHR ''0'')
              then put buf (CHR ''0'') else Inr buf) (\<lambda>buf.
         Inr (pad_integer c sign x buf)))))"

definition format_string :: "string \<Rightarrow> u32 \<Rightarrow> printf_conversion \<Rightarrow> string" where
  "format_string string len c =
     (if len <s conv_width c \<and> \<not> has_flag (conv_flags c) MINUS then output_dup (CHR '' '') (conv_width c - len) else [])
     @ take (unat len) string
     @ (if len <s conv_width c \<and> has_flag (conv_flags c) MINUS then output_dup (CHR '' '') (conv_width c - len) else [])"

text \<open>The length \<^verbatim>\<open>strnlen (s, c.precision)\<close>; the conversion to \<^verbatim>\<open>size_t\<close> turns -1 into the largest one.\<close>

definition string_length :: "string \<Rightarrow> u32 \<Rightarrow> u32" where
  "string_length s maxlen = of_nat (min (length s) (unat maxlen))"

text \<open>The switch over the conversion character in \<^verbatim>\<open>__vprintf\<close>. The two \<^verbatim>\<open>__printf\<close> calls for conversions
  that do not exist are replaced by what they output; lemma \<open>vprintf_no_conversion\<close> below justifies that.\<close>

definition convert ::
  "(addr \<Rightarrow> string) \<Rightarrow> char \<Rightarrow> printf_conversion \<Rightarrow> u32 list \<Rightarrow> (string \<times> u32 list) res" where
  "convert str ch c args =
     (if ch = CHR ''d'' \<or> ch = CHR ''i'' then
        bnd (signed_arg (conv_type c) args) (\<lambda>(v, args).
        bnd (format_integer (if v <s 0 then - v else v) True (v <s 0) base_d c) (\<lambda>out. Inr (out, args)))
      else if ch = CHR ''o'' \<or> ch = CHR ''u'' \<or> ch = CHR ''x'' \<or> ch = CHR ''X'' then
        bnd (unsigned_arg (conv_type c) args) (\<lambda>(v, args).
        let b = (if ch = CHR ''o'' then base_o else if ch = CHR ''u'' then base_d
                 else if ch = CHR ''x'' then base_x else base_X)
        in bnd (format_integer v False False b c) (\<lambda>out. Inr (out, args)))
      else if ch = CHR ''c'' then
        bnd (va_arg32 args) (\<lambda>(w, args). Inr (format_string [char_of (unat w)] 1 c, args))
      else if ch = CHR ''s'' then
        bnd (va_arg32 args) (\<lambda>(a, args).
          let s = (if a = 0 then ''(null)'' else str a)
          in Inr (format_string s (string_length s (conv_precision c)) c, args))
      else if ch = CHR ''p'' then
        bnd (va_arg32 args) (\<lambda>(a, args).
        bnd (format_integer (ucast a) False False base_x (c\<lparr>conv_flags := POUND\<rparr>)) (\<lambda>out. Inr (out, args)))
      else if ch \<in> set ''feEgGn'' then Inr (''<<no %'' @ [ch] @ '' in kernel>>'', args)
      else Inr (''<<no %'' @ [ch] @ '' conversion>>'', args))"

lemma parse_flags_length: "length (snd (parse_flags fl format)) \<le> length format"
  by (induction fl format rule: parse_flags.induct) auto

lemma parse_number_length: "length (snd (parse_number n format)) \<le> length format"
  by (induction n format rule: parse_number.induct) auto

lemma parse_count_length: "parse_count format args = Inr (w, format', args') \<Longrightarrow> length format' \<le> length format"
  using parse_number_length [of 0 format]
  by (auto simp: parse_count_def res_simps split: if_splits prod.splits)

lemma parse_type_length: "length (snd (parse_type format)) \<le> length format"
  by (auto simp: parse_type_def)

lemma parse_precision_length:
  "parse_precision format args = Inr (p, format', args') \<Longrightarrow> length format' \<le> length format"
  using parse_count_length [of "tl format" args]
  by (cases format) (auto simp: parse_precision_def res_simps split: if_splits dest: le_SucI)

lemma parse_conversion_length:
  assumes "parse_conversion format args = Inr (c, format', args')"
  shows "length format' \<le> length format"
proof -
  obtain fl f1 where 1: "parse_flags 0 format = (fl, f1)"
    by fastforce
  show ?thesis
  proof (cases "parse_count f1 args")
    case (Inl e)
    then show ?thesis
      using assms 1 by (simp add: parse_conversion_def)
  next
    case (Inr t2)
    then obtain w f2 a2 where 2: "parse_count f1 args = Inr (w, f2, a2)"
      by (cases t2) auto
    show ?thesis
    proof (cases "parse_precision f2 a2")
      case (Inl e)
      then show ?thesis
        using assms 1 2 by (simp add: parse_conversion_def split: prod.splits)
    next
      case (Inr t3)
      then obtain p f3 a3 where 3: "parse_precision f2 a2 = Inr (p, f3, a3)"
        by (cases t3) auto
      then have "format' = snd (parse_type f3)"
        using assms 1 2 by (simp add: parse_conversion_def Let_def split: prod.splits if_splits)
      then show ?thesis
        using parse_flags_length [of 0 format] parse_count_length [OF 2] parse_precision_length [OF 3]
          parse_type_length [of f3] 1 by simp
    qed
  qed
qed

text \<open>\<^verbatim>\<open>__vprintf\<close>. After a conversion the loop steps past its last character; when the format string ends inside a
  conversion, that step goes past the terminator.\<close>

function vprintf :: "(addr \<Rightarrow> string) \<Rightarrow> string \<Rightarrow> u32 list \<Rightarrow> string res" where
  "vprintf str [] args = Inr []"
| "vprintf str (ch # format) args =
     (if ch \<noteq> CHR ''%'' then bnd (vprintf str format args) (\<lambda>out. Inr (ch # out))
      else if next_is (CHR ''%'') format then bnd (vprintf str (tl format) args) (\<lambda>out. Inr (CHR ''%'' # out))
      else
        bnd (parse_conversion format args) (\<lambda>(c, format, args).
        bnd (convert str (if format = [] then CHR 0x00 else hd format) c args) (\<lambda>(out, args).
        if format = [] then Inl Out_of_bounds
        else bnd (vprintf str (tl format) args) (\<lambda>rest. Inr (out @ rest)))))"
  by pat_completeness auto
termination
  by (relation "measure (\<lambda>(str, format, args). length format)") (auto dest!: parse_conversion_length)

declare vprintf.simps(2) [simp del]

section \<open>Output to a buffer\<close>

record vsnprintf_aux =
  aux_buffer :: string
  aux_p :: nat
  out_length :: u32
  max_length :: u32

definition vsnprintf_helper :: "char \<Rightarrow> vsnprintf_aux \<Rightarrow> vsnprintf_aux res" where
  "vsnprintf_helper ch aux =
     (let aux' = aux\<lparr>out_length := out_length aux + 1\<rparr> in
      if out_length aux <s max_length aux then
        if aux_p aux < length (aux_buffer aux) then Inr (aux'\<lparr>aux_buffer := (aux_buffer aux)[aux_p aux := ch], aux_p := aux_p aux + 1\<rparr>)
        else Inl Out_of_bounds
      else Inr aux')"

fun output_all :: "string \<Rightarrow> vsnprintf_aux \<Rightarrow> vsnprintf_aux res" where
  "output_all [] aux = Inr aux"
| "output_all (ch # out) aux = bnd (vsnprintf_helper ch aux) (output_all out)"

definition vsnprintf ::
  "(addr \<Rightarrow> string) \<Rightarrow> string \<Rightarrow> u32 \<Rightarrow> string \<Rightarrow> u32 list \<Rightarrow> (string \<times> u32) res" where
  "vsnprintf str buf buf_size format args =
     bnd (vprintf str format args) (\<lambda>out.
     bnd (output_all out \<lparr>aux_buffer = buf, aux_p = 0, out_length = 0, max_length = (if buf_size > 0 then buf_size - 1 else 0)\<rparr>) (\<lambda>aux.
       if buf_size > 0 then
         if aux_p aux < length (aux_buffer aux) then Inr ((aux_buffer aux)[aux_p aux := CHR 0x00], out_length aux)
         else Inl Out_of_bounds
       else Inr (aux_buffer aux, out_length aux)))"

definition snprintf ::
  "(addr \<Rightarrow> string) \<Rightarrow> string \<Rightarrow> u32 \<Rightarrow> string \<Rightarrow> u32 list \<Rightarrow> (string \<times> u32) res" where
  "snprintf str buf buf_size format args = vsnprintf str buf buf_size format args"

section \<open>Output to the console\<close>

text \<open>What \<^verbatim>\<open>printf\<close> puts on the console, and the number of characters.\<close>

definition printf :: "(addr \<Rightarrow> string) \<Rightarrow> string \<Rightarrow> u32 list \<Rightarrow> (string \<times> u32) res" where
  "printf str format args = bnd (vprintf str format args) (\<lambda>out. Inr (out, of_nat (length out)))"

definition isprint :: "u8 \<Rightarrow> bool" where
  "isprint c \<longleftrightarrow> 32 \<le> c \<and> c < 127"

text \<open>The strings \<^verbatim>\<open>hex_dump\<close> and \<^verbatim>\<open>print_human_readable_size\<close> print are literals, so no string is
  looked up by address but the unit, which is passed as address 1.\<close>

definition print_lit :: "string \<Rightarrow> u32 list \<Rightarrow> string res" where
  "print_lit format args = bnd (printf (\<lambda>_. []) format args) (\<lambda>(out, _). Inr out)"

fun print_all :: "string res list \<Rightarrow> string res" where
  "print_all [] = Inr []"
| "print_all (x # xs) = bnd x (\<lambda>out. bnd (print_all xs) (\<lambda>rest. Inr (out @ rest)))"

definition dump_line :: "u32 \<Rightarrow> u8 list \<Rightarrow> u32 \<Rightarrow> nat \<Rightarrow> nat \<Rightarrow> bool \<Rightarrow> string res" where
  "dump_line ofs buf sz start stop ascii =
     print_all
       ([print_lit ''%08jx  '' [ROUND_DOWN ofs 16, 0]]
        @ map (\<lambda>i. print_lit ''   '' []) [0..<start]
        @ map (\<lambda>i. print_lit ''%02hhx%c'' [ucast (buf ! (i - start)), if i = 16 div 2 - 1 then 45 else 32]) [start..<stop]
        @ (if ascii then
             map (\<lambda>i. print_lit ''   '' []) [stop..<16]
             @ [print_lit ''|'' []]
             @ map (\<lambda>i. print_lit '' '' []) [0..<start]
             @ map (\<lambda>i. print_lit ''%c'' [if isprint (buf ! (i - start)) then ucast (buf ! (i - start)) else 46]) [start..<stop]
             @ map (\<lambda>i. print_lit '' '' []) [stop..<16]
             @ [print_lit ''|'' []]
           else [])
        @ [print_lit [CHR 0x0A] []])"

lemma mod_16: "unat (w mod 16) < 16" for w :: u32
  by (simp add: unat_mod)

text \<open>\<open>buf\<close> holds the \<^verbatim>\<open>size\<close> bytes.\<close>

function hex_dump :: "u32 \<Rightarrow> u8 list \<Rightarrow> bool \<Rightarrow> string res" where
  "hex_dump ofs buf ascii =
     (if length buf > 0 then
        let start = unat (ofs mod 16);
            stop = (if 16 - start > length buf then start + length buf else 16);
            n = stop - start
        in bnd (dump_line ofs buf (of_nat (length buf)) start stop ascii) (\<lambda>out.
           bnd (hex_dump (ofs + of_nat n) (drop n buf) ascii) (\<lambda>rest. Inr (out @ rest)))
      else Inr [])"
  by pat_completeness auto

termination
proof (relation "measure (\<lambda>(ofs, buf, ascii). length buf)", goal_cases)
  case (2 ofs buf ascii start stop n)
  then show ?case
    using mod_16 [of ofs] by (auto split: if_splits)
qed simp

declare hex_dump.simps [simp del]

fun scale_size :: "u64 \<Rightarrow> string list \<Rightarrow> u64 \<times> string" where
  "scale_size sz [] = (sz, [])"
| "scale_size sz [f] = (sz, f)"
| "scale_size sz (f # g # fs) = (if sz \<ge> 1024 then scale_size (sz div 1024) (g # fs) else (sz, f))"

definition print_human_readable_size :: "u64 \<Rightarrow> string res" where
  "print_human_readable_size sz =
     (if sz = 1 then print_lit ''1 byte'' []
      else
        let (sz, f) = scale_size sz [''bytes'', ''kB'', ''MB'', ''GB'', ''TB'']
        in bnd (printf (\<lambda>_. f) ''%llu %s'' [ucast sz, ucast (drop_bit 32 sz), 1]) (\<lambda>(out, _). Inr out))"

section \<open>The digit buffer\<close>

lemma put_ok: "length buf < 64 \<Longrightarrow> put buf ch = Inr (buf @ [ch])"
  by (simp add: put_def)

lemma digit_loop_ok:
  "unat val < base_value b ^ k \<Longrightarrow> length buf + 2 * k \<le> 64 \<Longrightarrow>
     \<exists>buf'. digit_loop fl b val digit_cnt buf = Inr buf' \<and> length buf' \<le> length buf + 2 * k"
proof (induction k arbitrary: val digit_cnt buf)
  case 0
  then show ?case
    by (subst digit_loop.simps) (simp add: word_less_nat_alt)
next
  case (Suc k)
  show ?case
  proof (cases "val > 0")
    case False
    then show ?thesis
      by (subst digit_loop.simps) simp
  next
    case True
    define buf1 where "buf1 = (if has_flag fl GROUP \<and> digit_cnt > 0 \<and> digit_cnt mod base_group b = 0
       then buf @ [CHR '','']  else buf)"
    let ?d = "base_digits b ! (unat val mod base_value b)"
    have l: "length buf1 \<le> length buf + 1"
      by (simp add: buf1_def)
    have "unat (val div of_nat (base_value b)) < base_value b ^ k"
      using Suc.prems(1) unfolding unat_div_base by (simp add: less_mult_imp_div_less mult.commute)
    then obtain buf' where "digit_loop fl b (val div of_nat (base_value b)) (digit_cnt + 1) (buf1 @ [?d]) = Inr buf'"
      "length buf' \<le> length (buf1 @ [?d]) + 2 * k"
      using Suc.IH [of "val div of_nat (base_value b)" "buf1 @ [?d]" "digit_cnt + 1"] Suc.prems(2) l by auto
    moreover have "(if has_flag fl GROUP \<and> digit_cnt > 0 \<and> digit_cnt mod base_group b = 0
       then put buf (CHR '','') else Inr buf) = Inr buf1" "put buf1 ?d = Inr (buf1 @ [?d])"
      using Suc.prems(2) l by (auto simp: buf1_def put_ok)
    ultimately show ?thesis
      using True l by (subst digit_loop.simps) simp
  qed
qed

lemma precision_loop_ok:
  "length buf \<le> 63 \<Longrightarrow> \<exists>buf'. precision_loop buf p = Inr buf' \<and> length buf' \<le> 63"
proof (induction "63 - length buf" arbitrary: buf)
  case 0
  then show ?case
    by (subst precision_loop.simps) simp
next
  case (Suc n)
  then show ?case
    using Suc.hyps(1) [of "buf @ [CHR ''0'']"] by (subst precision_loop.simps) (auto simp: put_ok)
qed

lemma format_integer_ok: "\<exists>out. format_integer val is_signed negative b c = Inr out"
proof -
  have "unat val < 8 ^ 22"
    using unat_less_size [of val] by simp
  also have "(8 :: nat) ^ 22 \<le> base_value b ^ 22"
    using base_value_bounds(1) [of b] by (rule power_mono) simp
  finally obtain buf where "digit_loop (conv_flags c) b val 0 [] = Inr buf" "length buf \<le> 63"
    using digit_loop_ok [of val b 22 "[]" "conv_flags c" 0] by auto
  moreover obtain buf' where "precision_loop buf (if conv_precision c <s 0 then 1 else sint (conv_precision c)) = Inr buf'"
    "length buf' \<le> 63"
    using precision_loop_ok [OF calculation(2)] by blast
  ultimately show ?thesis
    by (simp add: format_integer_def Let_def put_ok)
qed

section \<open>Output to a buffer\<close>

lemma sint_count: "j < 2 ^ 31 \<Longrightarrow> sint (of_nat j :: u32) = int j"
  by (simp add: signed_of_nat signed_take_bit_int_eq_self)

lemma output_all_ok:
  assumes "j + length out < 2 ^ 31" and "N < 2 ^ 31" and "N < length buf"
  shows "output_all out \<lparr>aux_buffer = buf, aux_p = min j N, out_length = of_nat j, max_length = of_nat N\<rparr>
     = Inr \<lparr>aux_buffer = take (min j N) buf @ take (N - j) out @ drop (min (j + length out) N) buf,
            aux_p = min (j + length out) N, out_length = of_nat (j + length out), max_length = of_nat N\<rparr>"
  using assms
proof (induction out arbitrary: j buf)
  case (Cons ch out)
  have sj: "sint (of_nat j :: u32) = int j" "sint (of_nat N :: u32) = int N"
    using Cons.prems by (auto intro: sint_count)
  show ?case
  proof (cases "j < N")
    case True
    have "take (Suc j) (buf[j := ch]) = take j buf @ [ch]"
      using True Cons.prems(3) by (simp add: take_Suc_conv_app_nth)
    moreover have "drop (min (Suc j + length out) N) (buf[j := ch]) = drop (min (Suc j + length out) N) buf"
      using True by simp
    moreover have "take (N - j) (ch # out) = ch # take (N - Suc j) out"
      using True by (metis Suc_diff_Suc take_Suc_Cons)
    ultimately show ?thesis
      using True sj Cons.prems Cons.IH [of "Suc j" "buf[j := ch]"]
      by (simp add: vsnprintf_helper_def word_sless_alt Let_def min_def add.commute)
  next
    case False
    then show ?thesis
      using sj Cons.prems Cons.IH [of "Suc j" buf]
      by (auto simp: vsnprintf_helper_def word_sless_alt Let_def min_def add.commute)
  qed
qed simp

section \<open>Decimal numbers\<close>

text \<open>The decimal digits of a number, the last one first.\<close>

fun decimal :: "nat \<Rightarrow> string" where
  "decimal v = (if v = 0 then [] else (''0123456789'' ! (v mod 10)) # decimal (v div 10))"

declare decimal.simps [simp del]

lemma decimal_digit: "k < 10 \<Longrightarrow> of_char (''0123456789'' ! k) = (48 :: nat) + k"
proof -
  have "\<forall>k \<in> set [0..<10]. of_char (''0123456789'' ! k) = (48 :: nat) + k"
    by code_simp
  then show "k < 10 \<Longrightarrow> ?thesis"
    by simp
qed

lemma isdigit_decimal: "k < 10 \<Longrightarrow> isdigit (''0123456789'' ! k)"
  by (simp add: isdigit_def decimal_digit)

lemma decimal_length: "v < 10 ^ k \<Longrightarrow> length (decimal v) \<le> k"
proof (induction k arbitrary: v)
  case (Suc k)
  then have "v div 10 < 10 ^ k"
    by (simp add: less_mult_imp_div_less mult.commute)
  then show ?case
    using Suc.IH by (subst decimal.simps) simp
qed (simp add: decimal.simps)

lemma digit_loop_decimal:
  "unat val < 10 ^ k \<Longrightarrow> length buf + k < 64 \<Longrightarrow>
     digit_loop 0 base_d val digit_cnt buf = Inr (buf @ decimal (unat val))"
proof (induction k arbitrary: val digit_cnt buf)
  case 0
  then show ?case
    by (subst digit_loop.simps, subst decimal.simps) (simp add: word_less_nat_alt)
next
  case (Suc k)
  have "unat (val div 10) = unat val div 10"
    by (simp add: unat_div)
  moreover have "unat val div 10 < 10 ^ k"
    using Suc.prems(1) by (simp add: less_mult_imp_div_less mult.commute)
  ultimately show ?case
    using Suc.IH [of "val div 10" "buf @ [''0123456789'' ! (unat val mod 10)]" "digit_cnt + 1"] Suc.prems(2)
    by (subst digit_loop.simps, subst decimal.simps) (auto simp: put_ok word_less_nat_alt)
qed

lemma atoi_digits_append:
  "\<forall>c \<in> set xs. isdigit c \<Longrightarrow> atoi_digits a (xs @ ys) = atoi_digits (atoi_digits a xs) ys"
  by (induction xs arbitrary: a) simp_all

lemma decimal_digits: "c \<in> set (decimal v) \<Longrightarrow> isdigit c"
proof (induction v rule: decimal.induct)
  case (1 v)
  then show ?case
    by (subst (asm) (2) decimal.simps) (auto simp: isdigit_decimal split: if_splits)
qed

lemma atoi_digits_decimal: "atoi_digits 0 (rev (decimal v)) = - of_nat v"
proof (induction v rule: decimal.induct)
  case (1 v)
  show ?case
  proof (cases "v = 0")
    case True
    then show ?thesis
      by (simp add: decimal.simps)
  next
    case False
    let ?d = "''0123456789'' ! (v mod 10)"
    have d: "isdigit ?d" "of_char ?d = 48 + v mod 10"
      by (simp_all only: isdigit_decimal decimal_digit mod_less_divisor zero_less_numeral)
    have "rev (decimal v) = rev (decimal (v div 10)) @ [?d]"
      using False by (subst decimal.simps) simp
    then have "atoi_digits 0 (rev (decimal v)) = atoi_digits (- of_nat (v div 10)) [?d]"
      using 1 False decimal_digits by (simp add: atoi_digits_append)
    also have "\<dots> = - of_nat (v div 10) * 10 - (of_nat (48 + v mod 10) - 48)"
      unfolding atoi_digits.simps d using d(1) by simp
    also have "\<dots> = - (of_nat (v div 10 * 10 + v mod 10))"
      by (simp only: of_nat_add of_nat_mult) simp
    finally show ?thesis
      by simp
  qed
qed

lemma isdigit_set: "isdigit ch \<Longrightarrow> ch \<in> set ''0123456789''"
proof -
  assume d: "isdigit ch"
  define k where "k = of_char ch - (48 :: nat)"
  have k: "of_char ch = (48 :: nat) + k" "k < 10"
    using d by (auto simp: isdigit_def k_def)
  then have "ch = ''0123456789'' ! k"
    using decimal_digit [OF k(2)] by (metis of_char_eq_iff)
  then show ?thesis
    using k(2) nth_mem [of k "''0123456789''"] by simp
qed

lemma parse_plain:
  assumes "ch \<notin> set ''-+ #0*.hjltz123456789''" and "ch \<noteq> CHR 0x27"
  shows "parse_conversion (ch # rest) args =
     Inr (\<lparr>conv_flags = 0, conv_width = 0, conv_precision = - 1, conv_type = T_INT\<rparr>, ch # rest, args)"
proof -
  have "\<not> isdigit ch"
    using assms(1) isdigit_set [of ch] by auto
  then show ?thesis
    using assms by (simp add: parse_conversion_def parse_count_def parse_precision_def parse_type_def)
qed

text \<open>The number \<^verbatim>\<open>%d\<close> prints.\<close>

definition int_string :: "int \<Rightarrow> string" where
  "int_string n = (if n < 0 then ''-'' else []) @ (if n = 0 then ''0'' else rev (decimal (nat \<bar>n\<bar>)))"

lemma no_padding: "n \<le> 100 \<Longrightarrow> (if (- of_nat n :: u32) <s 0 then 0 else - of_nat n) = (0 :: u32)"
proof -
  assume n: "n \<le> 100"
  have "sint (- of_nat n :: u32) = - int n"
    using n signed_of_int [of "- int n", where ?'b = 32 and ?'a = int] by (simp add: signed_take_bit_int_eq_self)
  then show ?thesis
    by (auto simp: word_sless_alt)
qed

lemma pad_plain:
  assumes "length buf \<le> 60" and "length sign \<le> 1"
  shows "pad_integer \<lparr>conv_flags = 0, conv_width = 0, conv_precision = - 1, conv_type = ty\<rparr> sign None buf = sign @ rev buf"
proof -
  define pad :: u32 where "pad = - of_nat (length buf + length sign)"
  have 1: "0 - of_nat (length buf) - 0 - (if sign \<noteq> [] then 1 else 0) = pad"
    using assms(2) unfolding pad_def by (cases sign) auto
  have 2: "(if pad <s 0 then 0 else pad) = 0"
    unfolding pad_def using assms by (intro no_padding) simp
  show ?thesis
    by (simp only: pad_integer_def Let_def printf_conversion.simps not_True_eq_False if_False refl 1 2)
      (simp add: output_dup_def)
qed

lemma precision_1: "precision_loop buf 1 = Inr (if buf = [] then ''0'' else buf)"
proof (cases buf)
  case Nil
  have "precision_loop ''0'' 1 = Inr ''0''"
    by (subst precision_loop.simps) simp
  then show ?thesis
    using Nil by (subst precision_loop.simps) (simp add: put_ok)
qed (subst precision_loop.simps, simp)

lemma format_decimal:
  assumes "unat val < 10 ^ 20"
  shows "format_integer val True negative base_d \<lparr>conv_flags = 0, conv_width = 0, conv_precision = - 1, conv_type = ty\<rparr>
     = Inr ((if negative then ''-'' else []) @ (if val = 0 then ''0'' else rev (decimal (unat val))))"
proof -
  have d: "digit_loop 0 base_d val 0 [] = Inr (decimal (unat val))"
    using digit_loop_decimal [of val 20 "[]" 0] assms by simp
  have "decimal (unat val) = [] \<longleftrightarrow> val = 0"
    by (subst decimal.simps) (simp add: word_unat_eq_iff)
  moreover have "sign_of 0 True negative = (if negative then ''-'' else [])"
    by (simp add: sign_of_def)
  ultimately show ?thesis
    using d decimal_length [OF assms] pad_plain [of "if val = 0 then ''0'' else decimal (unat val)" "if negative then ''-'' else []" ty]
    by (simp add: format_integer_def precision_1)
qed

lemma format_signed:
  assumes "unat x = nat \<bar>k\<bar>" and "nat \<bar>k\<bar> < 10 ^ 20"
  shows "format_integer x True (k < 0) base_d \<lparr>conv_flags = 0, conv_width = 0, conv_precision = - 1, conv_type = ty\<rparr>
     = Inr (int_string k)"
proof -
  have "x = 0 \<longleftrightarrow> k = 0"
    using assms(1) by (simp add: word_unat_eq_iff)
  then show ?thesis
    using assms by (simp add: format_decimal int_string_def)
qed

lemma unat_word_of_int:
  assumes "0 \<le> k" and "k < 2 ^ 64"
  shows "unat (word_of_int k :: u64) = nat k"
proof -
  have "uint (word_of_int k :: u64) = k"
    using assms by (simp add: uint_word_of_int_eq take_bit_int_eq_self)
  then show ?thesis
    by (simp only: unat_eq_nat_uint)
qed

lemma vprintf_d: "vprintf str ''%d'' (w # args) = Inr (int_string (sint w))"
proof -
  let ?v = "scast w :: u64"
  have s: "sint ?v = sint w"
    by (rule sint_up_scast) (simp add: is_up)
  have b: "- (2 ^ 31) \<le> sint w" "sint w < 2 ^ 31"
    using sint_greater_eq [of w] sint_less [of w] by simp_all
  have v: "?v = word_of_int (sint w)"
    using of_int_sint [of ?v] s by simp
  have n: "?v <s 0 \<longleftrightarrow> sint w < 0"
    by (simp add: word_sless_alt s)
  have u: "unat (if ?v <s 0 then - ?v else ?v) = nat \<bar>sint w\<bar>"
  proof (cases "sint w < 0")
    case True
    have "- ?v = word_of_int (- sint w)"
      using v by (simp only: wi_hom_neg)
    then have "unat (- ?v) = nat (- sint w)"
      using unat_word_of_int [of "- sint w"] True b(1) by (simp only:) simp
    then show ?thesis
      using True by (simp only: n if_True abs_of_neg)
  next
    case False
    have "unat ?v = nat (sint w)"
      using unat_word_of_int [of "sint w"] False b(2) by (simp only: v) simp
    then show ?thesis
      using False by (simp add: n)
  qed
  have "nat \<bar>sint w\<bar> < 10 ^ 20"
    using b by (simp add: nat_less_iff abs_less_iff)
  then have "format_integer (if ?v <s 0 then - ?v else ?v) True (?v <s 0) base_d
      \<lparr>conv_flags = 0, conv_width = 0, conv_precision = - 1, conv_type = T_INT\<rparr> = Inr (int_string (sint w))"
    using format_signed [OF u] unfolding n by blast
  then have "convert str (CHR ''d'') \<lparr>conv_flags = 0, conv_width = 0, conv_precision = - 1, conv_type = T_INT\<rparr> (w # args)
      = Inr (int_string (sint w), args)"
    by (simp only: convert_def signed_arg.simps va_arg32.simps printf_conversion.simps) simp
  then show ?thesis
    by (simp add: vprintf.simps(2) parse_plain)
qed

lemma isdigit_sign: "isdigit c \<Longrightarrow> \<not> isspace c \<and> c \<noteq> CHR ''+'' \<and> c \<noteq> CHR ''-''"
  by (auto simp: isdigit_def isspace_def)

lemma atoi_number:
  assumes "s \<noteq> []" and "\<forall>c \<in> set s. isdigit c"
  shows "atoi s = - atoi_digits 0 s" and "atoi (CHR ''-'' # s) = atoi_digits 0 s"
  using assms isdigit_sign [of "hd s"] by (cases s; simp add: atoi_def isspace_def)+

lemma atoi_int_string: "atoi (int_string n) = of_int n"
proof (cases "n = 0")
  case True
  then show ?thesis
    by (simp add: int_string_def atoi_def isspace_def isdigit_def)
next
  case False
  let ?s = "rev (decimal (nat \<bar>n\<bar>))"
  have "?s \<noteq> []"
    using False by (subst decimal.simps) simp
  then have "atoi ?s = of_nat (nat \<bar>n\<bar>)" "atoi (CHR ''-'' # ?s) = - of_nat (nat \<bar>n\<bar>)"
    using decimal_digits atoi_digits_decimal [of "nat \<bar>n\<bar>"] by (simp_all add: atoi_number)
  then show ?thesis
    using False by (auto simp: int_string_def)
qed

lemma vprintf_no_conversion:
  "vprintf str ''<<no %%%c in kernel>>'' (of_nat (of_char ch) # args) = Inr (''<<no %'' @ [ch] @ '' in kernel>>'')"
  "vprintf str ''<<no %%%c conversion>>'' (of_nat (of_char ch) # args) = Inr (''<<no %'' @ [ch] @ '' conversion>>'')"
proof -
  have "(of_char ch :: nat) = of_char ch mod 256"
    using of_char_of [of "of_char ch :: nat"] by simp
  then have "(of_char ch :: nat) < 256"
    by (metis mod_less_divisor zero_less_numeral)
  then have "(of_char ch :: nat) < 2 ^ 32"
    by (rule less_trans) simp
  then have "take_bit 32 (of_char ch :: nat) = of_char ch"
    by (rule take_bit_nat_eq_self)
  then have "unat (of_nat (of_char ch) :: u32) = of_char ch"
    by (simp add: unsigned_of_nat)
  then have c: "convert str (CHR ''c'') \<lparr>conv_flags = 0, conv_width = 0, conv_precision = - 1, conv_type = T_INT\<rparr>
      (of_nat (of_char ch) # args) = Inr ([ch], args)"
    by (simp add: convert_def format_string_def word_sless_alt)
  have p: "parse_conversion (CHR ''c'' # rest) a =
      Inr (\<lparr>conv_flags = 0, conv_width = 0, conv_precision = - 1, conv_type = T_INT\<rparr>, CHR ''c'' # rest, a)" for rest a
    by (rule parse_plain) simp_all
  show "vprintf str ''<<no %%%c in kernel>>'' (of_nat (of_char ch) # args) = Inr (''<<no %'' @ [ch] @ '' in kernel>>'')"
    by (simp add: vprintf.simps(2) p c)
  show "vprintf str ''<<no %%%c conversion>>'' (of_nat (of_char ch) # args) = Inr (''<<no %'' @ [ch] @ '' conversion>>'')"
    by (simp add: vprintf.simps(2) p c)
qed

text \<open>A format string that ends right after the percent sign.\<close>

lemma vprintf_lone_percent: "vprintf str ''%'' args = Inl Out_of_bounds"
  by (simp add: vprintf.simps(2) parse_conversion_def parse_count_def parse_precision_def parse_type_def convert_def)

lemma vsnprintf_zero:
  assumes "vprintf str format args = Inr out" and "length out < 2 ^ 31"
  shows "vsnprintf str buf 0 format args = Inr (buf, of_nat (length out))"
proof -
  have "j + length out < 2 ^ 31 \<Longrightarrow> output_all out \<lparr>aux_buffer = buf, aux_p = 0, out_length = of_nat j, max_length = 0\<rparr>
     = Inr \<lparr>aux_buffer = buf, aux_p = 0, out_length = of_nat (j + length out), max_length = 0\<rparr>" for j
  proof (induction out arbitrary: j)
    case (Cons ch out)
    have "\<not> (of_nat j :: u32) <s 0"
      using Cons.prems by (simp add: word_sless_alt sint_count)
    then show ?case
      using Cons.IH [of "j + 1"] Cons.prems by (simp add: vsnprintf_helper_def Let_def add.commute)
  qed simp
  from this [of 0] show ?thesis
    using assms by (simp add: vsnprintf_def)
qed

section \<open>Correctness\<close>

text \<open>C36: Printing an integer with \<^verbatim>\<open>%d\<close> and reading it back with \<^verbatim>\<open>atoi\<close> gives the integer, for every 32-bit
  value including the most negative one.\<close>

theorem printf_atoi: "\<exists>s. vprintf str ''%d'' (w # args) = Inr s \<and> atoi s = w"
  using vprintf_d [of str w args] atoi_int_string [of "sint w"] by simp

text \<open>C37: \<^verbatim>\<open>vsnprintf\<close> never writes outside the \<open>buf_size\<close> bytes it is given: it stores as much of the output as
  fits before a terminator, keeps the bytes after the terminator, and returns the length of the
  untruncated output; with \<open>buf_size\<close> 0 it stores nothing.\<close>

theorem vsnprintf_bounded:
  assumes "vprintf str format args = Inr out" and "length out < 2 ^ 31"
    and "buf_size \<le> 2 ^ 31" and "unat buf_size \<le> length buf"
  shows "vsnprintf str buf buf_size format args =
     Inr (if buf_size = 0 then buf
          else take (unat buf_size - 1) out @ [CHR 0x00] @ drop (Suc (min (length out) (unat buf_size - 1))) buf,
          of_nat (length out))"
proof (cases "buf_size = 0")
  case True
  then show ?thesis
    using vsnprintf_zero assms by simp
next
  case False
  define N where "N = unat buf_size - 1"
  have s: "0 < unat buf_size" "unat buf_size \<le> 2 ^ 31"
    using False assms(3) by (simp_all add: unat_gt_0 word_le_nat_alt)
  then have N: "N < 2 ^ 31" "N < length buf" "buf_size - 1 = of_nat N"
    using assms(4) by (auto simp: N_def of_nat_diff)
  have "output_all out \<lparr>aux_buffer = buf, aux_p = 0, out_length = 0, max_length = of_nat N\<rparr>
     = Inr \<lparr>aux_buffer = take N out @ drop (min (length out) N) buf,
            aux_p = min (length out) N, out_length = of_nat (length out), max_length = of_nat N\<rparr>"
    using output_all_ok [of 0 out N buf] assms(2) N by simp
  moreover have "(take N out @ drop (min (length out) N) buf)[min (length out) N := CHR 0x00]
     = take N out @ [CHR 0x00] @ drop (Suc (min (length out) N)) buf"
    using N(2) by (simp add: list_update_append Cons_nth_drop_Suc [symmetric] min.commute)
  moreover have "unat buf_size - Suc 0 = N"
    by (simp add: N_def)
  ultimately show ?thesis
    using assms(1) N False by (simp add: vsnprintf_def word_gt_0)
qed

theorem vsnprintf_bounded_witness:
  "vsnprintf (\<lambda>_. []) ''........'' 4 ''100%%ok'' [] = Inr (''100'' @ [CHR 0x00] @ ''....'', 6)"
proof -
  have "vprintf (\<lambda>_. []) ''100%%ok'' [] = Inr ''100%ok''"
    by (simp add: vprintf.simps(2))
  then show ?thesis
    using vsnprintf_bounded [of "\<lambda>_. []" "''100%%ok''" "[]" "''100%ok''" 4 "''........''"] by simp
qed

text \<open>C38: Formatting an integer never overruns its 64-byte buffer: for every value, base, flag, width and precision the
  digits, group separators, leading zeros and octal prefix fit, and an output is produced.\<close>

theorem format_integer_safe: "\<exists>out. format_integer val is_signed negative b c = Inr out"
  by (rule format_integer_ok)

end
