(* ===== verification/Spec2Isabelle.thy ===== *)
theory Spec2Isabelle
  imports Synch_Progress Interrupt_Table Malloc_Client Frame_Table Arithmetic Kernel_String Heap_Sort Kernel_Random Stdio
begin

text \<open>
  A verification library for a Pintos kernel. File names are relative to \<^verbatim>\<open>src/src\<close>.

  \<^bold>\<open>The program.\<close> Pintos is a small teaching kernel for IA-32. Threads share one processor and are preempted by the timer; they
  synchronise through semaphores, locks and condition variables, which rest on switching interrupts off and on blocking threads.
  Pages of memory come from two pools, kept in bitmaps; the kernel heap hands out blocks of such pages; user processes see the pages
  through page directories. Lists, hash tables, bitmaps, strings, sorting, formatted output, random numbers and 64-bit
  division are the kernel's own library. Devices, file system, system calls and process loading sit on top.

  \<^bold>\<open>Conventions\<close> (theory \<open>Prelude\<close>). Machine integers and pointers are words of their width, so arithmetic wraps around as in the
  kernel; address 0 is the null pointer. Code that can fail returns \<open>'a res\<close>, a sum of \<open>kerror\<close> and the result, where \<open>kerror\<close>
  tells failed assertions, panics, executed \<^verbatim>\<open>NOT_REACHED\<close>, divide errors and three kinds of undefined behaviour apart. Assertions are
  those of the source (\<open>ASSERT\<close>), in its order. A loop whose end the source does not make evident is a partial function into \<open>'a run\<close>,
  an option of \<open>'a res\<close>, in which \<open>None\<close> is a loop that never ends; every theorem about such code states that the result is
  \<open>Some\<close>. There is no fuel in the model. Other loops are recursive functions with a termination proof. State is passed
  explicitly, as the records named below.

  \<^bold>\<open>Data structures.\<close>
  \<^item> \<open>Kernel_List\<close>: \<^verbatim>\<open>lib/kernel/list.c\<close> on a heap of prev and next links. \<open>list_rep\<close> relates a list header to the sequence of its elements.
    The lemmas give the effect of every operation on that sequence and on the rest of the heap; insertion, removal, reversal, the
    stable in-place merge sort, ordered insertion and removal of duplicates are the main ones. Locale \<open>fifo_queue\<close> is the queue
    contract and is interpreted on \<^verbatim>\<open>list_push_back\<close> and \<^verbatim>\<open>list_pop_front\<close>; locale \<open>strict_weak\<close> is the contract of comparison functions.
  \<^item> \<open>Kernel_Bitmap\<close>: \<^verbatim>\<open>lib/kernel/bitmap.c\<close>, words of 32 bits; \<open>bview\<close> reads a bitmap as a list of bits. Setting, counting,
    scanning and creation are shown to act on the bits, wrap-around of the size computation included.
  \<^item> \<open>Extents\<close>: locale \<open>extent_allocator\<close>, the contract of a pool of units handed out in runs, with the lemma that over any sequence of
    requests and releases the runs held are disjoint. It is interpreted on bitmaps in \<open>Kernel_Bitmap\<close> and on the page pools in
    \<open>Palloc\<close>.
  \<^item> \<open>Kernel_Hash\<close>: \<^verbatim>\<open>lib/kernel/hash.c\<close>. Buckets are the sequences that list.c represents; the bucket array, the element count and
    resizing are as in the code, and whether \<^verbatim>\<open>malloc\<close> finds memory is an argument. Locale \<open>hash_laws\<close> states what the hash and
    comparison functions of a table must satisfy, and is interpreted in \<open>Frame_Table\<close> on those of \<^verbatim>\<open>vm/frame_table.c\<close>. The lemmas
    show insertion, deletion, lookup, iteration and the search for the bucket count correct.

  \<^bold>\<open>Memory.\<close>
  \<^item> \<open>Memory\<close>: byte-addressed memory with 32-bit loads and stores. \<open>Vaddr\<close>: \<^verbatim>\<open>threads/vaddr.h\<close> and \<^verbatim>\<open>threads/pte.h\<close>, the splitting of
    addresses and the contents of page-table entries.
  \<^item> \<open>Palloc\<close>: \<^verbatim>\<open>threads/palloc.c\<close>, state \<open>palloc\<close> (both pools and memory). The invariant \<open>palloc_ok\<close> is established by
    \<^verbatim>\<open>palloc_init\<close>, with the exact place of both pools, and kept by all operations; the pages held by clients never overlap. The
    bitmaps are values beside the memory; the pages they take are left out of the pools.
  \<^item> \<open>Malloc\<close> and \<open>Malloc_Client\<close>: \<^verbatim>\<open>threads/malloc.c\<close>, state \<open>mstate\<close>. Arena headers are words in memory, free lists are sequences
    of addresses. \<open>malloc_rel\<close> relates a state to the map from blocks in use to their sizes, and every operation refines the
    operation on that map. Locale \<open>block_heap\<close> is the contract for clients, interpreted on \<^verbatim>\<open>malloc\<close> and \<^verbatim>\<open>free\<close>. Sizes that wrap
    around when the arena header is added are excluded there and treated by \<open>allocation_size_wraps\<close>.
  \<^item> \<open>Pagedir\<close>: \<^verbatim>\<open>userprog/pagedir.c\<close>, state \<open>vm\<close>, on directories and tables in that memory. \<open>Frame_Table\<close>: \<^verbatim>\<open>vm/frame_table.c\<close> and
    \<^verbatim>\<open>vm/SupplementalPageTable.c\<close>, creation and lookup.

  \<^bold>\<open>Threads and interrupts.\<close>
  \<^item> \<open>Threads\<close>: \<^verbatim>\<open>threads/thread.c\<close>, the level and context variables of \<^verbatim>\<open>threads/interrupt.c\<close>, \<^verbatim>\<open>threads/switch.S\<close>, \<^verbatim>\<open>tss_update\<close> and
    \<^verbatim>\<open>process_activate\<close>, state \<open>kern\<close>.
  \<^item> \<open>Synch\<close>: \<^verbatim>\<open>threads/synch.c\<close>, state \<open>sys\<close>, with the rest of each thread's work as \<open>frame\<close>s. \<open>step\<close> is the relation of the
    interleaved system: calls, continuations, timer and device interrupts and the idle loop. Preemption is possible wherever
    interrupts are on. \<open>Synch_Steps\<close> proves the invariant \<open>sys_ok\<close> of all steps, and from it mutual exclusion, that no wakeup is
    lost, and a bound on the wait of ready threads. \<open>Synch_Progress\<close> proves that no assertion fails where callers keep the duties the
    comments of \<^verbatim>\<open>synch.c\<close> give them (\<open>lawful\<close>).
  \<^item> \<open>Descriptors\<close>: \<^verbatim>\<open>userprog/gdt.c\<close> and the gates of \<^verbatim>\<open>threads/interrupt.c\<close>, decoded by the layouts of the processor manual.
    \<open>Interrupt_Table\<close>: \<^verbatim>\<open>intr_init\<close>, registration and dispatch.

  \<^bold>\<open>Library.\<close>
  \<^item> \<open>Kernel_String\<close>: \<^verbatim>\<open>lib/string.c\<close> on memory. \<open>Stdlib\<close>: \<^verbatim>\<open>atoi\<close> and the binary searches of \<^verbatim>\<open>lib/stdlib.c\<close>, and heap sort on lists as a
    reference; \<open>Heap_Sort\<close>: \<^verbatim>\<open>sort\<close> and \<^verbatim>\<open>qsort\<close> on the bytes of memory with 32-bit indexes, shown to refine it for arrays that fit in
    memory and have fewer than \<open>2 ^ 31\<close> elements (a child index \<^verbatim>\<open>2 * i + 1\<close> wraps around beyond).
  \<^item> \<open>Stdio\<close>: \<^verbatim>\<open>lib/stdio.c\<close>; \<open>Kernel_Random\<close>: \<^verbatim>\<open>lib/random.c\<close>; \<open>Arithmetic\<close>: \<^verbatim>\<open>lib/arithmetic.c\<close>, whose remainders are
    shown right exactly when they fit in 32 bits.

  \<^bold>\<open>What the model leaves out of the modelled files.\<close> The locks of the page pools, of the block descriptors and of the thread number
  counter bracket single operations on their data and are left out; the components they protect are sequential. In the
  interleaved system the set of threads is fixed, threads have the structures that \<^verbatim>\<open>thread_create\<close> makes, and thread exit and
  \<^verbatim>\<open>process_wait\<close> are not among the calls. The part of \<^verbatim>\<open>cond_wait\<close> before the lock is released, and \<^verbatim>\<open>cond_signal\<close> up to its
  \<^verbatim>\<open>sema_up\<close>, are one step each: they touch only the list of the condition, which the lock the caller holds protects. Semaphores, locks and conditions are
  named by their addresses and exist, so assertions that a pointer to them is not null have no counterpart. Comparison, hash, action
  and handler functions are arguments. Functions that only print are left out.

  \<^bold>\<open>Not modelled.\<close> The device drivers, the console, the boot code and the interrupt stubs are port input and output and assembly. The buffer cache
  works through pointers that are never initialised, and the file system, the system calls, the loading of processes and
  \<^verbatim>\<open>bitmap_read\<close> and \<^verbatim>\<open>bitmap_write\<close> rest on it. \<^verbatim>\<open>add_frame_entry\<close> is not called anywhere.
\<close>

end
